(* ===== verification/Go_Base.thy ===== *)
theory Go_Base
  imports Main "HOL-Library.Char_ord" "HOL-Library.List_Lexorder" "HOL-Library.Code_Target_Numeral"
begin

text \<open>
  The shared base of the development: what the sources use of the Go language and of its
  standard library. It holds the results of fallible code, fixed-width integers, slices with
  their spare capacity, byte strings and their order, little-endian encodings, the byte reader
  behind \<^verbatim>\<open>binary.Read\<close>, and random access to a file. Every component imports it.
\<close>

section \<open>Results of Go code\<close>

text \<open>
  A call ends with a value, with an \<^verbatim>\<open>error\<close>, or with a panic. Both failures are values of
  \<open>fault\<close>; \<open>'a res\<close> is the result of a call. \<open>GoErr\<close> carries the constant part of the
  error's message, \<open>PanicMsg\<close> that of an explicit \<^verbatim>\<open>panic\<close>.
\<close>

datatype fault =
    IndexPanic
  | SlicePanic
  | NilPanic
  | PanicMsg string
  | GoErr string
  | EOF
  | UnexpectedEOF

type_synonym 'a res = "fault + 'a"

type_synonym byte = char
type_synonym bytes = "char list"

definition is_panic :: "fault \<Rightarrow> bool" where
  "is_panic f = (case f of IndexPanic \<Rightarrow> True | SlicePanic \<Rightarrow> True | NilPanic \<Rightarrow> True
     | PanicMsg _ \<Rightarrow> True | _ \<Rightarrow> False)"

fun bindr :: "'a res \<Rightarrow> ('a \<Rightarrow> 'b res) \<Rightarrow> 'b res" where
  "bindr (Inl e) f = Inl e"
| "bindr (Inr x) f = f x"

text \<open>An index expression \<^verbatim>\<open>xs[i]\<close>: out of range it panics.\<close>

definition idx :: "'a list \<Rightarrow> nat \<Rightarrow> 'a res" where
  "idx xs i = (if i < length xs then Inr (xs ! i) else Inl IndexPanic)"

section \<open>Fixed-width integers\<close>

text \<open>
  Unsigned values are natural numbers, signed ones integers; a conversion or an arithmetic
  operation of the source is followed by the reduction to its width.
\<close>

definition u16 :: "nat \<Rightarrow> nat" where "u16 n = n mod 2 ^ 16"
definition u32 :: "nat \<Rightarrow> nat" where "u32 n = n mod 2 ^ 32"
definition u64 :: "nat \<Rightarrow> nat" where "u64 n = n mod 2 ^ 64"
definition i64 :: "int \<Rightarrow> int" where "i64 x = (x + 2 ^ 63) mod 2 ^ 64 - 2 ^ 63"

definition i64_bits :: "int \<Rightarrow> nat" where "i64_bits x = nat (x mod 2 ^ 64)"

definition in_i64 :: "int \<Rightarrow> bool" where "in_i64 x \<longleftrightarrow> - (2 ^ 63) \<le> x \<and> x < 2 ^ 63"

section \<open>Slices\<close>

text \<open>
  A slice is its visible elements and its spare elements: those of the backing array between its
  length and its capacity that an earlier operation is known to have stored. The language only
  promises that \<^verbatim>\<open>append\<close> finds room for the new elements, so no further spare capacity is
  assumed; a reslice past the known capacity panics. None of the sources shares the backing
  array of a slice it appends to, so a slice is a value.
\<close>

record 'a slice =
  elems :: "'a list"
  spare :: "'a list"

definition slice_of :: "'a list \<Rightarrow> 'a slice" where
  "slice_of xs = \<lparr>elems = xs, spare = []\<rparr>"

abbreviation slen :: "'a slice \<Rightarrow> nat" where "slen s \<equiv> length (elems s)"

definition sappend :: "'a slice \<Rightarrow> 'a list \<Rightarrow> 'a slice" where
  "sappend s xs = \<lparr>elems = elems s @ xs, spare = drop (length xs) (spare s)\<rparr>"

definition supto :: "'a slice \<Rightarrow> nat \<Rightarrow> 'a slice res" where
  "supto s k = (let all = elems s @ spare s in
     if k \<le> length all then Inr \<lparr>elems = take k all, spare = drop k all\<rparr> else Inl SlicePanic)"

definition sfrom :: "'a slice \<Rightarrow> nat \<Rightarrow> 'a list res" where
  "sfrom s k = (if k \<le> slen s then Inr (drop k (elems s)) else Inl SlicePanic)"

definition sset :: "'a slice \<Rightarrow> nat \<Rightarrow> 'a \<Rightarrow> 'a slice res" where
  "sset s i x = (if i < slen s then Inr (s\<lparr>elems := (elems s)[i := x]\<rparr>) else Inl IndexPanic)"

text \<open>
  The insertion idiom of the sources,
  \<^verbatim>\<open>s = append(s[:i+1], s[i:]...); s[i] = x\<close>.
\<close>

definition sinsert :: "'a slice \<Rightarrow> nat \<Rightarrow> 'a \<Rightarrow> 'a slice res" where
  "sinsert s i x =
     bindr (supto s (i + 1)) (\<lambda>front. bindr (sfrom s i) (\<lambda>rest. sset (sappend front rest) i x))"

section \<open>Byte strings\<close>

text \<open>\<^verbatim>\<open>bytes.Compare\<close>: lexicographic, by unsigned bytes; the result is -1, 0 or 1.\<close>

fun bytes_Compare :: "bytes \<Rightarrow> bytes \<Rightarrow> int" where
  "bytes_Compare [] [] = 0"
| "bytes_Compare [] (y # ys) = -1"
| "bytes_Compare (x # xs) [] = 1"
| "bytes_Compare (x # xs) (y # ys) =
     (if (of_char x :: nat) < of_char y then -1
      else if (of_char y :: nat) < of_char x then 1
      else bytes_Compare xs ys)"

section \<open>Little-endian encodings\<close>

fun le_enc :: "nat \<Rightarrow> nat \<Rightarrow> bytes" where
  "le_enc 0 n = []"
| "le_enc (Suc k) n = char_of n # le_enc k (n div 256)"

fun le_dec :: "bytes \<Rightarrow> nat" where
  "le_dec [] = 0"
| "le_dec (c # cs) = of_char c + 256 * le_dec cs"

definition put_u8 :: "nat \<Rightarrow> bytes" where "put_u8 = le_enc 1"
definition put_u16 :: "nat \<Rightarrow> bytes" where "put_u16 = le_enc 2"
definition put_u32 :: "nat \<Rightarrow> bytes" where "put_u32 = le_enc 4"
definition put_u64 :: "nat \<Rightarrow> bytes" where "put_u64 = le_enc 8"
definition put_i64 :: "int \<Rightarrow> bytes" where "put_i64 x = le_enc 8 (i64_bits x)"

text \<open>
  \<^verbatim>\<open>io.ReadFull\<close> on a byte stream: the bytes asked for and the rest of the stream; \<open>EOF\<close> when
  the stream is empty, \<open>UnexpectedEOF\<close> when it ends inside the value. Reading no byte succeeds.
\<close>

definition read_full :: "nat \<Rightarrow> bytes \<Rightarrow> (bytes \<times> bytes) res" where
  "read_full k bs =
     (if k \<le> length bs then Inr (take k bs, drop k bs)
      else if bs = [] then Inl EOF else Inl UnexpectedEOF)"

definition read_uint :: "nat \<Rightarrow> bytes \<Rightarrow> (nat \<times> bytes) res" where
  "read_uint k bs = bindr (read_full k bs) (\<lambda>(v, rest). Inr (le_dec v, rest))"

definition read_i64 :: "bytes \<Rightarrow> (int \<times> bytes) res" where
  "read_i64 bs = bindr (read_uint 8 bs) (\<lambda>(v, rest). Inr (i64 (int v), rest))"

text \<open>The loops that decode a known number of values, one after the other.\<close>

fun read_many :: "nat \<Rightarrow> (bytes \<Rightarrow> ('a \<times> bytes) res) \<Rightarrow> bytes \<Rightarrow> ('a list \<times> bytes) res" where
  "read_many 0 rd bs = Inr ([], bs)"
| "read_many (Suc k) rd bs =
     bindr (rd bs) (\<lambda>(x, rest). bindr (read_many k rd rest) (\<lambda>(xs, rest'). Inr (x # xs, rest')))"

section \<open>Files\<close>

text \<open>
  A file is its bytes. \<open>read_at\<close> is \<^verbatim>\<open>ReadAt\<close> (any short read reports \<open>EOF\<close>), \<open>write_at\<close> is
  \<^verbatim>\<open>WriteAt\<close> (a write past the end leaves zero bytes in between).
\<close>

definition read_at :: "bytes \<Rightarrow> nat \<Rightarrow> nat \<Rightarrow> bytes res" where
  "read_at f ofs k = (if ofs + k \<le> length f then Inr (take k (drop ofs f)) else Inl EOF)"

definition write_at :: "bytes \<Rightarrow> nat \<Rightarrow> bytes \<Rightarrow> bytes" where
  "write_at f ofs bs =
     (let f' = f @ replicate (ofs - length f) (char_of (0 :: nat))
      in take ofs f' @ bs @ drop (ofs + length bs) f')"

section \<open>Lemmas\<close>

text \<open>
  \<open>wrap_simps\<close> drops reductions of values that are in range. \<open>go_eval\<close> collects the definitions
  that evaluate a call on concrete arguments; used with the congruences \<open>eval_congs\<close>, which keep
  the simplifier out of a continuation until its argument is known.
\<close>

named_theorems wrap_simps \<open>values already within their width\<close>
named_theorems go_eval \<open>definitions that evaluate calls on concrete arguments\<close>

lemma bindr_weak_cong: "m = m' \<Longrightarrow> bindr m f = bindr m' f"
  by simp

lemma case_prod_weak_cong: "m = m' \<Longrightarrow> case_prod f m = case_prod f m'"
  by simp

lemma Let_weak_cong: "m = m' \<Longrightarrow> Let m f = Let m' f"
  by simp

lemmas eval_congs = bindr_weak_cong case_prod_weak_cong Let_weak_cong

declare Let_def [go_eval] idx_def [go_eval] u16_def [go_eval] u32_def [go_eval] u64_def [go_eval]
  i64_def [go_eval] slice_of_def [go_eval] sappend_def [go_eval] supto_def [go_eval]
  sfrom_def [go_eval] sset_def [go_eval] sinsert_def [go_eval]

lemma bindr_assoc: "bindr (bindr m f) g = bindr m (\<lambda>x. bindr (f x) g)"
  by (cases m) auto

lemma bindr_Inr_iff: "bindr m f = Inr y \<longleftrightarrow> (\<exists>x. m = Inr x \<and> f x = Inr y)"
  by (cases m) auto

lemma bindr_Inl_iff: "bindr m f = Inl e \<longleftrightarrow> m = Inl e \<or> (\<exists>x. m = Inr x \<and> f x = Inl e)"
  by (cases m) auto

lemma idx_ok [simp]: "i < length xs \<Longrightarrow> idx xs i = Inr (xs ! i)"
  by (simp add: idx_def)

lemma idx_panic [simp]: "length xs \<le> i \<Longrightarrow> idx xs i = Inl IndexPanic"
  by (simp add: idx_def)

lemma u16_id [wrap_simps]: "n < 65536 \<Longrightarrow> u16 n = n"
  by (simp add: u16_def)

lemma u32_id [wrap_simps]: "n < 4294967296 \<Longrightarrow> u32 n = n"
  by (simp add: u32_def)

lemma u64_id [wrap_simps]: "n < 18446744073709551616 \<Longrightarrow> u64 n = n"
  by (simp add: u64_def)

lemma i64_id [wrap_simps]: "in_i64 x \<Longrightarrow> i64 x = x"
  by (simp add: in_i64_def i64_def)

lemma i64_bits_lt: "i64_bits x < 2 ^ 64"
  by (simp add: i64_bits_def nat_less_iff)

lemma i64_of_bits: "in_i64 x \<Longrightarrow> i64 (int (i64_bits x)) = x"
proof -
  assume x: "in_i64 x"
  have "i64 (int (i64_bits x)) = (x mod 2 ^ 64 + 2 ^ 63) mod 2 ^ 64 - 2 ^ 63"
    by (simp add: i64_def i64_bits_def)
  also have "\<dots> = i64 x"
    by (simp add: i64_def mod_add_left_eq)
  finally show ?thesis using x by (simp add: i64_id)
qed

lemma sinsert_inside:
  assumes "i < slen s"
  shows "\<exists>sp. sinsert s i x = Inr \<lparr>elems = take i (elems s) @ x # drop i (elems s), spare = sp\<rparr>
    \<and> length sp = length (spare s) - 1"
proof -
  have "(take (i + 1) (elems s) @ drop i (elems s))[i := x] = take i (elems s) @ x # drop i (elems s)"
    using assms by (simp add: take_Suc_conv_app_nth list_update_append)
  with assms show ?thesis
    by (simp add: sinsert_def supto_def sfrom_def sset_def sappend_def Let_def)
qed

lemma sinsert_end:
  assumes "i = slen s" and "spare s \<noteq> []"
  shows "sinsert s i x = Inr \<lparr>elems = elems s @ [x], spare = tl (spare s)\<rparr>"
  using assms
  by (cases "spare s") (simp_all add: sinsert_def supto_def sfrom_def sset_def sappend_def Let_def)

lemma bytes_Compare_lt: "bytes_Compare a b = -1 \<longleftrightarrow> a < b"
  by (induction a b rule: bytes_Compare.induct) (auto simp: less_char_def)

lemma bytes_Compare_gt: "bytes_Compare a b = 1 \<longleftrightarrow> b < a"
  by (induction a b rule: bytes_Compare.induct) (auto simp: less_char_def)

lemma bytes_Compare_ge: "0 \<le> bytes_Compare a b \<longleftrightarrow> b \<le> a"
proof -
  have "bytes_Compare a b \<in> {-1, 0, 1}"
    by (induction a b rule: bytes_Compare.induct) auto
  then have "0 \<le> bytes_Compare a b \<longleftrightarrow> bytes_Compare a b \<noteq> -1" by auto
  then show ?thesis by (simp add: bytes_Compare_lt not_less)
qed

lemma length_le_enc [simp]: "length (le_enc k n) = k"
  by (induction k arbitrary: n) auto

lemma le_dec_enc: "le_dec (le_enc k n) = n mod 256 ^ k"
proof (induction k arbitrary: n)
  case 0
  then show ?case by simp
next
  case (Suc k)
  have "le_dec (le_enc (Suc k) n) = n mod 256 + 256 * (n div 256 mod 256 ^ k)"
    by (simp add: Suc.IH)
  also have "\<dots> = n mod (256 * 256 ^ k)"
    by (simp add: mod_mult2_eq)
  finally show ?case by simp
qed

lemma le_dec_lt: "le_dec bs < 256 ^ length bs"
proof (induction bs)
  case Nil
  then show ?case by simp
next
  case (Cons c cs)
  have "(of_char c :: nat) < 256" by simp
  with Cons.IH have "of_char c + 256 * le_dec cs < 256 * 256 ^ length cs"
    by linarith
  then show ?case by simp
qed

lemma le_enc_dec: "le_enc (length bs) (le_dec bs) = bs"
  by (induction bs) (auto simp: char_of_eq_iff take_bit_eq_mod)

lemma read_full_append [simp]: "read_full (length bs) (bs @ rest) = Inr (bs, rest)"
  by (simp add: read_full_def)

lemma read_full_len: "k = length bs \<Longrightarrow> read_full k (bs @ rest) = Inr (bs, rest)"
  by simp

lemma read_uint_enc: "read_uint k (le_enc k n @ rest) = Inr (n mod 256 ^ k, rest)"
  using read_full_append [of "le_enc k n" rest] by (simp add: read_uint_def le_dec_enc)

lemma read_put_i64: "in_i64 x \<Longrightarrow> read_i64 (put_i64 x @ rest) = Inr (x, rest)"
  using i64_bits_lt [of x]
  by (simp add: read_i64_def put_i64_def read_uint_enc i64_of_bits)

lemma read_many_concat:
  assumes "\<And>x rest. x \<in> set xs \<Longrightarrow> rd (enc x @ rest) = Inr (dec x, rest)"
  shows "read_many (length xs) rd (concat (map enc xs) @ rest) = Inr (map dec xs, rest)"
  using assms by (induction xs) auto

lemma length_write_at: "length (write_at f ofs bs) = max (length f) (ofs + length bs)"
  by (auto simp: write_at_def Let_def)

lemma read_at_write_at: "read_at (write_at f ofs bs) ofs (length bs) = Inr bs"
  by (simp add: read_at_def length_write_at) (simp add: write_at_def Let_def)

lemma read_at_write_at_other:
  assumes "ofs' + k \<le> ofs \<or> ofs + length bs \<le> ofs'" and "ofs' + k \<le> length f"
  shows "read_at (write_at f ofs bs) ofs' k = read_at f ofs' k"
proof -
  let ?f = "f @ replicate (ofs - length f) (char_of (0 :: nat))"
  have len: "ofs' + k \<le> length (write_at f ofs bs)" using assms(2) by (simp add: length_write_at)
  have "take k (drop ofs' (write_at f ofs bs)) = take k (drop ofs' f)"
  proof (rule nth_equalityI)
    show "length (take k (drop ofs' (write_at f ofs bs))) = length (take k (drop ofs' f))"
      using len assms(2) by simp
  next
    fix i assume "i < length (take k (drop ofs' (write_at f ofs bs)))"
    then have i: "i < k" by simp
    have "write_at f ofs bs ! (ofs' + i) = f ! (ofs' + i)"
      using assms i by (auto simp: write_at_def Let_def nth_append min_def)
    then show "take k (drop ofs' (write_at f ofs bs)) ! i = take k (drop ofs' f) ! i"
      using i len assms(2) by simp
  qed
  then show ?thesis using len assms(2) by (simp add: read_at_def)
qed

end
