(* ===== verification/Tree_Node.thy ===== *)
theory Tree_Node
  imports Go_Base
begin

text \<open>
  The nodes of the B+ tree, \<^verbatim>\<open>node.go\<close> without its page encoding: cells, the offset array that
  orders them, binary search, insertion and splitting, with what each operation does to the keys
  of a well-formed node.
\<close>

section \<open>Data\<close>

definition pageSize :: nat where "pageSize = 4096"
definition maxLeafNodeCells :: nat where "maxLeafNodeCells = 9"
definition maxInternalNodeCells :: nat where "maxInternalNodeCells = 290"

record internal_cell =
  ikey :: bytes
  ifileOffset :: nat

record leaf_cell =
  keySize :: nat
  valSize :: nat
  lkey :: bytes
  lval :: bytes

record node =
  isDirty :: bool
  isLeaf :: bool
  fileOffset :: nat
  offsets :: "nat slice"
  internalCell :: "internal_cell list"
  leafCell :: "leaf_cell list"

text \<open>The zero value \<^verbatim>\<open>Node{}\<close>.\<close>

definition zero_node :: node where
  "zero_node = \<lparr>isDirty = False, isLeaf = False, fileOffset = 0, offsets = slice_of [],
     internalCell = [], leafCell = []\<rparr>"

definition mk_leafCell :: "bytes \<Rightarrow> bytes \<Rightarrow> leaf_cell" where
  "mk_leafCell key value = \<lparr>keySize = u32 (length key), valSize = u32 (length value),
     lkey = key, lval = value\<rparr>"

section \<open>Operations\<close>

definition isFull :: "node \<Rightarrow> bool" where
  "isFull n = (if isLeaf n then slen (offsets n) \<ge> maxLeafNodeCells
     else slen (offsets n) > maxInternalNodeCells)"

definition setFileOffsetForNode :: "node \<Rightarrow> nat \<Rightarrow> node" where
  "setFileOffsetForNode n fo = n\<lparr>fileOffset := fo\<rparr>"

definition markDirty :: "node \<Rightarrow> node" where "markDirty n = n\<lparr>isDirty := True\<rparr>"
definition markClean :: "node \<Rightarrow> node" where "markClean n = n\<lparr>isDirty := False\<rparr>"

definition appendInternalCell :: "node \<Rightarrow> nat \<Rightarrow> bytes \<Rightarrow> node" where
  "appendInternalCell n fo key =
     n\<lparr>offsets := sappend (offsets n) [u16 (slen (offsets n))],
       internalCell := internalCell n @ [\<lparr>ikey = key, ifileOffset = fo\<rparr>]\<rparr>"

definition insertInternalCell :: "node \<Rightarrow> nat \<Rightarrow> nat \<Rightarrow> bytes \<Rightarrow> node res" where
  "insertInternalCell n ofs fo key =
     bindr (sinsert (offsets n) ofs (u16 (length (internalCell n)))) (\<lambda>os.
       Inr (n\<lparr>offsets := os,
         internalCell := internalCell n @ [\<lparr>ikey = key, ifileOffset = fo\<rparr>]\<rparr>))"

definition appendLeafCell :: "node \<Rightarrow> bytes \<Rightarrow> bytes \<Rightarrow> node" where
  "appendLeafCell n key value =
     n\<lparr>offsets := sappend (offsets n) [u16 (slen (offsets n))],
       leafCell := leafCell n @ [mk_leafCell key value]\<rparr>"

definition insertLeafCell :: "node \<Rightarrow> nat \<Rightarrow> bytes \<Rightarrow> bytes \<Rightarrow> node res" where
  "insertLeafCell n ofs key value =
     bindr (if ofs = u16 (length (leafCell n)) then Inr (sappend (offsets n) [ofs])
            else sinsert (offsets n) ofs (u16 (length (leafCell n)))) (\<lambda>os.
       Inr (n\<lparr>offsets := os, leafCell := leafCell n @ [mk_leafCell key value]\<rparr>))"

definition cellKey :: "node \<Rightarrow> nat \<Rightarrow> bytes res" where
  "cellKey n ofs = (if isLeaf n then bindr (idx (leafCell n) ofs) (\<lambda>c. Inr (lkey c))
     else bindr (idx (internalCell n) ofs) (\<lambda>c. Inr (ikey c)))"

function findIns_loop :: "node \<Rightarrow> bytes \<Rightarrow> int \<Rightarrow> int \<Rightarrow> nat res" where
  "findIns_loop n key low high =
     (if low \<le> high then
        let mid = low + (high - low) div 2 in
        (case bindr (idx (elems (offsets n)) (nat mid)) (cellKey n) of
           Inl e \<Rightarrow> Inl e
         | Inr k \<Rightarrow>
             if bytes_Compare key k = -1 then findIns_loop n key low (mid - 1)
             else if bytes_Compare key k = 1 then findIns_loop n key (mid + 1) high
             else Inr (u16 (nat mid)))
      else Inr (u16 (nat low)))"
  by pat_completeness auto
termination
  by (relation "measure (\<lambda>(n, key, low, high). nat (high - low + 1))") auto

definition findInsPointForKey :: "node \<Rightarrow> bytes \<Rightarrow> nat res" where
  "findInsPointForKey n key = findIns_loop n key 0 (int (slen (offsets n)) - 1)"

fun findChild_loop :: "node \<Rightarrow> bytes \<Rightarrow> nat list \<Rightarrow> nat \<Rightarrow> nat res" where
  "findChild_loop n key [] found = Inr found"
| "findChild_loop n key (ofs # rest) found =
     bindr (idx (internalCell n) ofs) (\<lambda>c.
       if bytes_Compare key (ikey c) \<ge> 0 then findChild_loop n key rest ofs else Inr found)"

definition findChildPage :: "node \<Rightarrow> bytes \<Rightarrow> nat res" where
  "findChildPage n key = findChild_loop n key (elems (offsets n)) 0"

text \<open>The source returns a pointer to the cell; the model returns its index in \<open>leafCell\<close>.\<close>

fun find_cell :: "leaf_cell list \<Rightarrow> bytes \<Rightarrow> nat option" where
  "find_cell [] key = None"
| "find_cell (c # cs) key = (if lkey c = key then Some 0 else map_option Suc (find_cell cs key))"

definition findLeafCell :: "node \<Rightarrow> bytes \<Rightarrow> nat option" where
  "findLeafCell n key = find_cell (leafCell n) key"

fun split_leaf_loop :: "node \<Rightarrow> nat list \<Rightarrow> node \<Rightarrow> node res" where
  "split_leaf_loop n [] newpg = Inr newpg"
| "split_leaf_loop n (ofs # rest) newpg =
     bindr (idx (leafCell n) ofs) (\<lambda>c.
       split_leaf_loop n rest (appendLeafCell newpg (lkey c) (lval c)))"

fun split_internal_loop :: "node \<Rightarrow> nat list \<Rightarrow> node \<Rightarrow> node res" where
  "split_internal_loop n [] newpg = Inr newpg"
| "split_internal_loop n (ofs # rest) newpg =
     bindr (idx (internalCell n) ofs) (\<lambda>c.
       split_internal_loop n rest (appendInternalCell newpg (ifileOffset c) (ikey c)))"

text \<open>\<^verbatim>\<open>n.split(newpg)\<close> changes both nodes: the result is the old node, the new one and the separator.\<close>

definition node_split :: "node \<Rightarrow> node \<Rightarrow> (node \<times> node \<times> bytes) res" where
  "node_split n newpg0 =
     (let newpg1 = newpg0\<lparr>isLeaf := isLeaf n\<rparr>;
          splitpt = slen (offsets n) div 2;
          moved = drop splitpt (elems (offsets n))
      in bindr (if isLeaf n then split_leaf_loop n moved newpg1
                else split_internal_loop n moved newpg1) (\<lambda>newpg.
         bindr (supto (offsets n) splitpt) (\<lambda>os.
         bindr (idx (elems (offsets newpg)) 0) (\<lambda>o0.
         bindr (cellKey newpg o0) (\<lambda>sep.
           Inr (n\<lparr>offsets := os\<rparr>, newpg, sep))))))"

declare pageSize_def [go_eval] maxLeafNodeCells_def [go_eval] maxInternalNodeCells_def [go_eval]
  zero_node_def [go_eval] mk_leafCell_def [go_eval] isFull_def [go_eval]
  setFileOffsetForNode_def [go_eval] markDirty_def [go_eval] markClean_def [go_eval]
  appendInternalCell_def [go_eval] insertInternalCell_def [go_eval] appendLeafCell_def [go_eval]
  insertLeafCell_def [go_eval] cellKey_def [go_eval] findIns_loop.simps [go_eval]
  findInsPointForKey_def [go_eval] findChildPage_def [go_eval] findLeafCell_def [go_eval]
  node_split_def [go_eval]

section \<open>Well-formed nodes\<close>

text \<open>
  \<open>leaf_live\<close> are the cells a leaf's offset array reaches, in its order; \<open>leaf_keys\<close> their keys.
  A leaf keeps the cells it has given away at a split (they are no longer reached), so the array
  may be shorter than the cells; it then has the spare capacity it had before the split.
\<close>

definition leaf_live :: "node \<Rightarrow> leaf_cell list" where
  "leaf_live n = map (\<lambda>o'. leafCell n ! o') (elems (offsets n))"

abbreviation leaf_keys :: "node \<Rightarrow> bytes list" where
  "leaf_keys n \<equiv> map lkey (leaf_live n)"

definition leaf_shape :: "node \<Rightarrow> bool" where
  "leaf_shape n \<longleftrightarrow> isLeaf n \<and> (\<forall>o' \<in> set (elems (offsets n)). o' < length (leafCell n))
     \<and> (slen (offsets n) = length (leafCell n)
        \<or> slen (offsets n) < length (leafCell n)
          \<and> maxLeafNodeCells \<le> slen (offsets n) + length (spare (offsets n)))"

definition leaf_sorted :: "node \<Rightarrow> bool" where
  "leaf_sorted n \<longleftrightarrow> sorted_wrt (<) (leaf_keys n) \<and> distinct (map lkey (leafCell n))"

definition int_seps :: "node \<Rightarrow> (bytes \<times> nat) list" where
  "int_seps n = map (\<lambda>o'. (ikey (internalCell n ! o'), ifileOffset (internalCell n ! o')))
     (elems (offsets n))"

definition int_shape :: "node \<Rightarrow> bool" where
  "int_shape n \<longleftrightarrow> \<not> isLeaf n \<and> slen (offsets n) = length (internalCell n)
     \<and> (\<forall>o' \<in> set (elems (offsets n)). o' < length (internalCell n))"

section \<open>Searching a node\<close>

declare findIns_loop.simps [simp del]

text \<open>The keys a node's offset array orders, and the position the binary search must find.\<close>

definition node_keys :: "node \<Rightarrow> bytes list" where
  "node_keys n = map (\<lambda>o'. if isLeaf n then lkey (leafCell n ! o') else ikey (internalCell n ! o'))
     (elems (offsets n))"

definition offsets_ok :: "node \<Rightarrow> bool" where
  "offsets_ok n \<longleftrightarrow> (\<forall>o' \<in> set (elems (offsets n)).
     o' < (if isLeaf n then length (leafCell n) else length (internalCell n)))"

definition ins_point :: "bytes list \<Rightarrow> bytes \<Rightarrow> nat" where
  "ins_point ks key = length (takeWhile (\<lambda>k. k < key) ks)"

lemma length_node_keys [simp]: "length (node_keys n) = slen (offsets n)"
  by (simp add: node_keys_def)

lemma node_keys_leaf: "isLeaf n \<Longrightarrow> node_keys n = leaf_keys n"
  by (simp add: node_keys_def leaf_live_def)

lemma node_keys_int: "\<not> isLeaf n \<Longrightarrow> node_keys n = map fst (int_seps n)"
  by (simp add: node_keys_def int_seps_def)

lemma offset_key:
  assumes "offsets_ok n" and "i < slen (offsets n)"
  shows "bindr (idx (elems (offsets n)) i) (cellKey n) = Inr (node_keys n ! i)"
proof -
  from assms have "elems (offsets n) ! i \<in> set (elems (offsets n))" by simp
  with assms show ?thesis by (auto simp: offsets_ok_def cellKey_def node_keys_def)
qed

lemma ins_point_unique:
  assumes "sorted_wrt (<) ks" and "p \<le> length ks"
    and "\<forall>i < p. ks ! i < key" and "\<forall>i. p \<le> i \<and> i < length ks \<longrightarrow> key \<le> ks ! i"
  shows "ins_point ks key = p"
proof -
  have "takeWhile (\<lambda>k. k < key) ks = take p ks"
  proof (rule takeWhile_eq_take_P_nth)
    fix i assume "i < p" and "i < length ks"
    then show "ks ! i < key" using assms(3) by blast
  next
    assume "p < length ks"
    then show "\<not> ks ! p < key" using assms(4) by auto
  qed
  with assms(2) show ?thesis by (simp add: ins_point_def)
qed

lemma findIns_loop_correct:
  assumes "offsets_ok n" and "sorted_wrt (<) (node_keys n)" and "slen (offsets n) < 65536"
    and "0 \<le> low" and "high < int (slen (offsets n))" and "low \<le> high + 1"
    and "\<forall>i < nat low. node_keys n ! i < key"
    and "\<forall>i. high < int i \<and> i < slen (offsets n) \<longrightarrow> key < node_keys n ! i"
  shows "findIns_loop n key low high = Inr (ins_point (node_keys n) key)"
  using assms
proof (induction n key low high rule: findIns_loop.induct)
  case (1 n key low high)
  note simps = findIns_loop.simps [of n key low high]
  show ?case
  proof (cases "low \<le> high")
    case False
    with 1(8) have lh: "high = low - 1" by simp
    have "ins_point (node_keys n) key = nat low"
      using 1 lh by (intro ins_point_unique) (auto simp: less_imp_le)
    moreover have "nat low < 65536" using 1 lh by linarith
    ultimately show ?thesis using False by (simp add: simps u16_id)
  next
    case True
    define mid where "mid = low + (high - low) div 2"
    have mid: "low \<le> mid" "mid \<le> high" using True by (auto simp: mid_def)
    then have m: "nat mid < slen (offsets n)" "0 \<le> mid" using 1 by auto
    have key: "bindr (idx (elems (offsets n)) (nat mid)) (cellKey n) = Inr (node_keys n ! nat mid)"
      using 1(3) m by (intro offset_key) auto
    have below: "node_keys n ! i < node_keys n ! nat mid" if "i < nat mid" for i
      using 1(4) that m by (simp add: sorted_wrt_nth_less)
    have above: "node_keys n ! nat mid < node_keys n ! i" if "nat mid < i" "i < slen (offsets n)" for i
      using 1(4) that m by (simp add: sorted_wrt_nth_less)
    consider "key < node_keys n ! nat mid" | "node_keys n ! nat mid < key" | "key = node_keys n ! nat mid"
      by fastforce
    then show ?thesis
    proof cases
      case 1
      have "key < node_keys n ! i" if "mid - 1 < int i" "i < slen (offsets n)" for i
      proof (cases "i = nat mid")
        case False
        then have "nat mid < i" using that(1) m(2) by linarith
        then show ?thesis using 1 above [of i] that(2) by (blast intro: less_trans)
      qed (use 1 in simp)
      then have "findIns_loop n key low (mid - 1) = Inr (ins_point (node_keys n) key)"
        using "1.prems" mid m 1
        by (intro "1.IH"(1) [OF True mid_def key]) (simp_all add: bytes_Compare_lt)
      then show ?thesis using 1 True key by (simp add: simps mid_def [symmetric] bytes_Compare_lt Let_def)
    next
      case 2
      have "node_keys n ! i < key" if "i < nat (mid + 1)" for i
      proof (cases "i = nat mid")
        case False
        then have "i < nat mid" using that m(2) by linarith
        then show ?thesis using 2 below [of i] by (blast intro: less_trans)
      qed (use 2 in simp)
      moreover have cmp: "bytes_Compare key (node_keys n ! nat mid) = 1"
        using 2 by (simp add: bytes_Compare_gt)
      ultimately have "findIns_loop n key (mid + 1) high = Inr (ins_point (node_keys n) key)"
        using "1.prems" mid m
        by (intro "1.IH"(2) [OF True mid_def key]) simp_all
      then show ?thesis using cmp True key by (simp add: simps mid_def [symmetric] Let_def)
    next
      case 3
      have "ins_point (node_keys n) key = nat mid"
        using "1.prems" m below above 3
        by (intro ins_point_unique) (auto simp: le_less)
      moreover have "bytes_Compare key (node_keys n ! nat mid) \<noteq> -1"
        "bytes_Compare key (node_keys n ! nat mid) \<noteq> 1"
        using 3 by (simp_all add: bytes_Compare_lt bytes_Compare_gt)
      ultimately show ?thesis using True key m "1.prems"(3)
        by (simp add: simps mid_def [symmetric] Let_def u16_id)
    qed
  qed
qed

lemma findInsPointForKey_correct:
  assumes "offsets_ok n" and "sorted_wrt (<) (node_keys n)" and "slen (offsets n) < 65536"
  shows "findInsPointForKey n key = Inr (ins_point (node_keys n) key)"
  unfolding findInsPointForKey_def using assms by (intro findIns_loop_correct) auto

text \<open>The linear search for a child stops at the first separator above the key.\<close>

lemma findChild_loop_correct:
  assumes "\<forall>o' \<in> set os. o' < length (internalCell n)"
  shows "findChild_loop n key os found
    = Inr (last (found # takeWhile (\<lambda>o'. ikey (internalCell n ! o') \<le> key) os))"
  using assms by (induction os arbitrary: found) (auto simp: bytes_Compare_ge)

lemma findChildPage_correct:
  assumes "int_shape n"
  shows "findChildPage n key
    = Inr (last (0 # takeWhile (\<lambda>o'. ikey (internalCell n ! o') \<le> key) (elems (offsets n))))"
  using assms by (simp add: findChildPage_def int_shape_def findChild_loop_correct)

lemma find_cell_None: "find_cell cs key = None \<longleftrightarrow> key \<notin> lkey ` set cs"
  by (induction cs) auto

lemma find_cell_Some: "find_cell cs key = Some i \<Longrightarrow> i < length cs \<and> lkey (cs ! i) = key"
  by (induction cs arbitrary: i) (auto split: if_splits)

lemma find_cell_distinct:
  "distinct (map lkey cs) \<Longrightarrow> i < length cs \<Longrightarrow> find_cell cs (lkey (cs ! i)) = Some i"
proof (induction cs arbitrary: i)
  case (Cons c cs)
  then show ?case by (cases i) (auto simp: image_iff)
qed simp

lemma find_cell_append:
  "find_cell (cs @ ds) key =
     (case find_cell cs key of Some i \<Rightarrow> Some i | None \<Rightarrow> map_option (\<lambda>i. i + length cs) (find_cell ds key))"
  by (induction cs) (auto simp: option.map_comp option.map_ident comp_def split: option.splits)

lemma find_cell_update:
  assumes "lkey c = lkey (cs ! i)" and "i < length cs"
  shows "find_cell (cs[i := c]) key = find_cell cs key"
  using assms
proof (induction cs arbitrary: i)
  case (Cons a cs)
  then show ?case by (cases i) auto
qed simp

section \<open>Inserting into a node\<close>

lemma insertLeafCell_correct:
  assumes shape: "leaf_shape n" and i: "i \<le> slen (offsets n)"
    and room: "slen (offsets n) < maxLeafNodeCells" and small: "length (leafCell n) < 65536"
  shows "\<exists>sp. insertLeafCell n i key value =
    Inr (n\<lparr>offsets := \<lparr>elems = take i (elems (offsets n)) @ length (leafCell n) # drop i (elems (offsets n)),
              spare = sp\<rparr>,
           leafCell := leafCell n @ [mk_leafCell key value]\<rparr>)
    \<and> length sp = length (spare (offsets n)) - 1"
proof -
  have u: "u16 (length (leafCell n)) = length (leafCell n)" using small by (simp add: u16_id)
  show ?thesis
  proof (cases "i = length (leafCell n)")
    case True
    with shape i have "i = slen (offsets n)" by (auto simp: leaf_shape_def)
    with True u show ?thesis
      by (intro exI [of _ "drop 1 (spare (offsets n))"]) (simp add: insertLeafCell_def sappend_def)
  next
    case notlast: False
    show ?thesis
    proof (cases "i < slen (offsets n)")
      case True
      from sinsert_inside [OF this, of "length (leafCell n)"] notlast u show ?thesis
        by (auto simp: insertLeafCell_def)
    next
      case False
      with i have e: "i = slen (offsets n)" by simp
      with notlast shape room have "spare (offsets n) \<noteq> []" by (auto simp: leaf_shape_def)
      from sinsert_end [OF e this, of "length (leafCell n)"] notlast u e show ?thesis
        by (intro exI [of _ "tl (spare (offsets n))"]) (simp add: insertLeafCell_def)
    qed
  qed
qed

lemma insertInternalCell_correct:
  assumes "i < slen (offsets n)" and "length (internalCell n) < 65536"
  shows "\<exists>sp. insertInternalCell n i fo key =
    Inr (n\<lparr>offsets := \<lparr>elems = take i (elems (offsets n)) @ length (internalCell n) # drop i (elems (offsets n)),
              spare = sp\<rparr>,
           internalCell := internalCell n @ [\<lparr>ikey = key, ifileOffset = fo\<rparr>]\<rparr>)"
  using sinsert_inside [OF assms(1), of "length (internalCell n)"] assms(2)
  by (auto simp: insertInternalCell_def u16_id)

section \<open>Splitting a leaf\<close>

abbreviation recell :: "leaf_cell \<Rightarrow> leaf_cell" where
  "recell c \<equiv> mk_leafCell (lkey c) (lval c)"

lemma split_leaf_loop_correct:
  assumes "\<forall>o' \<in> set os. o' < length (leafCell n)"
    and "slen (offsets pg) + length os < 65536"
  shows "split_leaf_loop n os pg =
    Inr (pg\<lparr>offsets := sappend (offsets pg) [slen (offsets pg)..<slen (offsets pg) + length os],
            leafCell := leafCell pg @ map (\<lambda>o'. recell (leafCell n ! o')) os\<rparr>)"
  using assms
proof (induction os arbitrary: pg)
  case Nil
  then show ?case by (simp add: sappend_def)
next
  case (Cons o' os)
  let ?pg = "appendLeafCell pg (lkey (leafCell n ! o')) (lval (leafCell n ! o'))"
  have off: "offsets ?pg = sappend (offsets pg) [slen (offsets pg)]"
    using Cons.prems(2) by (simp add: appendLeafCell_def u16_id)
  have "split_leaf_loop n (o' # os) pg = split_leaf_loop n os ?pg"
    using Cons.prems(1) by simp
  also have "\<dots> = Inr (?pg\<lparr>offsets := sappend (offsets ?pg) [slen (offsets ?pg)..<slen (offsets ?pg) + length os],
            leafCell := leafCell ?pg @ map (\<lambda>o'. recell (leafCell n ! o')) os\<rparr>)"
    using Cons.prems off by (intro Cons.IH) (auto simp: sappend_def)
  also have "\<dots> = Inr (pg\<lparr>offsets := sappend (offsets pg) [slen (offsets pg)..<slen (offsets pg) + length (o' # os)],
            leafCell := leafCell pg @ map (\<lambda>o'. recell (leafCell n ! o')) (o' # os)\<rparr>)"
    using off by (simp add: appendLeafCell_def sappend_def upt_conv_Cons del: upt_Suc)
  finally show ?case .
qed

lemma node_split_leaf:
  assumes leaf: "isLeaf n" and ok: "offsets_ok n"
    and len: "0 < slen (offsets n)" "slen (offsets n) < 65536"
  defines "m \<equiv> slen (offsets n) div 2"
  shows "node_split n zero_node =
    Inr (n\<lparr>offsets := \<lparr>elems = take m (elems (offsets n)),
              spare = drop m (elems (offsets n)) @ spare (offsets n)\<rparr>\<rparr>,
         zero_node\<lparr>isLeaf := True, offsets := slice_of [0..<slen (offsets n) - m],
              leafCell := map recell (drop m (leaf_live n))\<rparr>,
         leaf_keys n ! m)"
proof -
  let ?os = "drop m (elems (offsets n))"
  let ?pg = "zero_node\<lparr>isLeaf := True, offsets := slice_of [0..<slen (offsets n) - m],
              leafCell := map recell (drop m (leaf_live n))\<rparr>"
  have m: "m < slen (offsets n)" using len by (simp add: m_def)
  have "\<forall>o' \<in> set ?os. o' < length (leafCell n)"
    using ok leaf by (auto simp: offsets_ok_def dest: in_set_dropD)
  then have loop: "split_leaf_loop n ?os (zero_node\<lparr>isLeaf := True\<rparr>) = Inr ?pg"
    using len m by (subst split_leaf_loop_correct)
      (auto simp: zero_node_def slice_of_def sappend_def leaf_live_def drop_map)
  have first: "idx (elems (offsets ?pg)) 0 = Inr 0"
    using m by (simp add: slice_of_def)
  have "cellKey ?pg 0 = Inr (leaf_keys n ! m)"
    using m by (simp add: cellKey_def leaf_live_def mk_leafCell_def)
  moreover have "supto (offsets n) m
      = Inr \<lparr>elems = take m (elems (offsets n)), spare = ?os @ spare (offsets n)\<rparr>"
    using m by (simp add: supto_def Let_def)
  ultimately show ?thesis
    using loop first leaf by (simp add: node_split_def Let_def m_def [symmetric])
qed

section \<open>Splitting and extending an internal node\<close>

lemma split_internal_loop_correct:
  assumes "\<forall>o' \<in> set os. o' < length (internalCell n)"
    and "slen (offsets pg) + length os < 65536"
  shows "split_internal_loop n os pg =
    Inr (pg\<lparr>offsets := sappend (offsets pg) [slen (offsets pg)..<slen (offsets pg) + length os],
            internalCell := internalCell pg @ map (\<lambda>o'. internalCell n ! o') os\<rparr>)"
  using assms
proof (induction os arbitrary: pg)
  case Nil
  then show ?case by (simp add: sappend_def)
next
  case (Cons o' os)
  let ?c = "internalCell n ! o'"
  let ?pg = "appendInternalCell pg (ifileOffset ?c) (ikey ?c)"
  have off: "offsets ?pg = sappend (offsets pg) [slen (offsets pg)]"
    using Cons.prems(2) by (simp add: appendInternalCell_def u16_id)
  have "split_internal_loop n (o' # os) pg = split_internal_loop n os ?pg"
    using Cons.prems(1) by simp
  also have "\<dots> = Inr (?pg\<lparr>offsets := sappend (offsets ?pg) [slen (offsets ?pg)..<slen (offsets ?pg) + length os],
            internalCell := internalCell ?pg @ map (\<lambda>o'. internalCell n ! o') os\<rparr>)"
    using Cons.prems off by (intro Cons.IH) (auto simp: sappend_def)
  also have "\<dots> = Inr (pg\<lparr>offsets := sappend (offsets pg) [slen (offsets pg)..<slen (offsets pg) + length (o' # os)],
            internalCell := internalCell pg @ map (\<lambda>o'. internalCell n ! o') (o' # os)\<rparr>)"
    using off by (simp add: appendInternalCell_def sappend_def upt_conv_Cons del: upt_Suc)
  finally show ?case .
qed

lemma node_split_internal:
  assumes int: "\<not> isLeaf n" and ok: "offsets_ok n"
    and len: "0 < slen (offsets n)" "slen (offsets n) < 65536"
  defines "m \<equiv> slen (offsets n) div 2"
  shows "node_split n zero_node =
    Inr (n\<lparr>offsets := \<lparr>elems = take m (elems (offsets n)),
              spare = drop m (elems (offsets n)) @ spare (offsets n)\<rparr>\<rparr>,
         zero_node\<lparr>offsets := slice_of [0..<slen (offsets n) - m],
              internalCell := map (\<lambda>o'. internalCell n ! o') (drop m (elems (offsets n)))\<rparr>,
         node_keys n ! m)"
proof -
  let ?os = "drop m (elems (offsets n))"
  let ?pg = "zero_node\<lparr>offsets := slice_of [0..<slen (offsets n) - m],
              internalCell := map (\<lambda>o'. internalCell n ! o') ?os\<rparr>"
  have m: "m < slen (offsets n)" using len by (simp add: m_def)
  have "\<forall>o' \<in> set ?os. o' < length (internalCell n)"
    using ok int by (auto simp: offsets_ok_def dest: in_set_dropD)
  then have loop: "split_internal_loop n ?os (zero_node\<lparr>isLeaf := False\<rparr>) = Inr ?pg"
    using len m by (subst split_internal_loop_correct) (auto simp: zero_node_def slice_of_def sappend_def)
  have first: "idx (elems (offsets ?pg)) 0 = Inr 0"
    using m by (simp add: slice_of_def)
  have "cellKey ?pg 0 = Inr (node_keys n ! m)"
    using m int by (simp add: cellKey_def node_keys_def zero_node_def)
  moreover have "supto (offsets n) m
      = Inr \<lparr>elems = take m (elems (offsets n)), spare = ?os @ spare (offsets n)\<rparr>"
    using m by (simp add: supto_def Let_def)
  ultimately show ?thesis
    using loop first int by (simp add: node_split_def Let_def m_def [symmetric])
qed

lemma insert_separator:
  assumes shape: "int_shape n" and p: "p \<le> slen (offsets n)" and small: "slen (offsets n) < 65535"
  shows "\<exists>n'. (if p = u16 (slen (offsets n)) then Inr (appendInternalCell n fo key)
       else insertInternalCell n p fo key) = Inr n'
    \<and> int_shape n' \<and> int_seps n' = take p (int_seps n) @ (key, fo) # drop p (int_seps n)
    \<and> (0 < p \<longrightarrow> hd (elems (offsets n')) = hd (elems (offsets n)))"
proof -
  have len: "slen (offsets n) = length (internalCell n)" and int: "\<not> isLeaf n"
    and offs: "\<forall>o' \<in> set (elems (offsets n)). o' < length (internalCell n)"
    using shape by (auto simp: int_shape_def)
  let ?os = "elems (offsets n)"
  let ?os' = "take p ?os @ length (internalCell n) # drop p ?os"
  have result: "\<exists>sp. (if p = u16 (slen (offsets n)) then Inr (appendInternalCell n fo key)
       else insertInternalCell n p fo key) =
      Inr (n\<lparr>offsets := \<lparr>elems = ?os', spare = sp\<rparr>,
             internalCell := internalCell n @ [\<lparr>ikey = key, ifileOffset = fo\<rparr>]\<rparr>)"
  proof (cases "p = slen (offsets n)")
    case True
    then show ?thesis
      using len small by (intro exI [of _ "drop 1 (spare (offsets n))"])
        (simp add: appendInternalCell_def sappend_def u16_id)
  next
    case False
    then show ?thesis
      using insertInternalCell_correct [of p n fo key] p small len by (simp add: u16_id)
  qed
  then obtain sp where res: "(if p = u16 (slen (offsets n)) then Inr (appendInternalCell n fo key)
       else insertInternalCell n p fo key) = Inr (n\<lparr>offsets := \<lparr>elems = ?os', spare = sp\<rparr>,
             internalCell := internalCell n @ [\<lparr>ikey = key, ifileOffset = fo\<rparr>]\<rparr>)" by blast
  let ?n' = "n\<lparr>offsets := \<lparr>elems = ?os', spare = sp\<rparr>,
             internalCell := internalCell n @ [\<lparr>ikey = key, ifileOffset = fo\<rparr>]\<rparr>"
  have "int_shape ?n'"
    using int len offs p by (auto simp: int_shape_def less_Suc_eq dest: in_set_takeD in_set_dropD)
  moreover have "int_seps ?n' = take p (int_seps n) @ (key, fo) # drop p (int_seps n)"
    using offs by (auto simp: int_seps_def nth_append take_map drop_map dest: in_set_takeD in_set_dropD)
  moreover have "0 < p \<longrightarrow> hd (elems (offsets ?n')) = hd (elems (offsets n))"
    using p by (cases ?os; cases p) auto
  ultimately show ?thesis using res by blast
qed

end
