(* ===== verification/Node_Codec.thy ===== *)
theory Node_Codec
  imports Tree_Node
begin

text \<open>
  The page format of \<^verbatim>\<open>node.go\<close>: \<open>encode\<close> lays a node out on one page, \<open>decode\<close> reads a page
  back. The lemmas give the size of every page, the exact condition under which encoding fails,
  and what a page decodes to.
\<close>

section \<open>Encoding\<close>

definition LeafNode :: nat where "LeafNode = 1"
definition InternalNode :: nat where "InternalNode = 2"

fun encode_leaf_cells :: "node \<Rightarrow> nat list \<Rightarrow> bytes res" where
  "encode_leaf_cells n [] = Inr []"
| "encode_leaf_cells n (ofs # rest) =
     bindr (idx (leafCell n) ofs) (\<lambda>c.
     bindr (encode_leaf_cells n rest) (\<lambda>bs.
       Inr (put_u32 (keySize c) @ put_u32 (valSize c) @ lkey c @ lval c @ bs)))"

fun encode_internal_cells :: "node \<Rightarrow> nat list \<Rightarrow> bytes res" where
  "encode_internal_cells n [] = Inr []"
| "encode_internal_cells n (ofs # rest) =
     bindr (idx (internalCell n) ofs) (\<lambda>c.
     bindr (encode_internal_cells n rest) (\<lambda>bs.
       Inr (put_u32 (u32 (length (ikey c))) @ ikey c @ put_u64 (ifileOffset c) @ bs)))"

text \<open>The common tail of both encoders: the free-space count and the padding to a page.\<close>

definition pad_page :: "string \<Rightarrow> bytes \<Rightarrow> bytes res" where
  "pad_page what buf =
     (if length buf + 2 > pageSize then Inl (GoErr what)
      else let freeSize = u16 (pageSize - length buf - 2);
               page = buf @ put_u16 freeSize @ replicate freeSize (char_of (0 :: nat))
           in if length page \<noteq> pageSize then Inl (PanicMsg ''page size'') else Inr page)"

definition encodeLeaf :: "node \<Rightarrow> bytes res" where
  "encodeLeaf n =
     bindr (encode_leaf_cells n (elems (offsets n))) (\<lambda>cells.
       pad_page ''leaf node data size exceeds page size''
         (put_u8 LeafNode @ put_u16 (u16 (slen (offsets n)))
          @ concat (map put_u16 (elems (offsets n))) @ cells))"

definition encodeInternal :: "node \<Rightarrow> bytes res" where
  "encodeInternal n =
     bindr (encode_internal_cells n (elems (offsets n))) (\<lambda>cells.
       pad_page ''internal node data size exceeds page size''
         (put_u8 InternalNode @ put_u64 (fileOffset n) @ put_u32 (u32 (slen (offsets n)))
          @ concat (map put_u16 (elems (offsets n))) @ cells))"

definition node_encode :: "node \<Rightarrow> bytes res" where
  "node_encode n = (if isLeaf n then encodeLeaf n else encodeInternal n)"

section \<open>Decoding\<close>

definition read_leaf_cell :: "bytes \<Rightarrow> (leaf_cell \<times> bytes) res" where
  "read_leaf_cell b0 =
     bindr (read_uint 4 b0) (\<lambda>(ks, b1).
     bindr (read_uint 4 b1) (\<lambda>(vs, b2).
     bindr (read_full ks b2) (\<lambda>(k, b3).
     bindr (read_full vs b3) (\<lambda>(v, b4).
       Inr (\<lparr>keySize = ks, valSize = vs, lkey = k, lval = v\<rparr>, b4)))))"

definition read_internal_cell :: "bytes \<Rightarrow> (internal_cell \<times> bytes) res" where
  "read_internal_cell b0 =
     bindr (read_uint 4 b0) (\<lambda>(keyLen, b1).
     bindr (read_full keyLen b1) (\<lambda>(k, b2).
     bindr (read_uint 8 b2) (\<lambda>(fo, b3).
       Inr (\<lparr>ikey = k, ifileOffset = fo\<rparr>, b3))))"

definition decodeLeaf :: "node \<Rightarrow> bytes \<Rightarrow> node res" where
  "decodeLeaf n buf =
     bindr (read_uint 2 buf) (\<lambda>(offsetCount, b1).
     bindr (read_many offsetCount (read_uint 2) b1) (\<lambda>(os, b2).
     bindr (read_many offsetCount read_leaf_cell b2) (\<lambda>(cells, b3).
       Inr (n\<lparr>isLeaf := True, offsets := slice_of os, leafCell := cells\<rparr>))))"

definition decodeInternal :: "node \<Rightarrow> bytes \<Rightarrow> node res" where
  "decodeInternal n buf =
     bindr (read_uint 8 buf) (\<lambda>(fo, b1).
     bindr (read_uint 4 b1) (\<lambda>(cellCount, b2).
     bindr (read_many cellCount (read_uint 2) b2) (\<lambda>(os, b3).
     bindr (read_many cellCount read_internal_cell b3) (\<lambda>(cells, b4).
       Inr (n\<lparr>isLeaf := False, fileOffset := fo, offsets := slice_of os, internalCell := cells\<rparr>)))))"

definition node_decode :: "node \<Rightarrow> bytes \<Rightarrow> node res" where
  "node_decode n data =
     bindr (read_uint 1 data) (\<lambda>(nodeType, buf).
       if nodeType = LeafNode then decodeLeaf n buf else decodeInternal n buf)"

section \<open>Sizes\<close>

text \<open>The bytes a node needs on its page, the two bytes of the free-space count included.\<close>

definition leaf_need :: "node \<Rightarrow> nat" where
  "leaf_need n = 5 + 2 * slen (offsets n)
     + sum_list (map (\<lambda>c. 8 + length (lkey c) + length (lval c)) (leaf_live n))"

definition internal_need :: "node \<Rightarrow> nat" where
  "internal_need n = 15 + 2 * slen (offsets n)
     + sum_list (map (\<lambda>(k, fo). 12 + length k) (int_seps n))"

lemma length_put [simp]:
  "length (put_u8 n) = 1" "length (put_u16 n) = 2" "length (put_u32 n) = 4" "length (put_u64 n) = 8"
  by (simp_all add: put_u8_def put_u16_def put_u32_def put_u64_def)

lemma length_concat_u16 [simp]: "length (concat (map put_u16 os)) = 2 * length os"
  by (induction os) auto

lemma encode_leaf_cells_eq:
  assumes "\<forall>o' \<in> set os. o' < length (leafCell n)"
  shows "encode_leaf_cells n os = Inr (concat (map (\<lambda>c. put_u32 (keySize c) @ put_u32 (valSize c)
     @ lkey c @ lval c) (map (\<lambda>o'. leafCell n ! o') os)))"
  using assms by (induction os) auto

lemma encode_internal_cells_eq:
  assumes "\<forall>o' \<in> set os. o' < length (internalCell n)"
  shows "encode_internal_cells n os = Inr (concat (map (\<lambda>c. put_u32 (u32 (length (ikey c))) @ ikey c
     @ put_u64 (ifileOffset c)) (map (\<lambda>o'. internalCell n ! o') os)))"
  using assms by (induction os) auto

lemma length_leaf_bytes:
  "length (concat (map (\<lambda>c. put_u32 (keySize c) @ put_u32 (valSize c) @ lkey c @ lval c) cs))
   = sum_list (map (\<lambda>c. 8 + length (lkey c) + length (lval c)) cs)"
  by (induction cs) auto

lemma length_internal_bytes:
  "length (concat (map (\<lambda>c. put_u32 (u32 (length (ikey c))) @ ikey c @ put_u64 (ifileOffset c)) cs))
   = sum_list (map (\<lambda>c. 12 + length (ikey c)) cs)"
  by (induction cs) auto

lemma pad_page_eq:
  "pad_page what buf = (if length buf + 2 > pageSize then Inl (GoErr what)
     else Inr (buf @ put_u16 (pageSize - length buf - 2)
       @ replicate (pageSize - length buf - 2) (char_of (0 :: nat))))"
  by (auto simp: pad_page_def Let_def pageSize_def u16_id)

lemma pad_page_length: "pad_page what buf = Inr page \<Longrightarrow> length page = pageSize"
  by (auto simp: pad_page_def Let_def split: if_splits)

definition leaf_body :: "node \<Rightarrow> bytes" where
  "leaf_body n = put_u8 LeafNode @ put_u16 (u16 (slen (offsets n)))
     @ concat (map put_u16 (elems (offsets n)))
     @ concat (map (\<lambda>c. put_u32 (keySize c) @ put_u32 (valSize c) @ lkey c @ lval c) (leaf_live n))"

definition internal_body :: "node \<Rightarrow> bytes" where
  "internal_body n = put_u8 InternalNode @ put_u64 (fileOffset n) @ put_u32 (u32 (slen (offsets n)))
     @ concat (map put_u16 (elems (offsets n)))
     @ concat (map (\<lambda>c. put_u32 (u32 (length (ikey c))) @ ikey c @ put_u64 (ifileOffset c))
         (map (\<lambda>o'. internalCell n ! o') (elems (offsets n))))"

lemma length_leaf_body: "length (leaf_body n) + 2 = leaf_need n"
  by (simp only: leaf_body_def leaf_need_def length_append length_leaf_bytes length_put length_concat_u16)

lemma length_internal_body: "length (internal_body n) + 2 = internal_need n"
  by (simp only: internal_body_def internal_need_def length_append length_internal_bytes length_put
        length_concat_u16) (simp add: int_seps_def comp_def)

lemma encodeLeaf_eq:
  "isLeaf n \<Longrightarrow> offsets_ok n \<Longrightarrow>
   encodeLeaf n = pad_page ''leaf node data size exceeds page size'' (leaf_body n)"
  by (simp add: encodeLeaf_def offsets_ok_def encode_leaf_cells_eq leaf_body_def leaf_live_def)

lemma encodeInternal_eq:
  "\<not> isLeaf n \<Longrightarrow> offsets_ok n \<Longrightarrow>
   encodeInternal n = pad_page ''internal node data size exceeds page size'' (internal_body n)"
  by (simp add: encodeInternal_def offsets_ok_def encode_internal_cells_eq internal_body_def)

section \<open>Round trips\<close>

text \<open>A cell whose recorded sizes are those of its key and value, as every insertion leaves it.\<close>

definition cell_sized :: "leaf_cell \<Rightarrow> bool" where
  "cell_sized c \<longleftrightarrow> keySize c = length (lkey c) \<and> valSize c = length (lval c)
     \<and> length (lkey c) < 2 ^ 32 \<and> length (lval c) < 2 ^ 32"

lemma read_put_u32: "n < 4294967296 \<Longrightarrow> read_uint 4 (put_u32 n @ rest) = Inr (n, rest)"
  by (simp add: put_u32_def read_uint_enc)

lemma read_put_u16: "n < 65536 \<Longrightarrow> read_uint 2 (put_u16 n @ rest) = Inr (n, rest)"
  by (simp add: put_u16_def read_uint_enc)

lemma read_put_u64: "n < 18446744073709551616 \<Longrightarrow> read_uint 8 (put_u64 n @ rest) = Inr (n, rest)"
  by (simp add: put_u64_def read_uint_enc)

lemma read_put_u8: "n < 256 \<Longrightarrow> read_uint (Suc 0) (put_u8 n @ rest) = Inr (n, rest)"
  unfolding put_u8_def One_nat_def by (simp only: read_uint_enc) simp

lemmas read_put = read_put_u8 read_put_u16 read_put_u32 read_put_u64

lemma read_leaf_cell_enc:
  "cell_sized c \<Longrightarrow> read_leaf_cell (put_u32 (keySize c) @ put_u32 (valSize c) @ lkey c @ lval c @ rest)
     = Inr (c, rest)"
  by (simp add: read_leaf_cell_def cell_sized_def read_put)

lemma read_internal_cell_enc:
  "length (ikey c) < 2 ^ 32 \<Longrightarrow> ifileOffset c < 2 ^ 64 \<Longrightarrow>
   read_internal_cell (put_u32 (u32 (length (ikey c))) @ ikey c @ put_u64 (ifileOffset c) @ rest)
     = Inr (c, rest)"
  by (simp add: read_internal_cell_def read_put u32_id)

lemma read_offsets:
  "\<forall>o' \<in> set os. o' < 65536 \<Longrightarrow>
   read_many (length os) (read_uint 2) (concat (map put_u16 os) @ rest) = Inr (os, rest)"
  using read_many_concat [of os "read_uint 2" put_u16 "\<lambda>x. x" rest] by (simp add: read_put)

lemma decode_leaf_body:
  assumes leaf: "isLeaf n"
    and small: "\<forall>o' \<in> set (elems (offsets n)). o' < 65536" "slen (offsets n) < 65536"
    and sized: "\<forall>c \<in> set (leaf_live n). cell_sized c"
  shows "node_decode m (leaf_body n @ rest)
    = Inr (m\<lparr>isLeaf := True, offsets := slice_of (elems (offsets n)), leafCell := leaf_live n\<rparr>)"
proof -
  let ?enc = "\<lambda>c. put_u32 (keySize c) @ put_u32 (valSize c) @ lkey c @ lval c"
  have len: "length (leaf_live n) = slen (offsets n)" by (simp add: leaf_live_def)
  have cells: "read_many (slen (offsets n)) read_leaf_cell (concat (map ?enc (leaf_live n)) @ rest)
      = Inr (leaf_live n, rest)"
    using read_many_concat [of "leaf_live n" read_leaf_cell ?enc "\<lambda>c. c" rest] sized
    by (simp only: len list.map_ident) (simp add: read_leaf_cell_enc)
  show ?thesis
    using small cells
    by (simp add: node_decode_def leaf_body_def decodeLeaf_def LeafNode_def read_put u16_id read_offsets)
qed

lemma decode_internal_body:
  assumes int: "\<not> isLeaf n" and fo: "fileOffset n < 2 ^ 64"
    and small: "\<forall>o' \<in> set (elems (offsets n)). o' < 65536" "slen (offsets n) < 2 ^ 32"
    and sized: "\<forall>o' \<in> set (elems (offsets n)). length (ikey (internalCell n ! o')) < 2 ^ 32
       \<and> ifileOffset (internalCell n ! o') < 2 ^ 64"
  shows "node_decode m (internal_body n @ rest)
    = Inr (m\<lparr>isLeaf := False, fileOffset := fileOffset n, offsets := slice_of (elems (offsets n)),
        internalCell := map (\<lambda>o'. internalCell n ! o') (elems (offsets n))\<rparr>)"
proof -
  let ?enc = "\<lambda>c. put_u32 (u32 (length (ikey c))) @ ikey c @ put_u64 (ifileOffset c)"
  let ?cs = "map (\<lambda>o'. internalCell n ! o') (elems (offsets n))"
  have "read_many (length ?cs) read_internal_cell (concat (map ?enc ?cs) @ rest) = Inr (map (\<lambda>c. c) ?cs, rest)"
    by (rule read_many_concat) (use sized in \<open>auto simp: read_internal_cell_enc\<close>)
  then have cells: "read_many (slen (offsets n)) read_internal_cell (concat (map ?enc ?cs) @ rest)
      = Inr (?cs, rest)"
    by (simp only: length_map list.map_ident)
  show ?thesis
    using small fo cells
    by (simp add: node_decode_def internal_body_def decodeInternal_def LeafNode_def InternalNode_def
          read_put u32_id read_offsets del: map_map)
qed

lemma leaf_need_slen: "2 * slen (offsets n) \<le> leaf_need n"
  by (simp add: leaf_need_def)

lemma internal_need_slen: "2 * slen (offsets n) \<le> internal_need n"
  by (simp add: internal_need_def)

lemma internal_need_key:
  assumes "o' \<in> set (elems (offsets n))"
  shows "length (ikey (internalCell n ! o')) \<le> internal_need n"
proof -
  have "(ikey (internalCell n ! o'), ifileOffset (internalCell n ! o')) \<in> set (int_seps n)"
    using assms by (simp add: int_seps_def)
  then have "12 + length (ikey (internalCell n ! o')) \<le> sum_list (map (\<lambda>(k, fo). 12 + length k) (int_seps n))"
    by (intro member_le_sum_list) force+
  then show ?thesis by (simp add: internal_need_def)
qed

lemma node_encode_eq:
  assumes "offsets_ok n"
  shows "node_encode n = (if isLeaf n
     then pad_page ''leaf node data size exceeds page size'' (leaf_body n)
     else pad_page ''internal node data size exceeds page size'' (internal_body n))"
  using assms by (simp add: node_encode_def encodeLeaf_eq encodeInternal_eq)

text \<open>An offset past the cells makes the encoder panic.\<close>

lemma encode_cells_bad:
  "o' \<in> set os \<Longrightarrow> length (leafCell n) \<le> o' \<Longrightarrow> encode_leaf_cells n os = Inl IndexPanic"
  "o' \<in> set os \<Longrightarrow> length (internalCell n) \<le> o' \<Longrightarrow> encode_internal_cells n os = Inl IndexPanic"
  by (induction os) (auto simp: idx_def)

lemma node_encode_bad: "\<not> offsets_ok n \<Longrightarrow> node_encode n = Inl IndexPanic"
  by (auto simp: node_encode_def encodeLeaf_def encodeInternal_def offsets_ok_def encode_cells_bad not_less split: if_splits)

lemma pad_page_SomeD:
  assumes "pad_page what buf = Inr page"
  shows "length buf + 2 \<le> pageSize" and "\<exists>rest. page = buf @ rest"
  using assms by (auto simp: pad_page_eq split: if_splits)

lemma leaf_page_decode:
  assumes "isLeaf n" and "offsets_ok n" and "length (leafCell n) \<le> 65536"
    and "\<forall>c \<in> set (leaf_live n). cell_sized c" and "node_encode n = Inr page"
  shows "node_decode m page
    = Inr (m\<lparr>isLeaf := True, offsets := slice_of (elems (offsets n)), leafCell := leaf_live n\<rparr>)"
proof -
  from assms(5) have pad: "pad_page ''leaf node data size exceeds page size'' (leaf_body n) = Inr page"
    by (simp add: node_encode_eq [OF assms(2)] assms(1))
  from pad_page_SomeD [OF pad] obtain rest where page: "page = leaf_body n @ rest" by blast
  have "leaf_need n \<le> pageSize" using pad_page_SomeD(1) [OF pad] length_leaf_body [of n] by linarith
  then have "slen (offsets n) < 65536" using leaf_need_slen [of n] by (simp add: pageSize_def)
  moreover have "\<forall>o' \<in> set (elems (offsets n)). o' < 65536"
    using assms(1,2,3) by (auto simp: offsets_ok_def)
  ultimately show ?thesis unfolding page by (rule decode_leaf_body [OF assms(1) _ _ assms(4), rotated])
qed

section \<open>Properties of the page format\<close>

text \<open>
  C29: what encoding a node gives, for every node. When every entry of the offset array is the position of a cell, it
  is exactly one page if the node's cells fit into it, and otherwise the size error, which is no panic. When an
  entry of the offset array points past the cells, and only then, it is the index panic.
\<close>

theorem node_encode_total:
  "(case node_encode n of
      Inr page \<Rightarrow> offsets_ok n \<and> (if isLeaf n then leaf_need n else internal_need n) \<le> pageSize \<and> length page = pageSize
    | Inl e \<Rightarrow> (if offsets_ok n then pageSize < (if isLeaf n then leaf_need n else internal_need n) \<and> \<not> is_panic e
                else e = IndexPanic))"
  using length_leaf_body [of n] length_internal_body [of n]
  by (cases "offsets_ok n") (auto simp: node_encode_eq node_encode_bad pad_page_eq is_panic_def pageSize_def)

definition sample_leaf :: node where
  "sample_leaf = zero_node\<lparr>isLeaf := True, offsets := slice_of [1, 0],
     leafCell := [mk_leafCell ''b'' ''1'', mk_leafCell ''a'' ''2'']\<rparr>"

lemma sample_leaf_simps:
  "isLeaf sample_leaf" "offsets_ok sample_leaf" "length (leafCell sample_leaf) = 2"
  "leaf_live sample_leaf = [mk_leafCell ''a'' ''2'', mk_leafCell ''b'' ''1'']"
  by (simp_all add: sample_leaf_def offsets_ok_def slice_of_def leaf_live_def)

lemma sample_leaf_need: "leaf_need sample_leaf = 29"
  by (simp add: leaf_need_def sample_leaf_simps) (simp add: sample_leaf_def slice_of_def mk_leafCell_def)

text \<open>
  C27: reading a leaf page back gives the reached cells in the order of the offset array, with their
  sizes, keys and values; every other field of the receiving node is kept.
\<close>

theorem leaf_page_roundtrip:
  assumes "isLeaf n" and "offsets_ok n" and "length (leafCell n) \<le> 65536"
    and "\<forall>c \<in> set (leaf_live n). cell_sized c" and "node_encode n = Inr page"
  shows "node_decode m page
    = Inr (m\<lparr>isLeaf := True, offsets := slice_of (elems (offsets n)), leafCell := leaf_live n\<rparr>)"
  using assms by (rule leaf_page_decode)

lemma sample_leaf_page:
  obtains page where "node_encode sample_leaf = Inr page"
  using sample_leaf_need length_leaf_body [of sample_leaf]
  by (auto simp: node_encode_eq sample_leaf_simps pad_page_eq pageSize_def)

lemma sample_leaf_sized: "\<forall>c \<in> set (leaf_live sample_leaf). cell_sized c"
  by (simp add: sample_leaf_simps cell_sized_def mk_leafCell_def u32_id)

theorem leaf_page_roundtrip_witness:
  "\<exists>page m. node_encode sample_leaf = Inr page \<and> node_decode zero_node page = Inr m
     \<and> leafCell m = [mk_leafCell ''a'' ''2'', mk_leafCell ''b'' ''1'']"
proof -
  obtain page where page: "node_encode sample_leaf = Inr page" by (rule sample_leaf_page)
  have "length (leafCell sample_leaf) \<le> 65536" by (simp add: sample_leaf_simps)
  from leaf_page_roundtrip [OF sample_leaf_simps(1,2) this sample_leaf_sized page] page
  show ?thesis by (auto simp: sample_leaf_simps)
qed

text \<open>
  C28: reading an internal page back gives the separators and child offsets in the order of the
  offset array, and the file offset the page was written with.
\<close>

theorem internal_page_roundtrip:
  assumes "\<not> isLeaf n" and "offsets_ok n" and "length (internalCell n) \<le> 65536"
    and "fileOffset n < 2 ^ 64" and "\<forall>c \<in> set (internalCell n). ifileOffset c < 2 ^ 64"
    and "node_encode n = Inr page"
  shows "node_decode m page
    = Inr (m\<lparr>isLeaf := False, fileOffset := fileOffset n, offsets := slice_of (elems (offsets n)),
        internalCell := map (\<lambda>o'. internalCell n ! o') (elems (offsets n))\<rparr>)"
proof -
  from assms(6) have pad: "pad_page ''internal node data size exceeds page size'' (internal_body n) = Inr page"
    by (simp add: node_encode_eq [OF assms(2)] assms(1))
  from pad_page_SomeD [OF pad] obtain rest where page: "page = internal_body n @ rest" by blast
  have need: "internal_need n \<le> pageSize" using pad_page_SomeD(1) [OF pad] length_internal_body [of n] by linarith
  then have "slen (offsets n) < 2 ^ 32" using internal_need_slen [of n] by (simp add: pageSize_def)
  moreover have "\<forall>o' \<in> set (elems (offsets n)). o' < 65536"
    using assms(1,2,3) by (auto simp: offsets_ok_def)
  moreover have "\<forall>o' \<in> set (elems (offsets n)). length (ikey (internalCell n ! o')) < 2 ^ 32
       \<and> ifileOffset (internalCell n ! o') < 2 ^ 64"
    using assms(1,2,5) need internal_need_key [of _ n] by (fastforce simp: offsets_ok_def pageSize_def)
  ultimately show ?thesis unfolding page using decode_internal_body [OF assms(1,4)] by blast
qed

definition sample_internal :: node where
  "sample_internal = zero_node\<lparr>fileOffset := 8192, offsets := slice_of [0, 1],
     internalCell := [\<lparr>ikey = ''a'', ifileOffset = 0\<rparr>, \<lparr>ikey = ''m'', ifileOffset = 4096\<rparr>]\<rparr>"

theorem internal_page_roundtrip_witness:
  "\<exists>page m. node_encode sample_internal = Inr page \<and> node_decode zero_node page = Inr m
     \<and> fileOffset m = 8192 \<and> internalCell m = internalCell sample_internal"
proof -
  have s: "\<not> isLeaf sample_internal" "offsets_ok sample_internal"
    "length (internalCell sample_internal) \<le> 65536" "fileOffset sample_internal < 2 ^ 64"
    "\<forall>c \<in> set (internalCell sample_internal). ifileOffset c < 2 ^ 64"
    by (simp_all add: sample_internal_def offsets_ok_def slice_of_def zero_node_def)
  have "internal_need sample_internal = 45"
    by (simp add: internal_need_def int_seps_def sample_internal_def slice_of_def)
  then obtain page where page: "node_encode sample_internal = Inr page"
    using length_internal_body [of sample_internal] s
    by (auto simp: node_encode_eq pad_page_eq pageSize_def)
  from internal_page_roundtrip [OF s page, of zero_node] page show ?thesis
    by (auto simp: sample_internal_def slice_of_def)
qed

text \<open>
  A leaf that received its keys out of order does not survive its page. The leaf built by
  inserting \<open>b\<close> and then \<open>a\<close> has its keys in order; the page stores the array \<open>[1, 0]\<close> but the
  cells already in key order, so the node read back has its keys in the wrong order.
\<close>

theorem leaf_page_disorder:
  "\<exists>n1 n page m. insertLeafCell (zero_node\<lparr>isLeaf := True\<rparr>) 0 ''b'' ''1'' = Inr n1
     \<and> insertLeafCell n1 0 ''a'' ''2'' = Inr n \<and> leaf_keys n = [''a'', ''b'']
     \<and> node_encode n = Inr page \<and> node_decode zero_node page = Inr m \<and> leaf_keys m = [''b'', ''a'']"
proof -
  let ?n1 = "zero_node\<lparr>isLeaf := True, offsets := slice_of [0], leafCell := [mk_leafCell ''b'' ''1'']\<rparr>"
  have "insertLeafCell (zero_node\<lparr>isLeaf := True\<rparr>) 0 ''b'' ''1'' = Inr ?n1"
    by (simp add: insertLeafCell_def zero_node_def slice_of_def sappend_def u16_def)
  moreover have "insertLeafCell ?n1 0 ''a'' ''2'' = Inr sample_leaf"
    by (simp add: insertLeafCell_def sample_leaf_def zero_node_def slice_of_def sappend_def u16_def
          sinsert_def supto_def sfrom_def sset_def)
  moreover obtain page where page: "node_encode sample_leaf = Inr page" by (rule sample_leaf_page)
  moreover have "node_decode zero_node page
      = Inr (zero_node\<lparr>isLeaf := True, offsets := slice_of [1, 0], leafCell := leaf_live sample_leaf\<rparr>)"
    using leaf_page_decode [OF sample_leaf_simps(1,2) _ sample_leaf_sized page, of zero_node]
    by (simp add: sample_leaf_simps) (simp add: sample_leaf_def slice_of_def)
  moreover have "leaf_keys (zero_node\<lparr>isLeaf := True, offsets := slice_of [1, 0], leafCell := leaf_live sample_leaf\<rparr>)
      = [''b'', ''a'']"
    by (simp add: leaf_live_def [of "zero_node\<lparr>isLeaf := True, offsets := _, leafCell := _\<rparr>"] sample_leaf_simps slice_of_def
          mk_leafCell_def)
  moreover have "leaf_keys sample_leaf = [''a'', ''b'']"
    by (simp add: sample_leaf_simps mk_leafCell_def)
  ultimately show ?thesis
    by (intro exI [of _ ?n1] exI [of _ sample_leaf] exI [of _ page] exI conjI)
qed

text \<open>
  C30: a leaf page that is read back can be written again exactly when the offset array it was written with
  stays within the number of live cells. The page holds the live cells in key order but the old offset
  array; when an entry of that array is not below the number of live cells, as in the left half of a leaf
  that was filled in descending order and then split, encoding the node that was read panics.
\<close>

theorem leaf_page_reencode:
  assumes "isLeaf n" and "offsets_ok n" and "length (leafCell n) \<le> 65536"
    and "\<forall>c \<in> set (leaf_live n). cell_sized c" and "node_encode n = Inr page"
  shows "\<exists>m. node_decode m0 page = Inr m
    \<and> (node_encode m = Inl IndexPanic \<longleftrightarrow> (\<exists>o' \<in> set (elems (offsets n)). slen (offsets n) \<le> o'))"
proof -
  let ?m = "m0\<lparr>isLeaf := True, offsets := slice_of (elems (offsets n)), leafCell := leaf_live n\<rparr>"
  have ok: "offsets_ok ?m \<longleftrightarrow> (\<forall>o' \<in> set (elems (offsets n)). o' < slen (offsets n))"
    by (simp add: offsets_ok_def leaf_live_def slice_of_def)
  have "node_encode ?m \<noteq> Inl IndexPanic" if "offsets_ok ?m"
    by (simp only: node_encode_eq [OF that]) (simp add: pad_page_eq)
  then have "node_encode ?m = Inl IndexPanic \<longleftrightarrow> \<not> offsets_ok ?m" using node_encode_bad [of ?m] by blast
  then show ?thesis using leaf_page_decode [OF assms, of m0] ok by (auto simp: not_less)
qed

definition half_leaf :: node where
  "half_leaf = zero_node\<lparr>isLeaf := True, offsets := slice_of [2, 1],
     leafCell := [mk_leafCell ''c'' ''1'', mk_leafCell ''b'' ''2'', mk_leafCell ''a'' ''3'']\<rparr>"

theorem leaf_page_reencode_witness:
  "\<exists>page m. node_encode half_leaf = Inr page \<and> node_decode zero_node page = Inr m \<and> node_encode m = Inl IndexPanic"
proof -
  have h: "isLeaf half_leaf" "offsets_ok half_leaf" "length (leafCell half_leaf) \<le> 65536" "elems (offsets half_leaf) = [2, 1]"
    and live: "leaf_live half_leaf = [mk_leafCell ''a'' ''3'', mk_leafCell ''b'' ''2'']"
    by (simp_all add: half_leaf_def offsets_ok_def slice_of_def leaf_live_def)
  have sized: "\<forall>c \<in> set (leaf_live half_leaf). cell_sized c" by (simp add: live cell_sized_def mk_leafCell_def u32_id)
  have "leaf_need half_leaf = 29" by (simp add: leaf_need_def live h(4) mk_leafCell_def)
  then obtain page where page: "node_encode half_leaf = Inr page"
    using length_leaf_body [of half_leaf] by (auto simp: node_encode_eq h pad_page_eq pageSize_def)
  from leaf_page_reencode [OF h(1-3) sized page, of zero_node] page show ?thesis by (auto simp: h(4))
qed

end
