(* ===== verification/File_Store.thy ===== *)
theory File_Store
  imports Node_Codec "HOL-Library.AList"
begin

text \<open>
  The page cache and the file store of \<^verbatim>\<open>storage.go\<close>. Nodes are shared by pointer between the
  cache and the tree, so they live in a heap: the list of all nodes the program has allocated, a
  pointer being a position in it. The cache is an association list from file offsets to
  pointers, in the order in which \<^verbatim>\<open>flushPages\<close> happens to range over it (Go leaves that order
  open; the properties hold for every list). Locks and the ticker that calls \<^verbatim>\<open>flushPages\<close> are
  not modelled: each operation is one atomic step.
\<close>

section \<open>State\<close>

record fileStore =
  heap :: "node list"
  disk :: bytes
  pageCache :: "(int \<times> nat) list"
  nextFreeOffset :: nat
  fs_rootOffset :: nat

section \<open>Pointers\<close>

definition deref :: "'a fileStore_scheme \<Rightarrow> nat option \<Rightarrow> node res" where
  "deref b p = (case p of None \<Rightarrow> Inl NilPanic
     | Some a \<Rightarrow> if a < length (heap b) then Inr (heap b ! a) else Inl NilPanic)"

definition store_node :: "'a fileStore_scheme \<Rightarrow> nat \<Rightarrow> node \<Rightarrow> 'a fileStore_scheme" where
  "store_node b a n = b\<lparr>heap := (heap b)[a := n]\<rparr>"

definition alloc :: "'a fileStore_scheme \<Rightarrow> node \<Rightarrow> nat \<times> 'a fileStore_scheme" where
  "alloc b n = (length (heap b), b\<lparr>heap := heap b @ [n]\<rparr>)"

section \<open>The page cache\<close>

definition cache_key :: "nat \<Rightarrow> int" where "cache_key fo = i64 (int fo)"

definition cache_add :: "'a fileStore_scheme \<Rightarrow> nat \<Rightarrow> 'a fileStore_scheme" where
  "cache_add b a = b\<lparr>pageCache := AList.update (cache_key (fileOffset (heap b ! a))) a (pageCache b)\<rparr>"

definition cache_fetch :: "'a fileStore_scheme \<Rightarrow> nat \<Rightarrow> nat option" where
  "cache_fetch b fo = map_of (pageCache b) (cache_key fo)"

definition cache_remove :: "'a fileStore_scheme \<Rightarrow> nat \<Rightarrow> 'a fileStore_scheme" where
  "cache_remove b fo = b\<lparr>pageCache := AList.delete (cache_key fo) (pageCache b)\<rparr>"

definition cache_len :: "'a fileStore_scheme \<Rightarrow> nat" where
  "cache_len b = length (pageCache b)"

definition cache_all :: "'a fileStore_scheme \<Rightarrow> (int \<times> nat) list" where
  "cache_all b = pageCache b"

section \<open>The file store\<close>

text \<open>File access at a converted offset: \<^verbatim>\<open>int64(offset)\<close> may be negative, which is an error.\<close>

definition file_read :: "'a fileStore_scheme \<Rightarrow> nat \<Rightarrow> nat \<Rightarrow> bytes res" where
  "file_read b fo k = (if i64 (int fo) < 0 then Inl (GoErr ''negative offset'')
     else read_at (disk b) (nat (i64 (int fo))) k)"

definition file_write :: "'a fileStore_scheme \<Rightarrow> nat \<Rightarrow> bytes \<Rightarrow> 'a fileStore_scheme res" where
  "file_write b fo bs = (if i64 (int fo) < 0 then Inl (GoErr ''negative offset'')
     else Inr (b\<lparr>disk := write_at (disk b) (nat (i64 (int fo))) bs\<rparr>))"

definition newFileStore :: "bytes \<Rightarrow> fileStore" where
  "newFileStore data =
     (let hdr = (case bindr (read_at data 0 16) (\<lambda>buf. bindr (read_uint 8 buf) (\<lambda>(ro, r1).
                   bindr (read_uint 8 r1) (\<lambda>(nf, r2). Inr (ro, nf)))) of
                 Inl _ \<Rightarrow> (0, 0) | Inr x \<Rightarrow> x)
      in \<lparr>heap = [], disk = data, pageCache = [], nextFreeOffset = snd hdr, fs_rootOffset = fst hdr\<rparr>)"

definition setRoot :: "'a fileStore_scheme \<Rightarrow> node \<Rightarrow> 'a fileStore_scheme" where
  "setRoot b n = b\<lparr>fs_rootOffset := fileOffset n\<rparr>"

definition getRoot :: "'a fileStore_scheme \<Rightarrow> node \<Rightarrow> 'a fileStore_scheme" where
  "getRoot b n = b\<lparr>fs_rootOffset := fileOffset n\<rparr>"

definition fs_update :: "'a fileStore_scheme \<Rightarrow> nat \<Rightarrow> 'a fileStore_scheme res" where
  "fs_update b a =
     bindr (deref b (Some a)) (\<lambda>n.
     bindr (node_encode n) (\<lambda>buf.
     bindr (file_write b (fileOffset n) buf) (\<lambda>b1. Inr (cache_add b1 a))))"

fun flush_loop :: "'a fileStore_scheme \<Rightarrow> (int \<times> nat) list \<Rightarrow> 'a fileStore_scheme res" where
  "flush_loop b [] = Inr b"
| "flush_loop b ((k, a) # rest) =
     bindr (deref b (Some a)) (\<lambda>n.
       if \<not> isDirty n then flush_loop b rest
       else bindr (fs_update b a) (\<lambda>b1. flush_loop (store_node b1 a (markClean n)) rest))"

definition fs_save :: "'a fileStore_scheme \<Rightarrow> 'a fileStore_scheme" where
  "fs_save b = b\<lparr>disk := write_at (disk b) 0 (put_u64 (fs_rootOffset b) @ put_u64 (nextFreeOffset b))\<rparr>"

definition flushPages :: "'a fileStore_scheme \<Rightarrow> 'a fileStore_scheme res" where
  "flushPages b = bindr (flush_loop b (pageCache b)) (\<lambda>b1. Inr (fs_save b1))"

declare deref_def [go_eval] store_node_def [go_eval] alloc_def [go_eval] cache_key_def [go_eval]
  cache_add_def [go_eval] cache_fetch_def [go_eval] file_read_def [go_eval] file_write_def [go_eval]
  newFileStore_def [go_eval] read_at_def [go_eval]

section \<open>Lemmas\<close>

lemma deref_Some [simp]: "a < length (heap b) \<Longrightarrow> deref b (Some a) = Inr (heap b ! a)"
  by (simp add: deref_def)

lemma deref_None [simp]: "deref b None = Inl NilPanic"
  by (simp add: deref_def)

lemma cache_key_id: "fo < 2 ^ 63 \<Longrightarrow> cache_key fo = int fo"
  by (simp add: cache_key_def i64_id in_i64_def)

lemma cache_fetch_update [simp]:
  "cache_fetch (b\<lparr>heap := h\<rparr>) fo = cache_fetch b fo"
  by (simp add: cache_fetch_def)

lemma cache_fetch_add:
  "cache_fetch (cache_add b a) fo =
     (if cache_key fo = cache_key (fileOffset (heap b ! a)) then Some a else cache_fetch b fo)"
  by (simp add: cache_fetch_def cache_add_def update_conv')

lemma store_node_simps [simp]:
  "heap (store_node b a n) = (heap b)[a := n]" "pageCache (store_node b a n) = pageCache b"
  "nextFreeOffset (store_node b a n) = nextFreeOffset b" "fs_rootOffset (store_node b a n) = fs_rootOffset b"
  "disk (store_node b a n) = disk b" "cache_fetch (store_node b a n) fo = cache_fetch b fo"
  by (simp_all add: store_node_def)

text \<open>
  Flushing never changes which page a reopened store takes for the root, and leaves its header.
\<close>

lemma fs_update_frame:
  assumes "fs_update b a = Inr b1"
  shows "fs_rootOffset b1 = fs_rootOffset b" "nextFreeOffset b1 = nextFreeOffset b" "heap b1 = heap b"
  using assms by (auto simp: fs_update_def bindr_Inr_iff file_write_def cache_add_def split: if_splits)

lemma flush_loop_frame:
  assumes "flush_loop b ps = Inr b1"
  shows "fs_rootOffset b1 = fs_rootOffset b \<and> nextFreeOffset b1 = nextFreeOffset b
    \<and> length (heap b1) = length (heap b)"
  using assms
proof (induction b ps rule: flush_loop.induct)
  case (2 b k a rest)
  then obtain n where n: "deref b (Some a) = Inr n" by (auto simp: bindr_Inr_iff)
  show ?case
  proof (cases "isDirty n")
    case False
    with 2 n show ?thesis by simp
  next
    case True
    with 2(3) n obtain b2 where b2: "fs_update b a = Inr b2"
      "flush_loop (store_node b2 a (markClean n)) rest = Inr b1" by (auto simp: bindr_Inr_iff)
    from 2(2) [OF _ b2(2)] True fs_update_frame [OF b2(1)] show ?thesis by simp
  qed
qed simp

lemma save_header:
  assumes "fs_rootOffset b < 2 ^ 64" and "nextFreeOffset b < 2 ^ 64"
  shows "newFileStore (disk (fs_save b))
    = \<lparr>heap = [], disk = disk (fs_save b), pageCache = [], nextFreeOffset = nextFreeOffset b,
       fs_rootOffset = fs_rootOffset b\<rparr>"
proof -
  have "read_at (disk (fs_save b)) 0 16 = Inr (put_u64 (fs_rootOffset b) @ put_u64 (nextFreeOffset b))"
    using read_at_write_at [of "disk b" 0 "put_u64 (fs_rootOffset b) @ put_u64 (nextFreeOffset b)"]
    by (simp add: fs_save_def)
  moreover have "read_uint 8 (put_u64 (nextFreeOffset b)) = Inr (nextFreeOffset b, [])"
    using read_put_u64 [of "nextFreeOffset b" "[]"] assms(2) by simp
  ultimately show ?thesis
    using assms by (simp add: newFileStore_def read_put)
qed

end
