(* ===== verification/BPlus_Tree.thy ===== *)
theory BPlus_Tree
  imports File_Store
begin

text \<open>
  The B+ tree of \<^verbatim>\<open>btree.go\<close>: the record that embeds the file store, opening a tree, page
  access, the metadata file, and the recursive \<^verbatim>\<open>put\<close> and \<^verbatim>\<open>get\<close>. The recursions follow page
  offsets, which a damaged file could make cyclic, so they are partial functions: \<open>None\<close> stands
  for a call that does not return.
\<close>

section \<open>State\<close>

record btree = fileStore +
  root :: "nat option"
  rootOffset :: nat
  meta :: bytes

section \<open>Metadata\<close>

definition readMeta :: "'a btree_scheme \<Rightarrow> (int \<times> int) res" where
  "readMeta b =
     (case read_i64 (meta b) of
        Inl EOF \<Rightarrow> Inr (0, 0)
      | Inl e \<Rightarrow> Inl (PanicMsg ''readMeta: read last commit'')
      | Inr (lastCmt, rest) \<Rightarrow>
          (case read_i64 rest of
             Inl EOF \<Rightarrow> Inr (lastCmt, 0)
           | Inl e \<Rightarrow> Inl (PanicMsg ''readMeta: read last applied'')
           | Inr (lastApp, rest') \<Rightarrow> Inr (lastCmt, lastApp)))"

definition updateMeta :: "'a btree_scheme \<Rightarrow> int \<Rightarrow> int \<Rightarrow> 'a btree_scheme" where
  "updateMeta b lastApplied lastCommitIndex =
     b\<lparr>meta := write_at (meta b) 0 (put_i64 lastCommitIndex @ put_i64 lastApplied)\<rparr>"

section \<open>Pages\<close>

definition loadPage :: "'a btree_scheme \<Rightarrow> nat \<Rightarrow> (nat \<times> 'a btree_scheme) res" where
  "loadPage b ofs =
     (case file_read b ofs pageSize of
        Inl e \<Rightarrow> Inl (GoErr ''read page'')
      | Inr buf \<Rightarrow>
          (case node_decode (zero_node\<lparr>fileOffset := ofs\<rparr>) buf of
             Inl e \<Rightarrow> Inl (GoErr ''decode page'')
           | Inr n \<Rightarrow>
               let (a, b1) = alloc b n
               in Inr (a, b1\<lparr>pageCache := AList.update (cache_key ofs) a (pageCache b1)\<rparr>)))"

definition btree_add :: "'a btree_scheme \<Rightarrow> nat \<Rightarrow> 'a btree_scheme" where
  "btree_add b a =
     (let b1 = store_node b a (setFileOffsetForNode (heap b ! a) (nextFreeOffset b));
          b2 = cache_add b1 a
      in b2\<lparr>nextFreeOffset := u64 (nextFreeOffset b2 + pageSize)\<rparr>)"

definition btree_fetch :: "'a btree_scheme \<Rightarrow> nat \<Rightarrow> (nat \<times> 'a btree_scheme) res" where
  "btree_fetch b fo =
     (case cache_fetch b fo of
        Some a \<Rightarrow> Inr (a, b)
      | None \<Rightarrow>
          (case file_read b fo 4096 of
             Inl e \<Rightarrow> Inl (PanicMsg ''fetch: read'')
           | Inr paged \<Rightarrow>
               (case node_decode zero_node paged of
                  Inl e \<Rightarrow> Inl (PanicMsg ''fetch: decode'')
                | Inr n \<Rightarrow> let (a, b1) = alloc b (n\<lparr>fileOffset := fo\<rparr>) in Inr (a, cache_add b1 a))))"

definition getRootPage :: "'a btree_scheme \<Rightarrow> nat option" where
  "getRootPage b = root b"

definition setRootPage :: "'a btree_scheme \<Rightarrow> nat \<Rightarrow> 'a btree_scheme" where
  "setRootPage b a =
     (let b1 = btree_add b a in b1\<lparr>root := Some a, rootOffset := fileOffset (heap b1 ! a)\<rparr>)"

text \<open>Opening a tree on the bytes of its page file and of its metadata file.\<close>

definition NewBTreeWithPath :: "bytes \<Rightarrow> bytes \<Rightarrow> btree res" where
  "NewBTreeWithPath data metaData =
     (let f = newFileStore data;
          b = fileStore.extend f \<lparr>root = None, rootOffset = 0, meta = metaData\<rparr>
      in if fs_rootOffset f > 0 then
           (case loadPage b (fs_rootOffset f) of
              Inl e \<Rightarrow> Inl (PanicMsg ''load root page'')
            | Inr (a, b1) \<Rightarrow> Inr (b1\<lparr>root := Some a, rootOffset := fs_rootOffset f\<rparr>))
         else let (a, b1) = alloc b (zero_node\<lparr>isLeaf := True\<rparr>) in Inr (setRootPage b1 a))"

text \<open>\<open>files\<close> are the contents of the files by path; a file that does not exist is empty.\<close>

definition NewBTree :: "(string \<Rightarrow> bytes) \<Rightarrow> btree res" where
  "NewBTree files = NewBTreeWithPath (files ''harmony.db'') (files ''harmony.db.meta'')"

section \<open>Lookup\<close>

partial_function (option) btree_get ::
  "'a btree_scheme \<Rightarrow> nat option \<Rightarrow> bytes \<Rightarrow> ('a btree_scheme \<times> bytes) res option" where [code]:
  "btree_get b next' key =
     (case deref b next' of
        Inl e \<Rightarrow> Some (Inl e)
      | Inr n \<Rightarrow>
          if isLeaf n then
            Some (case findLeafCell n key of
                    None \<Rightarrow> Inl (GoErr ''key not found'')
                  | Some i \<Rightarrow> Inr (b, lval (leafCell n ! i)))
          else
            (case bindr (findChildPage n key) (\<lambda>ofs. bindr (idx (internalCell n) ofs) (\<lambda>c.
                    btree_fetch b (ifileOffset c))) of
               Inl e \<Rightarrow> Some (Inl e)
             | Inr (a, b1) \<Rightarrow> btree_get b1 (Some a) key))"

definition btree_Get :: "'a btree_scheme \<Rightarrow> bytes \<Rightarrow> ('a btree_scheme \<times> bytes) res option" where
  "btree_Get b key = btree_get b (getRootPage b) key"

section \<open>Insertion\<close>

text \<open>
  \<open>link_sibling\<close> is the tail of \<^verbatim>\<open>insertLeaf\<close> that makes the new page reachable, either through
  a new root or through the parent; \<open>link_internal\<close> is the one of \<^verbatim>\<open>insertInternal\<close>.
\<close>

definition link_sibling ::
  "'a btree_scheme \<Rightarrow> nat option \<Rightarrow> node \<Rightarrow> nat \<Rightarrow> bytes \<Rightarrow> 'a btree_scheme res" where
  "link_sibling b parent cur newfo sep =
     (case parent of
        None \<Rightarrow>
          bindr (idx (elems (offsets cur)) 0) (\<lambda>o0.
          bindr (idx (leafCell cur) o0) (\<lambda>c0.
            let parentPg = appendInternalCell (appendInternalCell zero_node (fileOffset cur) (lkey c0))
                  newfo sep;
                (pa, b1) = alloc b parentPg
            in Inr (setRootPage b1 pa)))
      | Some p \<Rightarrow>
          bindr (deref b (Some p)) (\<lambda>pn.
          bindr (findInsPointForKey pn sep) (\<lambda>of'.
            if of' = u16 (slen (offsets pn))
            then Inr (store_node b p (appendInternalCell pn newfo sep))
            else bindr (insertInternalCell pn of' newfo sep) (\<lambda>pn'. Inr (store_node b p pn')))))"

definition insertLeaf ::
  "'a btree_scheme \<Rightarrow> nat option \<Rightarrow> nat \<Rightarrow> bytes \<Rightarrow> bytes \<Rightarrow> 'a btree_scheme res" where
  "insertLeaf b parent cur key value =
     bindr (deref b (Some cur)) (\<lambda>n.
       case findLeafCell n key of
         Some i \<Rightarrow>
           Inr (store_node b cur (markDirty (n\<lparr>leafCell := (leafCell n)[i :=
             (leafCell n ! i)\<lparr>lval := value, valSize := u32 (length value)\<rparr>]\<rparr>)))
       | None \<Rightarrow>
           bindr (findInsPointForKey n key) (\<lambda>ofs.
           bindr (insertLeafCell n ofs key value) (\<lambda>n1.
             let n2 = markDirty n1; b1 = store_node b cur n2
             in if \<not> isFull n2 then Inr b1
                else
                  bindr (node_split n2 zero_node) (\<lambda>(n3, newpg, sep).
                    let b2 = store_node b1 cur n3;
                        (na, b3) = alloc b2 newpg;
                        b4 = btree_add b3 na
                    in bindr (link_sibling b4 parent n3 (fileOffset (heap b4 ! na)) sep) (\<lambda>b5.
                       bindr (deref b5 (Some cur)) (\<lambda>n4.
                         Inr (store_node b5 cur (markDirty n4))))))))"

definition link_internal :: "'a btree_scheme \<Rightarrow> nat option \<Rightarrow> nat \<Rightarrow> 'a btree_scheme res" where
  "link_internal b parent cur =
     bindr (deref b (Some cur)) (\<lambda>n.
       if \<not> isFull n then Inr b
       else
         bindr (node_split n zero_node) (\<lambda>(n1, newpg, sep).
           let b1 = store_node b cur n1;
               (na, b2) = alloc b1 newpg;
               b3 = btree_add b2 na
           in bindr (findInsPointForKey (heap b3 ! na) sep) (\<lambda>of'.
              bindr (deref b3 parent) (\<lambda>pn.
                let newfo = fileOffset (heap b3 ! na); p = the parent
                in if of' = u16 (slen (offsets pn))
                   then Inr (store_node b3 p (appendInternalCell pn newfo sep))
                   else bindr (insertInternalCell pn of' newfo sep) (\<lambda>pn'.
                          Inr (store_node b3 p pn'))))))"

partial_function (option) insertInternal ::
  "'a btree_scheme \<Rightarrow> nat option \<Rightarrow> nat \<Rightarrow> bytes \<Rightarrow> bytes \<Rightarrow> 'a btree_scheme res option" where [code]:
  "insertInternal b parent cur key value =
     (case bindr (deref b (Some cur)) (\<lambda>n. bindr (findChildPage n key) (\<lambda>ofs.
             bindr (idx (internalCell n) ofs) (\<lambda>c. Inr (cache_fetch b (ifileOffset c))))) of
        Inl e \<Rightarrow> Some (Inl e)
      | Inr child \<Rightarrow>
          (case deref b child of
             Inl e \<Rightarrow> Some (Inl e)
           | Inr cn \<Rightarrow>
               Option.bind
                 (if isLeaf cn then Some (insertLeaf b (Some cur) (the child) key value)
                  else insertInternal b (Some cur) (the child) key value)
                 (\<lambda>r. Some (bindr r (\<lambda>b1. link_internal b1 parent cur)))))"

definition put :: "'a btree_scheme \<Rightarrow> bytes \<Rightarrow> bytes \<Rightarrow> 'a btree_scheme res option" where
  "put b key value =
     (case deref b (getRootPage b) of
        Inl e \<Rightarrow> Some (Inl e)
      | Inr pg \<Rightarrow>
          let a = the (getRootPage b)
          in if isLeaf pg then Some (insertLeaf b None a key value)
             else insertInternal b None a key value)"

text \<open>A sequence of insertions, stopping at the first that fails or does not return.\<close>

fun puts :: "'a btree_scheme \<Rightarrow> (bytes \<times> bytes) list \<Rightarrow> 'a btree_scheme res option" where
  "puts b [] = Some (Inr b)"
| "puts b ((k, v) # kvs) =
     (case put b k v of None \<Rightarrow> None | Some (Inl e) \<Rightarrow> Some (Inl e) | Some (Inr b1) \<Rightarrow> puts b1 kvs)"

lemma store_node_btree [simp]:
  "root (store_node b a n) = root b" "rootOffset (store_node b a n) = rootOffset b"
  "meta (store_node b a n) = meta b"
  by (simp_all add: store_node_def)

declare loadPage_def [go_eval] btree_add_def [go_eval] btree_fetch_def [go_eval]
  getRootPage_def [go_eval] setRootPage_def [go_eval] NewBTreeWithPath_def [go_eval]
  fileStore.extend_def [go_eval] btree_get.simps [go_eval] btree_Get_def [go_eval]
  link_sibling_def [go_eval] insertLeaf_def [go_eval] link_internal_def [go_eval]
  insertInternal.simps [go_eval] put_def [go_eval]

end
