(* ===== verification/Leaf_Ops.thy ===== *)
theory Leaf_Ops
  imports Tree_Node
begin

text \<open>
  One leaf of the tree as a finite map. A leaf serves the keys from a lower bound \<open>lo\<close> up to an
  optional upper bound \<open>hi\<close>; \<open>leaf_inv\<close> states what the insertions keep true of it, and the
  lemmas give the map after an insertion and the two maps after a split.
\<close>

section \<open>Leaves as maps\<close>

definition leaf_lookup :: "node \<Rightarrow> bytes \<Rightarrow> bytes option" where
  "leaf_lookup n key = map_option (\<lambda>i. lval (leafCell n ! i)) (findLeafCell n key)"

definition below :: "bytes option \<Rightarrow> bytes \<Rightarrow> bool" where
  "below hi k = (case hi of None \<Rightarrow> True | Some h \<Rightarrow> k < h)"

definition leaf_inv :: "bytes \<Rightarrow> bytes option \<Rightarrow> node \<Rightarrow> bool" where
  "leaf_inv lo hi n \<longleftrightarrow> leaf_shape n \<and> leaf_sorted n \<and> slen (offsets n) \<le> maxLeafNodeCells
     \<and> (\<forall>k \<in> set (leaf_keys n). lo \<le> k \<and> below hi k)
     \<and> (\<forall>i < length (leafCell n). below hi (lkey (leafCell n ! i)) \<longrightarrow> i \<in> set (elems (offsets n)))"

lemma leaf_invD:
  assumes "leaf_inv lo hi n"
  shows "leaf_shape n" "leaf_sorted n" "isLeaf n" "offsets_ok n" "slen (offsets n) \<le> 9"
    "sorted_wrt (<) (leaf_keys n)" "distinct (map lkey (leafCell n))"
  using assms
  by (auto simp: leaf_inv_def leaf_shape_def leaf_sorted_def offsets_ok_def maxLeafNodeCells_def)

lemma leaf_inv_range: "leaf_inv lo hi n \<Longrightarrow> \<forall>k \<in> set (leaf_keys n). lo \<le> k \<and> below hi k"
  by (simp add: leaf_inv_def)

lemma leaf_inv_mono:
  assumes "leaf_inv lo hi n" and "\<forall>k \<in> set (leaf_keys n). lo' \<le> k"
  shows "leaf_inv lo' hi n"
  using assms by (auto simp: leaf_inv_def)

lemma leaf_inv_dirty [simp]:
  "leaf_inv lo hi (n\<lparr>isDirty := d\<rparr>) = leaf_inv lo hi n"
  "leaf_inv lo hi (n\<lparr>fileOffset := fo\<rparr>) = leaf_inv lo hi n"
  by (simp_all add: leaf_inv_def leaf_shape_def leaf_sorted_def leaf_live_def)

lemma leaf_lookup_dirty [simp]:
  "leaf_lookup (n\<lparr>isDirty := d\<rparr>) = leaf_lookup n"
  "leaf_lookup (n\<lparr>fileOffset := fo\<rparr>) = leaf_lookup n"
  "leaf_lookup (n\<lparr>offsets := os\<rparr>) = leaf_lookup n"
  by (simp_all add: leaf_lookup_def findLeafCell_def fun_eq_iff)

lemma leaf_lookup_iff:
  assumes "distinct (map lkey (leafCell n))"
  shows "leaf_lookup n k = Some v \<longleftrightarrow> (\<exists>c \<in> set (leafCell n). lkey c = k \<and> lval c = v)"
proof
  assume "leaf_lookup n k = Some v"
  then show "\<exists>c \<in> set (leafCell n). lkey c = k \<and> lval c = v"
    by (auto simp: leaf_lookup_def findLeafCell_def dest!: find_cell_Some)
next
  assume "\<exists>c \<in> set (leafCell n). lkey c = k \<and> lval c = v"
  then obtain i where "i < length (leafCell n)" "lkey (leafCell n ! i) = k" "lval (leafCell n ! i) = v"
    by (auto simp: in_set_conv_nth)
  then show "leaf_lookup n k = Some v"
    using find_cell_distinct [OF assms, of i] by (simp add: leaf_lookup_def findLeafCell_def)
qed

lemma set_leaf_live: "leaf_shape n \<Longrightarrow> set (leaf_live n) \<subseteq> set (leafCell n)"
  by (auto simp: leaf_live_def leaf_shape_def)

section \<open>Updating a value in place\<close>

lemma leaf_update_inv:
  fixes v :: bytes and s :: nat
  assumes inv: "leaf_inv lo hi n" and i: "findLeafCell n key = Some i"
  defines "n' \<equiv> n\<lparr>leafCell := (leafCell n)[i := (leafCell n ! i)\<lparr>lval := v, valSize := s\<rparr>]\<rparr>"
  shows "leaf_inv lo hi n'" and "leaf_lookup n' = (leaf_lookup n)(key \<mapsto> v)"
proof -
  have i': "i < length (leafCell n)" "lkey (leafCell n ! i) = key"
    using find_cell_Some [of "leafCell n" key i] i by (auto simp: findLeafCell_def)
  have key_at: "lkey (leafCell n' ! j) = lkey (leafCell n ! j)" if "j < length (leafCell n)" for j
    using i' that by (simp add: n'_def nth_list_update)
  have keys: "map lkey (leafCell n') = map lkey (leafCell n)"
    using i' by (auto intro!: nth_equalityI simp: n'_def key_at [unfolded n'_def] nth_list_update)
  have live: "leaf_keys n' = leaf_keys n"
    using leaf_invD(1) [OF inv] key_at by (auto simp: leaf_live_def leaf_shape_def n'_def)
  show "leaf_inv lo hi n'"
    using inv keys live key_at
    by (auto simp: leaf_inv_def leaf_sorted_def leaf_shape_def n'_def)
  show "leaf_lookup n' = (leaf_lookup n)(key \<mapsto> v)"
  proof
    fix k
    have "findLeafCell n' k = findLeafCell n k"
      using i' by (simp add: findLeafCell_def n'_def find_cell_update)
    then show "leaf_lookup n' k = ((leaf_lookup n)(key \<mapsto> v)) k"
      using i i' find_cell_Some [of "leafCell n" k]
      by (cases "find_cell (leafCell n) k")
         (auto simp: leaf_lookup_def n'_def nth_list_update findLeafCell_def)
  qed
qed

section \<open>Inserting a new key\<close>

lemma insert_key_position:
  assumes "sorted_wrt (<) ks" and "key \<notin> set ks"
  defines "p \<equiv> ins_point ks key"
  shows "p \<le> length ks" and "sorted_wrt (<) (take p ks @ key # drop p ks)"
proof -
  let ?a = "takeWhile (\<lambda>k. k < key) ks" and ?b = "dropWhile (\<lambda>k. k < key) ks"
  have a: "take p ks = ?a" by (simp add: p_def ins_point_def takeWhile_eq_take [symmetric])
  have b: "drop p ks = ?b" by (simp add: p_def ins_point_def dropWhile_eq_drop [symmetric])
  show "p \<le> length ks" by (simp add: p_def ins_point_def length_takeWhile_le)
  have split: "ks = ?a @ ?b" by simp
  have lt: "\<forall>k \<in> set ?a. k < key" by (auto dest: set_takeWhileD)
  have sb: "sorted_wrt (<) ?b" "sorted_wrt (<) ?a" "\<forall>x \<in> set ?a. \<forall>y \<in> set ?b. x < y"
    using assms(1) split by (metis sorted_wrt_append)+
  have gt: "\<forall>k \<in> set ?b. key < k"
  proof (cases ?b)
    case (Cons y ys)
    then have "\<not> y < key" by (metis hd_dropWhile list.distinct(1) list.sel(1))
    moreover have "y \<noteq> key" using assms(2) Cons by (metis set_dropWhileD list.set_intros(1))
    ultimately have "key < y" by simp
    with sb(1) Cons show ?thesis by (auto intro: less_trans)
  next
    case Nil
    then show ?thesis unfolding Nil by simp
  qed
  show "sorted_wrt (<) (take p ks @ key # drop p ks)"
    unfolding a b sorted_wrt_append sorted_wrt.simps list.set using sb lt gt by blast
qed

lemma leaf_insert_new:
  assumes inv: "leaf_inv lo hi n" and absent: "findLeafCell n key = None"
    and room: "slen (offsets n) < maxLeafNodeCells" and small: "length (leafCell n) < 65536"
    and range: "lo \<le> key" "below hi key"
  shows "\<exists>n'. bindr (findInsPointForKey n key) (\<lambda>ofs. insertLeafCell n ofs key v) = Inr n'
    \<and> leaf_inv lo hi n' \<and> leaf_lookup n' = (leaf_lookup n)(key \<mapsto> v)
    \<and> slen (offsets n') = Suc (slen (offsets n)) \<and> length (leafCell n') = Suc (length (leafCell n))
    \<and> fileOffset n' = fileOffset n"
proof -
  note D = leaf_invD [OF inv]
  define p where "p = ins_point (leaf_keys n) key"
  have nokey: "key \<notin> lkey ` set (leafCell n)" using absent by (simp add: findLeafCell_def find_cell_None)
  then have notin: "key \<notin> set (leaf_keys n)" using set_leaf_live [OF D(1)] by auto
  have pos: "findInsPointForKey n key = Inr p"
    using findInsPointForKey_correct [OF D(4), of key] D(3,5,6) by (simp add: node_keys_leaf p_def)
  have p: "p \<le> slen (offsets n)"
    using insert_key_position(1) [OF D(6) notin] by (simp add: p_def leaf_live_def)
  obtain sp where ins: "insertLeafCell n p key v =
    Inr (n\<lparr>offsets := \<lparr>elems = take p (elems (offsets n)) @ length (leafCell n) # drop p (elems (offsets n)),
              spare = sp\<rparr>, leafCell := leafCell n @ [mk_leafCell key v]\<rparr>)"
    and sp: "length sp = length (spare (offsets n)) - 1"
    using insertLeafCell_correct [OF D(1) p room small] by blast
  define n' where "n' = n\<lparr>offsets := \<lparr>elems = take p (elems (offsets n)) @ length (leafCell n) # drop p (elems (offsets n)),
              spare = sp\<rparr>, leafCell := leafCell n @ [mk_leafCell key v]\<rparr>"
  have offs: "\<forall>o' \<in> set (elems (offsets n)). o' < length (leafCell n)" using D(1) by (simp add: leaf_shape_def)
  have set_offs: "set (elems (offsets n')) = insert (length (leafCell n)) (set (elems (offsets n)))"
    by (simp add: n'_def) (metis append_take_drop_id set_append)
  have keys: "leaf_keys n' = take p (leaf_keys n) @ key # drop p (leaf_keys n)"
    using offs by (auto simp: n'_def leaf_live_def nth_append mk_leafCell_def take_map drop_map
        dest: in_set_takeD in_set_dropD)
  have sorted: "sorted_wrt (<) (leaf_keys n')"
    unfolding keys p_def by (rule insert_key_position(2) [OF D(6) notin])
  have kset: "set (leaf_keys n') = insert key (set (leaf_keys n))"
    unfolding keys by (metis append_take_drop_id set_append set_simps(2) Un_insert_right)
  have len: "slen (offsets n') = Suc (slen (offsets n))" using p by (simp add: n'_def)
  have cells: "leafCell n' = leafCell n @ [mk_leafCell key v]" by (simp add: n'_def)
  have "leaf_shape n'"
    using D(1) sp len cells set_offs room unfolding leaf_shape_def
    by (auto simp: n'_def maxLeafNodeCells_def)
  moreover have "leaf_sorted n'"
    using D(7) nokey sorted cells by (auto simp: leaf_sorted_def mk_leafCell_def)
  moreover have "\<forall>i < length (leafCell n'). below hi (lkey (leafCell n' ! i)) \<longrightarrow> i \<in> set (elems (offsets n'))"
    using inv cells set_offs by (auto simp: leaf_inv_def nth_append less_Suc_eq)
  moreover have "\<forall>k \<in> set (leaf_keys n'). lo \<le> k \<and> below hi k"
    using inv kset range unfolding leaf_inv_def by auto
  ultimately have "leaf_inv lo hi n'" using len room by (simp add: leaf_inv_def)
  moreover have "leaf_lookup n' = (leaf_lookup n)(key \<mapsto> v)"
    using absent find_cell_Some [of "leafCell n"]
    by (auto simp: fun_eq_iff leaf_lookup_def findLeafCell_def cells find_cell_append nth_append
        mk_leafCell_def split: option.splits)
  ultimately show ?thesis
    using pos ins len cells by (simp add: n'_def [symmetric]) (simp add: n'_def)
qed

section \<open>Splitting a full leaf\<close>

lemma option_eqI: "(\<And>v. x = Some v \<longleftrightarrow> y = Some v) \<Longrightarrow> x = y"
  by (metis not_Some_eq)

lemma sorted_split:
  assumes "sorted_wrt (<) (ks :: bytes list)" and "m < length ks"
  shows "\<forall>k \<in> set (take m ks). k < ks ! m" and "\<forall>k \<in> set (drop m ks). ks ! m \<le> k"
proof -
  show "\<forall>k \<in> set (take m ks). k < ks ! m"
    using assms by (auto simp: in_set_conv_nth sorted_wrt_nth_less)
  show "\<forall>k \<in> set (drop m ks). ks ! m \<le> k"
  proof
    fix k assume "k \<in> set (drop m ks)"
    then have "\<exists>j. m + j < length ks \<and> k = ks ! (m + j)"
      by (auto simp: in_set_conv_nth less_diff_conv add.commute)
    then obtain j where "m + j < length ks" "k = ks ! (m + j)" by blast
    then show "ks ! m \<le> k"
      using sorted_wrt_nth_less [OF assms(1), of m "m + j"] by (cases j) auto
  qed
qed

lemma split_upper_inv:
  assumes inv: "leaf_inv lo hi n" and m: "m < slen (offsets n)"
  defines "pg \<equiv> zero_node\<lparr>isLeaf := True, offsets := slice_of [0..<slen (offsets n) - m],
              leafCell := map recell (drop m (leaf_live n))\<rparr>"
    and "sep \<equiv> leaf_keys n ! m"
  shows "leaf_inv sep hi pg"
    and "\<And>k. sep \<le> k \<Longrightarrow> below hi k \<Longrightarrow> leaf_lookup pg k = leaf_lookup n k"
proof -
  note D = leaf_invD [OF inv]
  have len: "length (leaf_live n) = slen (offsets n)" by (simp add: leaf_live_def)
  have live: "leaf_live pg = map recell (drop m (leaf_live n))"
    using len by (auto intro!: nth_equalityI simp: leaf_live_def [of pg]) (simp_all add: pg_def slice_of_def)
  have keys: "leaf_keys pg = drop m (leaf_keys n)"
    by (simp add: live mk_leafCell_def drop_map comp_def)
  have cells: "leafCell pg = map recell (drop m (leaf_live n))" by (simp add: pg_def)
  have sorted: "sorted_wrt (<) (drop m (leaf_keys n))" using D(6) by (simp add: sorted_wrt_drop)
  have ckeys: "map lkey (leafCell pg) = drop m (leaf_keys n)"
    by (simp add: cells mk_leafCell_def drop_map comp_def)
  have "distinct (map lkey (leafCell pg))"
    using sorted ckeys by (simp add: strict_sorted_iff)
  note dist = this
  show "leaf_inv sep hi pg"
  proof -
    have "leaf_shape pg" using len by (simp add: leaf_shape_def pg_def slice_of_def)
    moreover have "leaf_sorted pg" using sorted keys dist by (simp add: leaf_sorted_def)
    moreover have "\<forall>k \<in> set (leaf_keys pg). sep \<le> k \<and> below hi k"
      using sorted_split(2) [OF D(6), of m] m len leaf_inv_range [OF inv] set_drop_subset [of m "leaf_keys n"]
      unfolding keys sep_def by (simp del: set_map) blast
    ultimately show ?thesis
      using D(5) len by (simp add: leaf_inv_def pg_def slice_of_def maxLeafNodeCells_def)
  qed
  fix k assume k: "sep \<le> k" "below hi k"
  have "(\<exists>c \<in> set (leafCell pg). lkey c = k \<and> lval c = v)
      \<longleftrightarrow> (\<exists>c \<in> set (leafCell n). lkey c = k \<and> lval c = v)" for v
  proof
    assume "\<exists>c \<in> set (leafCell pg). lkey c = k \<and> lval c = v"
    then show "\<exists>c \<in> set (leafCell n). lkey c = k \<and> lval c = v"
      using set_leaf_live [OF D(1)] by (force simp: cells mk_leafCell_def dest: in_set_dropD)
  next
    assume "\<exists>c \<in> set (leafCell n). lkey c = k \<and> lval c = v"
    then obtain i where i: "i < length (leafCell n)" "lkey (leafCell n ! i) = k" "lval (leafCell n ! i) = v"
      by (auto simp: in_set_conv_nth)
    then have "i \<in> set (elems (offsets n))" using inv k(2) by (auto simp: leaf_inv_def)
    then obtain j where j: "j < slen (offsets n)" "leaf_live n ! j = leafCell n ! i"
      by (auto simp: leaf_live_def in_set_conv_nth)
    have "m \<le> j"
    proof (rule ccontr)
      assume "\<not> m \<le> j"
      then have "leaf_keys n ! j < leaf_keys n ! m"
        using sorted_wrt_nth_less [OF D(6), of j m] m len by simp
      then show False using j i k(1) len by (simp add: sep_def)
    qed
    then have "leaf_live n ! j \<in> set (drop m (leaf_live n))"
      using j len by (auto simp: in_set_conv_nth intro!: exI [of _ "j - m"])
    then show "\<exists>c \<in> set (leafCell pg). lkey c = k \<and> lval c = v"
      using j i by (force simp: cells mk_leafCell_def)
  qed
  then show "leaf_lookup pg k = leaf_lookup n k"
    by (intro option_eqI) (simp add: leaf_lookup_iff [OF dist] leaf_lookup_iff [OF D(7)])
qed

lemma split_lower_inv:
  assumes inv: "leaf_inv lo hi n" and m: "m < slen (offsets n)" and full: "maxLeafNodeCells \<le> slen (offsets n)"
  defines "n' \<equiv> n\<lparr>offsets := \<lparr>elems = take m (elems (offsets n)),
              spare = drop m (elems (offsets n)) @ spare (offsets n)\<rparr>\<rparr>"
    and "sep \<equiv> leaf_keys n ! m"
  shows "leaf_inv lo (Some sep) n'"
proof -
  note D = leaf_invD [OF inv]
  have len: "length (leaf_live n) = slen (offsets n)" by (simp add: leaf_live_def)
  have keys: "leaf_keys n' = take m (leaf_keys n)" by (simp add: leaf_live_def n'_def take_map)
  have sep: "below hi sep" using inv m len by (simp add: leaf_inv_def sep_def)
  have "i \<in> set (take m (elems (offsets n)))"
    if i: "i < length (leafCell n)" "lkey (leafCell n ! i) < sep" for i
  proof -
    have "below hi (lkey (leafCell n ! i))" using i(2) sep by (auto simp: below_def split: option.splits)
    then have "i \<in> set (elems (offsets n))" using inv i(1) by (simp add: leaf_inv_def)
    then obtain j where j: "j < slen (offsets n)" "elems (offsets n) ! j = i"
      by (auto simp: in_set_conv_nth)
    have "j < m"
    proof (rule ccontr)
      assume "\<not> j < m"
      then have "leaf_keys n ! m \<le> leaf_keys n ! j"
        using sorted_wrt_nth_less [OF D(6), of m j] j len by (cases "j = m") auto
      then show False using i(2) j by (simp add: sep_def leaf_live_def)
    qed
    then show ?thesis using j by (auto simp: in_set_conv_nth)
  qed
  moreover have "leaf_shape n'"
    using D(1) m full by (auto simp: leaf_shape_def n'_def maxLeafNodeCells_def dest: in_set_takeD)
  moreover have "leaf_sorted n'"
    using D(6,7) keys by (simp add: leaf_sorted_def sorted_wrt_take) (simp add: n'_def)
  moreover have "\<forall>k \<in> set (leaf_keys n'). lo \<le> k \<and> k < sep"
    using sorted_split(1) [OF D(6), of m] m len leaf_inv_range [OF inv] set_take_subset [of m "leaf_keys n"]
    unfolding keys sep_def by (simp del: set_map) blast
  ultimately show ?thesis
    using D(5) m unfolding leaf_inv_def below_def by (auto simp: n'_def maxLeafNodeCells_def)
qed

lemma leaf_split:
  assumes inv: "leaf_inv lo hi n" and full: "slen (offsets n) = maxLeafNodeCells"
  shows "\<exists>n' pg sep. node_split n zero_node = Inr (n', pg, sep)
    \<and> leaf_inv lo (Some sep) n' \<and> leaf_inv sep hi pg \<and> lo < sep \<and> below hi sep
    \<and> slen (offsets n') = 4 \<and> slen (offsets pg) = 5 \<and> length (leafCell pg) = 5
    \<and> leafCell n' = leafCell n \<and> leaf_lookup n' = leaf_lookup n \<and> fileOffset n' = fileOffset n
    \<and> (\<forall>k. sep \<le> k \<longrightarrow> below hi k \<longrightarrow> leaf_lookup pg k = leaf_lookup n k)"
proof -
  note D = leaf_invD [OF inv]
  have len: "length (leaf_live n) = slen (offsets n)" by (simp add: leaf_live_def)
  have nine: "slen (offsets n) = 9" using full by (simp add: maxLeafNodeCells_def)
  have m: "4 < slen (offsets n)" "slen (offsets n) div 2 = 4" using nine by simp_all
  have "leaf_keys n ! 0 < leaf_keys n ! 4"
    using sorted_wrt_nth_less [OF D(6), of 0 4] len nine by simp
  moreover have "lo \<le> leaf_keys n ! 0" "below hi (leaf_keys n ! 4)"
    using inv len nine by (auto simp: leaf_inv_def)
  moreover have "node_split n zero_node =
    Inr (n\<lparr>offsets := \<lparr>elems = take 4 (elems (offsets n)),
              spare = drop 4 (elems (offsets n)) @ spare (offsets n)\<rparr>\<rparr>,
         zero_node\<lparr>isLeaf := True, offsets := slice_of [0..<slen (offsets n) - 4],
              leafCell := map recell (drop 4 (leaf_live n))\<rparr>, leaf_keys n ! 4)"
    using node_split_leaf [OF D(3,4)] nine by simp
  ultimately show ?thesis
    using split_lower_inv [OF inv m(1)] split_upper_inv [OF inv m(1)] full len nine
    by (auto simp: slice_of_def)
qed

lemma leaf_first_key:
  assumes "leaf_inv lo hi n" and "0 < slen (offsets n)"
  shows "bindr (idx (elems (offsets n)) 0) (\<lambda>o0. bindr (idx (leafCell n) o0) f)
     = f (leafCell n ! (elems (offsets n) ! 0))"
    and "lkey (leafCell n ! (elems (offsets n) ! 0)) = leaf_keys n ! 0"
    and "\<forall>k \<in> set (leaf_keys n). leaf_keys n ! 0 \<le> k"
  using leaf_invD [OF assms(1)] assms(2) sorted_split(2) [of "leaf_keys n" 0]
  by (auto simp: leaf_shape_def leaf_live_def)

section \<open>Properties\<close>

lemma sorted_takeWhile_set:
  fixes ks :: "'a::linorder list"
  assumes "sorted_wrt (<) ks"
  shows "set (takeWhile (\<lambda>k. k < x) ks) = {k \<in> set ks. k < x}"
  using assms
proof (induction ks)
  case (Cons k ks)
  show ?case
  proof (cases "k < x")
    case False
    have "\<not> j < x" if "j \<in> set ks" for j using Cons.prems False that less_trans by auto
    with False show ?thesis by auto
  qed (use Cons in auto)
qed simp

text \<open>
  C35: the binary search of a node agrees with a linear scan. On a node whose offset array orders its
  keys, \<^verbatim>\<open>findInsPointForKey\<close> terminates without a panic and returns the number of keys before the
  first one that is not below the searched key, which is also the number of smaller keys.
\<close>

theorem node_search_linear:
  assumes "offsets_ok n" and "sorted_wrt (<) (node_keys n)" and "slen (offsets n) < 65536"
  shows "findInsPointForKey n key = Inr (length (takeWhile (\<lambda>k. k < key) (node_keys n)))
    \<and> findInsPointForKey n key = Inr (card {k \<in> set (node_keys n). k < key})"
proof -
  have "set (takeWhile (\<lambda>k. k < key) (node_keys n)) = {k \<in> set (node_keys n). k < key}"
    by (rule sorted_takeWhile_set [OF assms(2)])
  moreover have "distinct (takeWhile (\<lambda>k. k < key) (node_keys n))"
    using assms(2) by (intro distinct_takeWhile) (simp add: strict_sorted_iff)
  ultimately have "length (takeWhile (\<lambda>k. k < key) (node_keys n)) = card {k \<in> set (node_keys n). k < key}"
    using distinct_card by metis
  then show ?thesis using findInsPointForKey_correct [OF assms] by (simp add: ins_point_def)
qed

theorem node_search_linear_witness:
  "findInsPointForKey (appendLeafCell (appendLeafCell (zero_node\<lparr>isLeaf := True\<rparr>) ''b'' ''1'') ''d'' ''2'') ''c'' = Inr 1"
  using node_search_linear [of "appendLeafCell (appendLeafCell (zero_node\<lparr>isLeaf := True\<rparr>) ''b'' ''1'') ''d'' ''2''" "''c''"]
  by (simp add: go_eval offsets_ok_def node_keys_def)

end
