(* ===== verification/BPlus_Correct.thy ===== *)
theory BPlus_Correct
  imports BPlus_Tree Leaf_Ops
begin

text \<open>
  The tree as a finite map. The invariant \<open>tree_inv\<close> describes the trees that insertions build:
  a single leaf, or one internal root over leaves whose key ranges follow the separators. The
  theorems give lookup and insertion as operations on the map \<open>contents\<close>, with the exact
  condition under which an insertion fails.
\<close>

section \<open>The invariant\<close>

text \<open>The separator that ends a child's range: the next one, or the bound of the whole list.\<close>

fun next_sep :: "(bytes \<times> nat) list \<Rightarrow> bytes option \<Rightarrow> bytes option" where
  "next_sep [] hi = hi"
| "next_sep ((s, fo) # cs) hi = Some s"

definition kid_ok :: "'a btree_scheme \<Rightarrow> nat \<Rightarrow> nat \<Rightarrow> bytes \<Rightarrow> bytes option \<Rightarrow> nat \<Rightarrow> bool" where
  "kid_ok b r m lo hi fo \<longleftrightarrow> (\<exists>a. cache_fetch b fo = Some a \<and> a < length (heap b) \<and> a \<noteq> r
     \<and> fileOffset (heap b ! a) = fo \<and> fo < nextFreeOffset b \<and> leaf_inv lo hi (heap b ! a)
     \<and> slen (offsets (heap b ! a)) < maxLeafNodeCells
     \<and> length (leafCell (heap b ! a)) \<le> slen (offsets (heap b ! a)) + 5 * m)"

fun kids_ok :: "'a btree_scheme \<Rightarrow> nat \<Rightarrow> nat \<Rightarrow> (bytes \<times> nat) list \<Rightarrow> bytes option \<Rightarrow> bool" where
  "kids_ok b r m [] hi = True"
| "kids_ok b r m ((s, fo) # cs) hi = (kid_ok b r m s (next_sep cs hi) fo \<and> kids_ok b r m cs hi)"

definition leaf_root_inv :: "nat \<Rightarrow> 'a btree_scheme \<Rightarrow> nat \<Rightarrow> bool" where
  "leaf_root_inv base b r \<longleftrightarrow> leaf_inv [] None (heap b ! r)
     \<and> slen (offsets (heap b ! r)) < maxLeafNodeCells
     \<and> length (leafCell (heap b ! r)) = slen (offsets (heap b ! r))
     \<and> fileOffset (heap b ! r) = base \<and> cache_fetch b base = Some r
     \<and> nextFreeOffset b = base + pageSize"

definition int_root_inv :: "nat \<Rightarrow> 'a btree_scheme \<Rightarrow> nat \<Rightarrow> bool" where
  "int_root_inv base b r \<longleftrightarrow> (let R = heap b ! r; cs = int_seps R in
     int_shape R \<and> hd (elems (offsets R)) = 0 \<and> 2 \<le> slen (offsets R)
     \<and> sorted_wrt (<) (map fst cs) \<and> distinct (map snd cs)
     \<and> nextFreeOffset b = base + pageSize * (slen (offsets R) + 1)
     \<and> kids_ok b r (slen (offsets R)) cs None)"

text \<open>\<open>base\<close> is the offset of the first page of this run of the program.\<close>

definition tree_inv :: "nat \<Rightarrow> 'a btree_scheme \<Rightarrow> bool" where
  "tree_inv base b \<longleftrightarrow> base + 2 ^ 21 \<le> 2 ^ 63 \<and> (\<exists>r. root b = Some r \<and> r < length (heap b)
     \<and> (if isLeaf (heap b ! r) then leaf_root_inv base b r
          else int_root_inv base b r \<and> slen (offsets (heap b ! r)) \<le> maxInternalNodeCells))"

section \<open>The abstract map\<close>

definition root_node :: "'a btree_scheme \<Rightarrow> node" where
  "root_node b = heap b ! the (root b)"

definition child_fo :: "(bytes \<times> nat) list \<Rightarrow> bytes \<Rightarrow> nat" where
  "child_fo cs key = snd (last (hd cs # takeWhile (\<lambda>(s, fo). s \<le> key) cs))"

definition page :: "'a btree_scheme \<Rightarrow> nat \<Rightarrow> node" where
  "page b fo = heap b ! the (cache_fetch b fo)"

definition leaf_for :: "'a btree_scheme \<Rightarrow> bytes \<Rightarrow> node" where
  "leaf_for b key = (if isLeaf (root_node b) then root_node b
     else page b (child_fo (int_seps (root_node b)) key))"

text \<open>
  What a tree holds: the live cells of its leaves, one leaf after the other, whatever way the operations
  take to them.
\<close>

definition cell_pairs :: "node \<Rightarrow> (bytes \<times> bytes) list" where
  "cell_pairs n = map (\<lambda>c. (lkey c, lval c)) (leaf_live n)"

definition tree_pairs :: "'a btree_scheme \<Rightarrow> (bytes \<times> bytes) list" where
  "tree_pairs b = (if isLeaf (root_node b) then cell_pairs (root_node b)
     else concat (map (\<lambda>(s, fo). cell_pairs (page b fo)) (int_seps (root_node b))))"

definition contents :: "'a btree_scheme \<Rightarrow> bytes \<Rightarrow> bytes option" where
  "contents b = map_of (tree_pairs b)"

text \<open>The map as the operations see it: the cell of a key in the leaf to which the key is routed.\<close>

definition routed :: "'a btree_scheme \<Rightarrow> bytes \<Rightarrow> bytes option" where
  "routed b key = leaf_lookup (leaf_for b key) key"

text \<open>The keys a tree accepts without damage: all, or those from its first separator on.\<close>

definition covers :: "'a btree_scheme \<Rightarrow> bytes \<Rightarrow> bool" where
  "covers b key \<longleftrightarrow> isLeaf (root_node b) \<or> fst (hd (int_seps (root_node b))) \<le> key"

section \<open>Children\<close>

lemma kids_ok_append:
  "kids_ok b r m (xs @ ys) hi \<longleftrightarrow> kids_ok b r m xs (next_sep ys hi) \<and> kids_ok b r m ys hi"
proof (induction xs)
  case (Cons x xs)
  then show ?case by (cases x; cases xs) auto
qed simp

lemma kids_ok_mem:
  assumes "kids_ok b r m cs hi" and "fo \<in> snd ` set cs"
  shows "\<exists>lo hi'. kid_ok b r m lo hi' fo"
  using assms
proof (induction cs)
  case (Cons x cs)
  then show ?case by (cases x; cases "fo \<in> snd ` set cs") auto
qed simp

lemma kids_ok_frame:
  assumes "kids_ok b r m cs hi" and "m \<le> m'" and "length (heap b) \<le> length (heap b')"
    and "nextFreeOffset b \<le> nextFreeOffset b'"
    and "\<And>s fo a. (s, fo) \<in> set cs \<Longrightarrow> cache_fetch b fo = Some a \<Longrightarrow> a < length (heap b) \<Longrightarrow>
       a \<noteq> r \<Longrightarrow> fileOffset (heap b ! a) = fo \<Longrightarrow> fo < nextFreeOffset b \<Longrightarrow>
       cache_fetch b' fo = Some a \<and> heap b' ! a = heap b ! a \<and> a \<noteq> r'"
  shows "kids_ok b' r' m' cs hi"
  using assms
proof (induction cs)
  case (Cons x cs)
  obtain s fo where x: "x = (s, fo)" by (cases x)
  from Cons.prems(1) x obtain a where a: "cache_fetch b fo = Some a" "a < length (heap b)" "a \<noteq> r"
    "fileOffset (heap b ! a) = fo" "fo < nextFreeOffset b" "leaf_inv s (next_sep cs hi) (heap b ! a)"
    "slen (offsets (heap b ! a)) < maxLeafNodeCells"
    "length (leafCell (heap b ! a)) \<le> slen (offsets (heap b ! a)) + 5 * m"
    by (auto simp: kid_ok_def)
  have "kid_ok b' r' m' s (next_sep cs hi) fo"
    unfolding kid_ok_def
    using Cons.prems(5) [of s fo a] a x Cons.prems(2-4) by (intro exI [of _ a]) auto
  moreover have "kids_ok b' r' m' cs hi" using Cons x by (intro Cons.IH) auto
  ultimately show ?case by (simp add: x)
qed simp

lemma kids_ok_kid: "kids_ok b r m cs hi \<Longrightarrow> (s, fo) \<in> set cs \<Longrightarrow> \<exists>hi'. kid_ok b r m s hi' fo"
  by (induction b r m cs hi rule: kids_ok.induct) auto

lemma child_fo_mem: "cs \<noteq> [] \<Longrightarrow> child_fo cs key \<in> snd ` set cs"
proof -
  assume "cs \<noteq> []"
  then have "last (hd cs # takeWhile (\<lambda>(s, fo). s \<le> key) cs) \<in> set cs"
    by (cases "takeWhile (\<lambda>(s, fo). s \<le> key) cs = []")
       (auto dest: last_in_set set_takeWhileD)
  then show ?thesis by (simp add: child_fo_def)
qed

lemma child_fo_split:
  assumes "sorted_wrt (<) (map fst cs)" and "cs \<noteq> []" and "fst (hd cs) \<le> key"
  obtains xs s ys where "cs = xs @ (s, child_fo cs key) # ys" and "s \<le> key"
    and "below (next_sep ys None) key"
proof -
  let ?P = "\<lambda>(s, fo). s \<le> key" and ?t = "takeWhile (\<lambda>(s, fo :: nat). s \<le> key) cs"
  obtain c cs' where c: "cs = c # cs'" using assms(2) by (cases cs) auto
  then have ne: "?t \<noteq> []" using assms(3) by (auto simp: case_prod_beta)
  then have last: "last ?t = last (hd cs # ?t)" by simp
  obtain s fo where sf: "last ?t = (s, fo)" by (cases "last ?t")
  have "cs = butlast ?t @ (s, fo) # dropWhile ?P cs"
    by (metis append.assoc append_Cons append_butlast_last_id append_self_conv2 ne sf takeWhile_dropWhile_id)
  moreover have "fo = child_fo cs key" using last sf unfolding child_fo_def by (metis snd_conv)
  moreover have "s \<le> key" using set_takeWhileD [of "last ?t" ?P cs] last_in_set [OF ne] sf by simp
  moreover have "below (next_sep (dropWhile ?P cs) None) key"
  proof (cases "dropWhile ?P cs")
    case (Cons y ys)
    then have "\<not> ?P y" by (metis hd_dropWhile list.distinct(1) list.sel(1))
    then show ?thesis using Cons by (cases y) (simp add: below_def)
  next
    case Nil
    then show ?thesis unfolding Nil by (simp add: below_def)
  qed
  ultimately show ?thesis using that by blast
qed

lemma child_fo_eqI:
  assumes "sorted_wrt (<) (map fst (xs @ (s, fo) # ys))" and "s \<le> key \<or> xs = []"
    and "below (next_sep ys None) key"
  shows "child_fo (xs @ (s, fo) # ys) key = fo"
proof -
  let ?P = "\<lambda>(s, fo :: nat). s \<le> key"
  have ys: "takeWhile ?P ys = []"
    using assms(3) by (cases ys) (auto simp: below_def)
  show ?thesis
  proof (cases "s \<le> key")
    case True
    have "\<forall>x \<in> set xs. ?P x" using assms(1) True
      by (force simp: sorted_wrt_append)
    then have "takeWhile ?P (xs @ (s, fo) # ys) = xs @ [(s, fo)]"
      using True ys by (simp add: takeWhile_append2 case_prod_beta)
    then show ?thesis by (simp add: child_fo_def)
  next
    case False
    with assms(2) ys show ?thesis by (simp add: child_fo_def)
  qed
qed

lemma findChild_fo:
  assumes "int_shape R" and "hd (elems (offsets R)) = 0" and "0 < slen (offsets R)"
  obtains i where "findChildPage R key = Inr i" and "i < length (internalCell R)"
    and "ifileOffset (internalCell R ! i) = child_fo (int_seps R) key"
proof -
  let ?os = "elems (offsets R)"
  let ?cell = "\<lambda>o'. (ikey (internalCell R ! o'), ifileOffset (internalCell R ! o'))"
  let ?t = "takeWhile (\<lambda>o'. ikey (internalCell R ! o') \<le> key) ?os"
  define o1 where "o1 = last (0 # ?t)"
  have hd: "0 \<in> set ?os" using assms(2,3) by (metis hd_in_set length_greater_0_conv)
  then have "o1 \<in> set ?os"
    by (cases "?t = []") (auto simp: o1_def dest: last_in_set set_takeWhileD)
  then have o1: "o1 < length (internalCell R)" using assms(1) by (simp add: int_shape_def)
  have seps: "int_seps R = map ?cell ?os" by (simp add: int_seps_def)
  have "takeWhile (\<lambda>(s, fo). s \<le> key) (int_seps R) = map ?cell ?t"
    by (simp add: seps takeWhile_map comp_def)
  moreover have "hd (int_seps R) = ?cell 0" using assms(2,3) by (simp add: seps hd_map)
  ultimately have "last (hd (int_seps R) # takeWhile (\<lambda>(s, fo). s \<le> key) (int_seps R)) = ?cell o1"
    by (simp add: o1_def last_map)
  then have "ifileOffset (internalCell R ! o1) = child_fo (int_seps R) key"
    by (simp add: child_fo_def)
  moreover have "findChildPage R key = Inr o1"
    by (simp add: findChildPage_correct [OF assms(1)] o1_def)
  ultimately show ?thesis using o1 that by blast
qed

section \<open>The two maps agree\<close>

lemma leaf_map_iff:
  assumes "leaf_inv lo hi n"
  shows "map_of (cell_pairs n) k = Some v \<longleftrightarrow> (\<exists>c \<in> set (leaf_live n). lkey c = k \<and> lval c = v)"
proof -
  have "distinct (map fst (cell_pairs n))"
    using leaf_invD(6) [OF assms] by (simp add: cell_pairs_def comp_def strict_sorted_iff)
  then show ?thesis by (auto simp: map_of_eq_Some_iff) (auto simp: cell_pairs_def)
qed

lemma leaf_map_None:
  assumes "leaf_inv lo hi n" and "k < lo \<or> \<not> below hi k"
  shows "map_of (cell_pairs n) k = None"
proof (rule ccontr)
  assume "map_of (cell_pairs n) k \<noteq> None"
  then have "k \<in> set (leaf_keys n)" using leaf_map_iff [OF assms(1)] by auto
  then show False using leaf_inv_range [OF assms(1)] assms(2) leD by blast
qed

lemma leaf_map_lookup:
  assumes inv: "leaf_inv lo hi n" and k: "below hi k"
  shows "map_of (cell_pairs n) k = leaf_lookup n k"
proof (rule option_eqI)
  fix v
  have "c \<in> set (leaf_live n)" if c: "c \<in> set (leafCell n)" "lkey c = k" for c
  proof -
    obtain i where i: "i < length (leafCell n)" "leafCell n ! i = c" using c(1) by (auto simp: in_set_conv_nth)
    then have "i \<in> set (elems (offsets n))" using inv k c(2) by (auto simp: leaf_inv_def)
    then show ?thesis using i(2) by (auto simp: leaf_live_def)
  qed
  then have "(\<exists>c \<in> set (leaf_live n). lkey c = k \<and> lval c = v) \<longleftrightarrow> (\<exists>c \<in> set (leafCell n). lkey c = k \<and> lval c = v)"
    using set_leaf_live [OF leaf_invD(1) [OF inv]] by blast
  then show "map_of (cell_pairs n) k = Some v \<longleftrightarrow> leaf_lookup n k = Some v"
    by (simp add: leaf_map_iff [OF inv] leaf_lookup_iff [OF leaf_invD(7) [OF inv]])
qed

definition kid_pairs :: "'a btree_scheme \<Rightarrow> (bytes \<times> nat) list \<Rightarrow> (bytes \<times> bytes) list" where
  "kid_pairs b cs = concat (map (\<lambda>(s, fo). cell_pairs (page b fo)) cs)"

lemma kid_pairs_simps [simp]:
  "kid_pairs b [] = []" "kid_pairs b ((s, fo) # cs) = cell_pairs (page b fo) @ kid_pairs b cs"
  "kid_pairs b (xs @ ys) = kid_pairs b xs @ kid_pairs b ys"
  by (simp_all add: kid_pairs_def)

lemma kid_page: "kid_ok b r m lo hi fo \<Longrightarrow> leaf_inv lo hi (page b fo)"
  by (auto simp: kid_ok_def page_def)

lemma kid_pairs_below:
  "kids_ok b r m cs hi \<Longrightarrow> \<forall>s \<in> fst ` set cs. k < s \<Longrightarrow> map_of (kid_pairs b cs) k = None"
proof (induction cs)
  case (Cons x cs)
  obtain s fo where x: "x = (s, fo)" by (cases x)
  have kid: "kid_ok b r m s (next_sep cs hi) fo" using Cons.prems(1) by (simp add: x)
  have "map_of (cell_pairs (page b fo)) k = None" using leaf_map_None [OF kid_page [OF kid]] Cons.prems(2) by (simp add: x)
  moreover have "map_of (kid_pairs b cs) k = None" using Cons by (simp add: x)
  ultimately show ?case by (simp add: x map_add_None)
qed simp

lemma kid_pairs_above:
  "kids_ok b r m cs (Some h) \<Longrightarrow> sorted_wrt (<) (map fst cs @ [h]) \<Longrightarrow> h \<le> k \<Longrightarrow> map_of (kid_pairs b cs) k = None"
proof (induction cs)
  case (Cons x cs)
  obtain s fo where x: "x = (s, fo)" by (cases x)
  have "\<exists>h'. next_sep cs (Some h) = Some h' \<and> h' \<le> h"
    using Cons.prems(2) by (cases cs) (auto simp: x)
  then have "\<not> below (next_sep cs (Some h)) k" using Cons.prems(3) by (auto simp: below_def)
  moreover have kid: "kid_ok b r m s (next_sep cs (Some h)) fo" using Cons.prems(1) by (simp add: x)
  ultimately have "map_of (cell_pairs (page b fo)) k = None" using leaf_map_None [OF kid_page [OF kid]] by simp
  moreover have "map_of (kid_pairs b cs) k = None" using Cons by (simp add: x)
  ultimately show ?case by (simp add: x map_add_None)
qed simp

lemma contents_routed:
  assumes "tree_inv base b"
  shows "contents b = routed b"
proof
  fix key
  from assms obtain r where r: "root b = Some r" "r < length (heap b)"
    and inv: "if isLeaf (heap b ! r) then leaf_root_inv base b r else int_root_inv base b r"
    by (auto simp: tree_inv_def split: if_splits)
  have rn: "root_node b = heap b ! r" by (simp add: root_node_def r)
  show "contents b key = routed b key"
  proof (cases "isLeaf (heap b ! r)")
    case True
    then have "leaf_inv [] None (heap b ! r)" using inv by (simp add: leaf_root_inv_def)
    from leaf_map_lookup [OF this, of key] True show ?thesis
      by (simp add: contents_def tree_pairs_def routed_def leaf_for_def rn below_def)
  next
    case False
    let ?cs = "int_seps (heap b ! r)"
    have I: "sorted_wrt (<) (map fst ?cs)" "?cs \<noteq> []" "kids_ok b r (slen (offsets (heap b ! r))) ?cs None"
      using inv False by (auto simp: int_root_inv_def Let_def int_seps_def)
    have cont: "contents b key = map_of (kid_pairs b ?cs) key"
      using False by (simp add: contents_def tree_pairs_def kid_pairs_def rn)
    have rout: "routed b key = leaf_lookup (page b (child_fo ?cs key)) key"
      using False by (simp add: routed_def leaf_for_def rn)
    show ?thesis
    proof (cases "fst (hd ?cs) \<le> key")
      case True
      obtain xs s ys where cs: "?cs = xs @ (s, child_fo ?cs key) # ys" "s \<le> key" "below (next_sep ys None) key"
        by (rule child_fo_split [OF I(1,2) True])
      let ?m = "slen (offsets (heap b ! r))" and ?fo = "child_fo ?cs key"
      have k: "kids_ok b r ?m xs (Some s)" "kid_ok b r ?m s (next_sep ys None) ?fo" "kids_ok b r ?m ys None"
        using I(3) cs(1) kids_ok_append [of b r ?m xs "(s, ?fo) # ys" None] by (metis kids_ok.simps(2) next_sep.simps(2))+
      have "sorted_wrt (<) (map fst (xs @ (s, ?fo) # ys))" using I(1) cs(1) by metis
      then have so: "sorted_wrt (<) (map fst xs @ [s])" "sorted_wrt (<) (map fst ys)"
        by (auto simp: sorted_wrt_append)
      have "\<forall>t \<in> fst ` set ys. key < t"
        using cs(3) so(2) by (cases ys) (auto simp: below_def intro: less_trans)
      from kid_pairs_below [OF k(3) this] kid_pairs_above [OF k(1) so(1) cs(2)]
      have "map_of (kid_pairs b ?cs) key = map_of (cell_pairs (page b ?fo)) key"
        by (subst cs(1)) (simp add: map_add_def split: option.split)
      then show ?thesis using leaf_map_lookup [OF kid_page [OF k(2)] cs(3)] by (simp add: cont rout)
    next
      case False
      obtain s fo ys where cs: "?cs = (s, fo) # ys" using I(2) by (cases ?cs) auto
      have lt: "\<forall>t \<in> fst ` set ?cs. key < t" using False I(1) by (auto simp: cs intro: less_trans)
      then have "child_fo ?cs key = fo" using child_fo_eqI [of "[]" s fo ys key] I(1) by (cases ys) (auto simp: cs below_def)
      moreover have k: "kid_ok b r (slen (offsets (heap b ! r))) s (next_sep ys None) fo" using I(3) by (simp add: cs)
      moreover have b: "below (next_sep ys None) key" and "key < s" using lt by (cases ys; auto simp: cs below_def)+
      then have "leaf_lookup (page b fo) key = None"
        using leaf_map_lookup [OF kid_page [OF k] b] leaf_map_None [OF kid_page [OF k], of key] by metis
      ultimately show ?thesis using kid_pairs_below [OF I(3) lt] by (simp add: cont rout)
    qed
  qed
qed

section \<open>Lookup\<close>

lemma Get_routed:
  assumes "tree_inv base b"
  shows "btree_Get b key = Some (case routed b key of
      None \<Rightarrow> Inl (GoErr ''key not found'') | Some v \<Rightarrow> Inr (b, v))"
proof -
  from assms obtain r where r: "root b = Some r" "r < length (heap b)"
    and inv: "if isLeaf (heap b ! r) then leaf_root_inv base b r
       else int_root_inv base b r \<and> slen (offsets (heap b ! r)) \<le> maxInternalNodeCells"
    by (auto simp: tree_inv_def)
  have rn: "root_node b = heap b ! r" by (simp add: root_node_def r)
  have leaf: "btree_get b (Some a) key = Some (case leaf_lookup (heap b ! a) key of
      None \<Rightarrow> Inl (GoErr ''key not found'') | Some v \<Rightarrow> Inr (b, v))"
    if "a < length (heap b)" "isLeaf (heap b ! a)" for a
    using that by (auto simp: btree_get.simps [of b "Some a"] leaf_lookup_def split: option.splits)
  show ?thesis
  proof (cases "isLeaf (heap b ! r)")
    case True
    then show ?thesis
      using leaf [OF r(2)] by (simp add: btree_Get_def getRootPage_def r routed_def leaf_for_def rn)
  next
    case False
    let ?R = "heap b ! r"
    from inv False have I: "int_shape ?R" "hd (elems (offsets ?R)) = 0" "2 \<le> slen (offsets ?R)"
      "kids_ok b r (slen (offsets ?R)) (int_seps ?R) None"
      by (auto simp: int_root_inv_def Let_def)
    from I(3) have pos: "0 < slen (offsets ?R)" by linarith
    obtain i where i: "findChildPage ?R key = Inr i" "i < length (internalCell ?R)"
      "ifileOffset (internalCell ?R ! i) = child_fo (int_seps ?R) key"
      by (rule findChild_fo [OF I(1,2) pos])
    have "int_seps ?R \<noteq> []" using I(3) by (auto simp: int_seps_def)
    then obtain lo hi where "kid_ok b r (slen (offsets ?R)) lo hi (child_fo (int_seps ?R) key)"
      using kids_ok_mem [OF I(4) child_fo_mem] by blast
    then obtain a where a: "cache_fetch b (ifileOffset (internalCell ?R ! i)) = Some a"
      "a < length (heap b)" "isLeaf (heap b ! a)"
      using i(3) leaf_invD(3) by (auto simp: kid_ok_def)
    have "btree_get b (Some r) key = btree_get b (Some a) key"
      using False r i a(1)
      by (simp add: btree_get.simps [of b "Some r"] btree_fetch_def)
    then show ?thesis
      using leaf [OF a(2,3)] a(1) i(3) False
      by (simp add: btree_Get_def getRootPage_def r routed_def leaf_for_def rn page_def)
  qed
qed

section \<open>Insertion into one leaf\<close>

lemma insertLeaf_nosplit:
  assumes a: "a < length (heap b)" and inv: "leaf_inv lo hi (heap b ! a)"
    and room: "slen (offsets (heap b ! a)) < maxLeafNodeCells"
    and small: "length (leafCell (heap b ! a)) < 65536"
    and range: "lo \<le> key" "below hi key"
    and fits: "findLeafCell (heap b ! a) key \<noteq> None \<or> Suc (slen (offsets (heap b ! a))) < maxLeafNodeCells"
  obtains n' where "insertLeaf b parent a key v = Inr (store_node b a n')" and "leaf_inv lo hi n'"
    and "leaf_lookup n' = (leaf_lookup (heap b ! a))(key \<mapsto> v)"
    and "slen (offsets n') < maxLeafNodeCells"
    and "length (leafCell n') + slen (offsets (heap b ! a)) = length (leafCell (heap b ! a)) + slen (offsets n')"
    and "fileOffset n' = fileOffset (heap b ! a)"
proof (cases "findLeafCell (heap b ! a) key")
  case (Some i)
  let ?n = "heap b ! a"
  let ?n' = "markDirty (?n\<lparr>leafCell := (leafCell ?n)[i :=
             (leafCell ?n ! i)\<lparr>lval := v, valSize := u32 (length v)\<rparr>]\<rparr>)"
  have "insertLeaf b parent a key v = Inr (store_node b a ?n')"
    using a Some by (simp add: insertLeaf_def)
  then show ?thesis
    using leaf_update_inv [OF inv Some, where v = v and s = "u32 (length v)"] room
    by (intro that [of ?n']) (simp_all add: markDirty_def)
next
  case None
  with fits have fits: "Suc (slen (offsets (heap b ! a))) < maxLeafNodeCells" by simp
  obtain n1 where n1: "bindr (findInsPointForKey (heap b ! a) key) (\<lambda>ofs. insertLeafCell (heap b ! a) ofs key v) = Inr n1"
    "leaf_inv lo hi n1" "leaf_lookup n1 = (leaf_lookup (heap b ! a))(key \<mapsto> v)"
    "slen (offsets n1) = Suc (slen (offsets (heap b ! a)))"
    "length (leafCell n1) = Suc (length (leafCell (heap b ! a)))" "fileOffset n1 = fileOffset (heap b ! a)"
    using leaf_insert_new [OF inv None room small range, of v] by blast
  have "\<not> isFull (markDirty n1)"
    using n1(4) fits leaf_invD(3) [OF n1(2)] by (simp add: isFull_def markDirty_def)
  moreover obtain p where "findInsPointForKey (heap b ! a) key = Inr p" "insertLeafCell (heap b ! a) p key v = Inr n1"
    using n1(1) by (auto simp: bindr_Inr_iff)
  ultimately have "insertLeaf b parent a key v = Inr (store_node b a (markDirty n1))"
    using a None by (simp add: insertLeaf_def Let_def)
  then show ?thesis
    using n1 fits by (intro that [of "markDirty n1"]) (simp_all add: markDirty_def)
qed

text \<open>The state after a split, before the new page is linked: the old leaf at \<open>a\<close>, the new one behind.\<close>

definition grow :: "'a btree_scheme \<Rightarrow> nat \<Rightarrow> node \<Rightarrow> node \<Rightarrow> 'a btree_scheme" where
  "grow b a n' pg = btree_add (b\<lparr>heap := (heap b)[a := n'] @ [pg]\<rparr>) (length (heap b))"

lemma grow_simps:
  "heap (grow b a n' pg) = (heap b)[a := n'] @ [pg\<lparr>fileOffset := nextFreeOffset b\<rparr>]"
  "cache_fetch (grow b a n' pg) fo =
     (if cache_key fo = cache_key (nextFreeOffset b) then Some (length (heap b)) else cache_fetch b fo)"
  "nextFreeOffset (grow b a n' pg) = u64 (nextFreeOffset b + pageSize)"
  "root (grow b a n' pg) = root b"
  by (simp_all add: grow_def btree_add_def Let_def setFileOffsetForNode_def cache_add_def store_node_def
        cache_fetch_def update_conv' list_update_append nth_append)

lemma insertLeaf_split:
  assumes a: "a < length (heap b)" and inv: "leaf_inv lo hi (heap b ! a)"
    and full: "Suc (slen (offsets (heap b ! a))) = maxLeafNodeCells"
    and small: "length (leafCell (heap b ! a)) < 65536"
    and range: "lo \<le> key" "below hi key" and absent: "findLeafCell (heap b ! a) key = None"
  obtains n' pg sep where
    "\<And>parent. insertLeaf b parent a key v =
       bindr (link_sibling (grow b a n' pg) parent n' (nextFreeOffset b) sep) (\<lambda>b5.
       bindr (deref b5 (Some a)) (\<lambda>n4. Inr (store_node b5 a (markDirty n4))))"
    and "leaf_inv lo (Some sep) n'" and "leaf_inv sep hi pg" and "lo < sep" and "below hi sep"
    and "slen (offsets n') = 4" and "slen (offsets pg) = 5" and "length (leafCell pg) = 5"
    and "length (leafCell n') = Suc (length (leafCell (heap b ! a)))"
    and "fileOffset n' = fileOffset (heap b ! a)"
    and "leaf_lookup n' = (leaf_lookup (heap b ! a))(key \<mapsto> v)"
    and "\<And>k. sep \<le> k \<Longrightarrow> below hi k \<Longrightarrow> leaf_lookup pg k = ((leaf_lookup (heap b ! a))(key \<mapsto> v)) k"
proof -
  have room: "slen (offsets (heap b ! a)) < maxLeafNodeCells" using full by simp
  obtain n1 where n1: "bindr (findInsPointForKey (heap b ! a) key) (\<lambda>ofs. insertLeafCell (heap b ! a) ofs key v) = Inr n1"
    "leaf_inv lo hi n1" "leaf_lookup n1 = (leaf_lookup (heap b ! a))(key \<mapsto> v)"
    "slen (offsets n1) = Suc (slen (offsets (heap b ! a)))"
    "length (leafCell n1) = Suc (length (leafCell (heap b ! a)))" "fileOffset n1 = fileOffset (heap b ! a)"
    using leaf_insert_new [OF inv absent room small range, of v] by blast
  define n2 where "n2 = markDirty n1"
  have n2: "leaf_inv lo hi n2" "slen (offsets n2) = maxLeafNodeCells" "isFull n2"
    using n1(2,4) full leaf_invD(3) [OF n1(2)] by (simp_all add: n2_def markDirty_def isFull_def)
  obtain n' pg sep where sp: "node_split n2 zero_node = Inr (n', pg, sep)"
    "leaf_inv lo (Some sep) n'" "leaf_inv sep hi pg" "lo < sep" "below hi sep"
    "slen (offsets n') = 4" "slen (offsets pg) = 5" "length (leafCell pg) = 5"
    "leafCell n' = leafCell n2" "leaf_lookup n' = leaf_lookup n2" "fileOffset n' = fileOffset n2"
    "\<forall>k. sep \<le> k \<longrightarrow> below hi k \<longrightarrow> leaf_lookup pg k = leaf_lookup n2 k"
    using leaf_split [OF n2(1,2)] by blast
  obtain p where p: "findInsPointForKey (heap b ! a) key = Inr p" "insertLeafCell (heap b ! a) p key v = Inr n1"
    using n1(1) by (auto simp: bindr_Inr_iff)
  have "insertLeaf b parent a key v =
       bindr (link_sibling (grow b a n' pg) parent n' (nextFreeOffset b) sep) (\<lambda>b5.
       bindr (deref b5 (Some a)) (\<lambda>n4. Inr (store_node b5 a (markDirty n4))))" for parent
    using a absent p n2(3) sp(1) grow_simps(1) [of b a n' pg]
    by (simp add: insertLeaf_def Let_def n2_def alloc_def store_node_def grow_def nth_append)
  with sp n1(3,5,6) show ?thesis
    by (intro that [of n' pg sep]) (simp_all add: n2_def markDirty_def)
qed

section \<open>Separators\<close>

lemma child_fo_insert:
  assumes sorted: "sorted_wrt (<) (map fst (xs @ (s, fo) # (sep, nf) # ys))"
    and dist: "distinct (map snd (xs @ (s, fo) # ys))"
  shows "child_fo (xs @ (s, fo) # (sep, nf) # ys) key =
    (if sep \<le> key \<and> child_fo (xs @ (s, fo) # ys) key = fo then nf else child_fo (xs @ (s, fo) # ys) key)"
proof -
  let ?P = "\<lambda>(s, fo :: nat). s \<le> key"
  have hd: "hd (xs @ (s, fo) # (sep, nf) # ys) = hd (xs @ (s, fo) # ys)" by (cases xs) auto
  have ssep: "s < sep" and xs: "\<forall>x \<in> set xs. fst x < s" and ys: "\<forall>y \<in> set ys. sep < fst y"
    using sorted by (auto simp: sorted_wrt_append)
  show ?thesis
  proof (cases "sep \<le> key")
    case True
    have "\<forall>x \<in> set xs. ?P x" using xs ssep True by (fastforce simp: case_prod_beta)
    moreover have "s \<le> key" using ssep True by simp
    ultimately have t: "takeWhile ?P (xs @ (s, fo) # zs) = xs @ (s, fo) # takeWhile ?P zs" for zs
      by (simp add: takeWhile_append2)
    show ?thesis
    proof (cases "takeWhile ?P ys = []")
      case True
      with t \<open>sep \<le> key\<close> show ?thesis by (simp add: child_fo_def)
    next
      case False
      have "last (takeWhile ?P ys) \<in> set ys" using False last_in_set set_takeWhileD by fastforce
      then have "snd (last (takeWhile ?P ys)) \<noteq> fo" using dist by auto
      with t False \<open>sep \<le> key\<close> show ?thesis by (simp add: child_fo_def)
    qed
  next
    case False
    then have "takeWhile ?P ys = []" using ys by (cases ys) auto
    then have "takeWhile ?P (xs @ (s, fo) # (sep, nf) # ys) = takeWhile ?P (xs @ (s, fo) # ys)"
      using False by (cases "\<forall>x \<in> set xs. ?P x") (auto simp: takeWhile_append2 takeWhile_append1)
    with False hd show ?thesis by (simp add: child_fo_def)
  qed
qed

lemma ins_point_after:
  assumes "sorted_wrt (<) (map fst (xs @ (s, fo) # ys))" and "s < sep" and "below (next_sep ys None) sep"
  shows "ins_point (map fst (xs @ (s, fo) # ys)) sep = Suc (length xs)"
    and "sorted_wrt (<) (map fst (xs @ (s, fo) # (sep, nf) # ys))"
proof -
  have ys: "\<forall>y \<in> set ys. sep < fst y"
  proof (cases ys)
    case (Cons y ys')
    then have "sep < fst y" using assms(3) by (cases y) (simp add: below_def)
    moreover have "\<forall>y' \<in> set ys'. fst y < fst y'" using assms(1) Cons by (simp add: sorted_wrt_append)
    ultimately show ?thesis using Cons by (auto intro: less_trans)
  qed simp
  have xs: "\<forall>x \<in> set xs. fst x < sep"
    using assms(1,2) by (auto simp: sorted_wrt_append intro: less_trans)
  have "takeWhile (\<lambda>k. k < sep) (map fst ys) = []" using ys by (cases ys) auto
  then have "takeWhile (\<lambda>k. k < sep) (map fst (xs @ (s, fo) # ys)) = map fst xs @ [s]"
    using xs assms(2) by (subst map_append, subst takeWhile_append2) auto
  then show "ins_point (map fst (xs @ (s, fo) # ys)) sep = Suc (length xs)"
    by (simp add: ins_point_def)
  show "sorted_wrt (<) (map fst (xs @ (s, fo) # (sep, nf) # ys))"
    using assms(1,2) xs ys by (auto simp: sorted_wrt_append)
qed

lemma link_parent:
  assumes r: "r < length (heap b)" and R: "R = heap b ! r" and shape: "int_shape R"
    and cs: "int_seps R = xs @ (s, fo) # ys" and sorted: "sorted_wrt (<) (map fst (int_seps R))"
    and sep: "s < sep" "below (next_sep ys None) sep" and small: "slen (offsets R) < 65535"
  obtains R' where "link_sibling b (Some r) cur nf sep = Inr (store_node b r R')" and "int_shape R'"
    and "int_seps R' = xs @ (s, fo) # (sep, nf) # ys"
    and "hd (elems (offsets R')) = hd (elems (offsets R))"
proof -
  have ok: "offsets_ok R" and int: "\<not> isLeaf R" using shape by (auto simp: offsets_ok_def int_shape_def)
  let ?p = "Suc (length xs)"
  have len: "length (int_seps R) = slen (offsets R)" by (simp add: int_seps_def)
  have p: "findInsPointForKey R sep = Inr ?p"
    using findInsPointForKey_correct [OF ok, of sep] sorted small ins_point_after(1) [of xs s fo ys sep] cs sep
    by (simp add: node_keys_int [OF int])
  have "?p \<le> slen (offsets R)" using len cs by simp
  then obtain R' where R': "(if ?p = u16 (slen (offsets R)) then Inr (appendInternalCell R nf sep)
       else insertInternalCell R ?p nf sep) = Inr R'" "int_shape R'"
    "int_seps R' = take ?p (int_seps R) @ (sep, nf) # drop ?p (int_seps R)"
    "hd (elems (offsets R')) = hd (elems (offsets R))"
    using insert_separator [OF shape _ small, of ?p nf sep] by auto
  have "link_sibling b (Some r) cur nf sep = Inr (store_node b r R')"
    using r p R'(1) by (auto simp: link_sibling_def R [symmetric] split: if_splits)
  then show ?thesis using R' cs by (intro that [of R']) simp_all
qed

section \<open>Insertion below an internal root\<close>

text \<open>What \<open>insertInternal\<close> does at a root whose children are leaves.\<close>

lemma put_internal:
  assumes inv: "int_root_inv base b r" and r: "root b = Some r" "r < length (heap b)"
    and a: "cache_fetch b (child_fo (int_seps (heap b ! r)) key) = Some a" "a < length (heap b)"
      "isLeaf (heap b ! a)"
  shows "put b key v = Some (bindr (insertLeaf b (Some r) a key v) (\<lambda>b1. link_internal b1 None r))"
proof -
  let ?R = "heap b ! r"
  from inv have I: "int_shape ?R" "hd (elems (offsets ?R)) = 0" "2 \<le> slen (offsets ?R)"
    by (auto simp: int_root_inv_def Let_def)
  from I(3) have pos: "0 < slen (offsets ?R)" by linarith
  have int: "\<not> isLeaf ?R" using I(1) by (simp add: int_shape_def)
  obtain i where i: "findChildPage ?R key = Inr i" "i < length (internalCell ?R)"
    "ifileOffset (internalCell ?R ! i) = child_fo (int_seps ?R) key"
    by (rule findChild_fo [OF I(1,2) pos])
  show ?thesis
    using int i a r by (simp add: put_def getRootPage_def Let_def insertInternal.simps)
qed

lemma link_internal_id:
  assumes "r < length (heap b)" and "\<not> isLeaf (heap b ! r)"
    and "slen (offsets (heap b ! r)) \<le> maxInternalNodeCells"
  shows "link_internal b parent r = Inr b"
  using assms by (simp add: link_internal_def isFull_def)

lemma link_internal_overflow:
  assumes r: "r < length (heap b)" and shape: "int_shape (heap b ! r)"
    and sorted: "sorted_wrt (<) (map fst (int_seps (heap b ! r)))"
    and full: "slen (offsets (heap b ! r)) = Suc maxInternalNodeCells"
  shows "link_internal b None r = Inl NilPanic"
proof -
  let ?R = "heap b ! r" and ?m = "slen (offsets (heap b ! r)) div 2"
  let ?pg = "zero_node\<lparr>offsets := slice_of [0..<slen (offsets ?R) - ?m],
              internalCell := map (\<lambda>o'. internalCell ?R ! o') (drop ?m (elems (offsets ?R)))\<rparr>"
  have ok: "offsets_ok ?R" and int: "\<not> isLeaf ?R" using shape by (auto simp: offsets_ok_def int_shape_def)
  have big: "0 < slen (offsets ?R)" "slen (offsets ?R) < 65536"
    using full by (simp_all add: maxInternalNodeCells_def)
  note split = node_split_internal [OF int ok big]
  have keys: "node_keys (?pg\<lparr>fileOffset := fo\<rparr>) = drop ?m (node_keys ?R)" for fo
    using int by (auto intro!: nth_equalityI simp: node_keys_def zero_node_def slice_of_def)
  have "sorted_wrt (<) (node_keys (?pg\<lparr>fileOffset := fo\<rparr>))" for fo
    using sorted by (simp add: keys node_keys_int [OF int] sorted_wrt_drop)
  moreover have "offsets_ok (?pg\<lparr>fileOffset := fo\<rparr>)" for fo
    by (auto simp: offsets_ok_def zero_node_def slice_of_def)
  moreover have "slen (offsets (?pg\<lparr>fileOffset := fo\<rparr>)) < 65536" for fo
    using big by (simp add: slice_of_def)
  ultimately have ins: "findInsPointForKey (?pg\<lparr>fileOffset := fo\<rparr>) k
      = Inr (ins_point (node_keys (?pg\<lparr>fileOffset := fo\<rparr>)) k)" for fo k
    by (intro findInsPointForKey_correct)
  show ?thesis
    using r int full split ins
    by (simp add: link_internal_def isFull_def Let_def alloc_def btree_add_def cache_add_def
          setFileOffsetForNode_def nth_append)
qed

text \<open>The child that serves a key, with its place among the separators.\<close>

lemma int_root_child:
  assumes inv: "int_root_inv base b r" and cov: "fst (hd (int_seps (heap b ! r))) \<le> key"
  defines "cs \<equiv> int_seps (heap b ! r)" and "fo \<equiv> child_fo (int_seps (heap b ! r)) key"
  obtains xs s ys a where "cs = xs @ (s, fo) # ys" and "s \<le> key" and "below (next_sep ys None) key"
    and "cache_fetch b fo = Some a" and "a < length (heap b)" and "a \<noteq> r"
    and "fileOffset (heap b ! a) = fo" and "fo < nextFreeOffset b"
    and "leaf_inv s (next_sep ys None) (heap b ! a)"
    and "slen (offsets (heap b ! a)) < maxLeafNodeCells"
    and "length (leafCell (heap b ! a)) \<le> slen (offsets (heap b ! a)) + 5 * slen (offsets (heap b ! r))"
proof -
  have I: "sorted_wrt (<) (map fst cs)" "kids_ok b r (slen (offsets (heap b ! r))) cs None" "cs \<noteq> []"
    using inv by (auto simp: int_root_inv_def Let_def cs_def int_seps_def)
  have "fst (hd cs) \<le> key" using cov by (simp add: cs_def)
  then obtain xs s ys where d: "cs = xs @ (s, fo) # ys" "s \<le> key" "below (next_sep ys None) key"
    unfolding fo_def cs_def [symmetric] by (rule child_fo_split [OF I(1,3)])
  from I(2) d(1) have "kid_ok b r (slen (offsets (heap b ! r))) s (next_sep ys None) fo"
    by (simp add: kids_ok_append)
  then obtain a where a: "cache_fetch b fo = Some a \<and> a < length (heap b) \<and> a \<noteq> r
     \<and> fileOffset (heap b ! a) = fo \<and> fo < nextFreeOffset b \<and> leaf_inv s (next_sep ys None) (heap b ! a)
     \<and> slen (offsets (heap b ! a)) < maxLeafNodeCells
     \<and> length (leafCell (heap b ! a)) \<le> slen (offsets (heap b ! a)) + 5 * slen (offsets (heap b ! r))"
    unfolding kid_ok_def by blast
  show ?thesis by (rule that [OF d, of a]) (use a in simp_all)
qed

lemma page_store:
  assumes "fileOffset (heap b ! a) = fo" and "a < length (heap b)" and "cache_fetch b fo = Some a"
    and "cache_fetch b fo' = Some a'" and "fileOffset (heap b ! a') = fo'"
  shows "heap (store_node b a n') ! a' = (if fo' = fo then n' else heap b ! a')"
proof (cases "fo' = fo")
  case True
  then have "a' = a" using assms(3,4) by simp
  then show ?thesis using True assms(2) by simp
next
  case False
  then have "a' \<noteq> a" using assms(1,5) by blast
  then show ?thesis using False by simp
qed

lemma int_store:
  assumes inv: "int_root_inv base b r" and cs: "int_seps (heap b ! r) = xs @ (s, fo) # ys"
    and a: "cache_fetch b fo = Some a" "a < length (heap b)" "a \<noteq> r" "fileOffset (heap b ! a) = fo"
      "fo < nextFreeOffset b"
    and n': "leaf_inv s (next_sep ys None) n'" "slen (offsets n') < maxLeafNodeCells" "fileOffset n' = fo"
      "length (leafCell n') \<le> slen (offsets n') + 5 * slen (offsets (heap b ! r))"
  shows "int_root_inv base (store_node b a n') r"
proof -
  let ?m = "slen (offsets (heap b ! r))"
  have I: "distinct (map snd (int_seps (heap b ! r)))" "kids_ok b r ?m (int_seps (heap b ! r)) None"
    using inv by (auto simp: int_root_inv_def Let_def)
  have frame: "kids_ok (store_node b a n') r ?m cs' hi"
    if "kids_ok b r ?m cs' hi" "fo \<notin> snd ` set cs'" for cs' hi
  proof (rule kids_ok_frame [OF that(1)])
    fix s' fo' a' assume m: "(s', fo') \<in> set cs'" "cache_fetch b fo' = Some a'" "a' \<noteq> r"
      "fileOffset (heap b ! a') = fo'"
    have "fo' \<noteq> fo" using m(1) that(2) by force
    then have "a' \<noteq> a" using m(4) a(4) by auto
    with m show "cache_fetch (store_node b a n') fo' = Some a' \<and> heap (store_node b a n') ! a' = heap b ! a' \<and> a' \<noteq> r"
      by simp
  qed simp_all
  have kid: "kid_ok (store_node b a n') r ?m s (next_sep ys None) fo"
    using a n' by (auto simp: kid_ok_def)
  have "fo \<notin> snd ` set xs" "fo \<notin> snd ` set ys" using I(1) cs by auto
  then have "kids_ok (store_node b a n') r ?m (int_seps (heap b ! r)) None"
    using I(2) frame kid unfolding cs by (simp add: kids_ok_append)
  then show ?thesis using inv a(3) by (simp add: int_root_inv_def Let_def)
qed

lemma int_store_routed:
  assumes inv: "int_root_inv base b r" and r: "root b = Some r" "r < length (heap b)"
    and a: "cache_fetch b (child_fo (int_seps (heap b ! r)) key) = Some a" "a < length (heap b)" "a \<noteq> r"
      "fileOffset (heap b ! a) = child_fo (int_seps (heap b ! r)) key"
    and n': "leaf_lookup n' = (leaf_lookup (heap b ! a))(key \<mapsto> v)"
  shows "routed (store_node b a n') = (routed b)(key \<mapsto> v)"
proof
  fix k
  let ?cs = "int_seps (heap b ! r)"
  have int: "\<not> isLeaf (heap b ! r)" and ne: "?cs \<noteq> []"
    and kids: "kids_ok b r (slen (offsets (heap b ! r))) ?cs None"
    using inv by (auto simp: int_root_inv_def Let_def int_shape_def int_seps_def)
  obtain a' where a': "cache_fetch b (child_fo ?cs k) = Some a'" "fileOffset (heap b ! a') = child_fo ?cs k"
    using kids_ok_mem [OF kids child_fo_mem [OF ne]] unfolding kid_ok_def by blast
  have "page (store_node b a n') (child_fo ?cs k)
      = (if child_fo ?cs k = child_fo ?cs key then n' else page b (child_fo ?cs k))"
    using page_store [OF a(4,2,1) a'] a' by (simp add: page_def)
  moreover have "page b (child_fo ?cs key) = heap b ! a" using a by (simp add: page_def)
  ultimately show "routed (store_node b a n') k = ((routed b)(key \<mapsto> v)) k"
    using int r a(3) n' by (auto simp: routed_def leaf_for_def root_node_def)
qed

lemma child_fo_below:
  assumes sorted: "sorted_wrt (<) (map fst cs)" and dist: "distinct (map snd cs)"
    and cs: "cs = xs @ (s, fo) # ys" and here: "child_fo cs k = fo"
  shows "below (next_sep ys None) k"
proof (cases "fst (hd cs) \<le> k")
  case True
  have "cs \<noteq> []" using cs by simp
  with sorted True obtain xs' s' ys' where d: "cs = xs' @ (s', fo) # ys'" "below (next_sep ys' None) k"
    using child_fo_split [of cs k] here by metis
  have "inj_on snd (set cs)" "distinct cs" using dist by (simp_all add: distinct_map)
  moreover have "(s, fo) \<in> set cs" using cs by simp
  moreover have "(s', fo) \<in> set cs" using d(1) by simp
  ultimately have "(s', fo) = (s, fo)" by (metis inj_onD snd_conv)
  with \<open>distinct cs\<close> cs d(1) have "ys' = ys"
    using append_Cons_eq_iff [of "(s, fo)" xs ys xs' ys'] by simp
  with d(2) show ?thesis by simp
next
  case False
  show ?thesis
  proof (cases ys)
    case (Cons y ys')
    have "hd cs \<in> insert (s, fo) (set xs)" using cs by (cases xs) auto
    moreover have "\<forall>x \<in> insert (s, fo) (set xs). fst x < fst y"
      using sorted cs Cons by (auto simp: sorted_wrt_append)
    ultimately have "k < fst y" using False by (meson less_trans not_le)
    then show ?thesis using Cons by (cases y) (simp add: below_def)
  qed (simp add: below_def)
qed

text \<open>The state after a leaf below the root was split and the new page linked.\<close>

definition split_state :: "'a btree_scheme \<Rightarrow> nat \<Rightarrow> node \<Rightarrow> node \<Rightarrow> nat \<Rightarrow> node \<Rightarrow> 'a btree_scheme" where
  "split_state b a n' pg r R' = store_node (store_node (grow b a n' pg) r R') a (markDirty n')"

lemma split_state_simps:
  assumes "a < length (heap b)" and "r < length (heap b)" and "a \<noteq> r"
    and "nextFreeOffset b + pageSize < 2 ^ 63" and "fo < 2 ^ 63"
  shows "length (heap (split_state b a n' pg r R')) = Suc (length (heap b))"
    "heap (split_state b a n' pg r R') ! a = markDirty n'"
    "heap (split_state b a n' pg r R') ! r = R'"
    "heap (split_state b a n' pg r R') ! length (heap b) = pg\<lparr>fileOffset := nextFreeOffset b\<rparr>"
    "a' < length (heap b) \<Longrightarrow> a' \<noteq> a \<Longrightarrow> a' \<noteq> r \<Longrightarrow> heap (split_state b a n' pg r R') ! a' = heap b ! a'"
    "cache_fetch (split_state b a n' pg r R') fo
       = (if fo = nextFreeOffset b then Some (length (heap b)) else cache_fetch b fo)"
    "nextFreeOffset (split_state b a n' pg r R') = nextFreeOffset b + pageSize"
    "root (split_state b a n' pg r R') = root b"
proof -
  have "cache_key fo = cache_key (nextFreeOffset b) \<longleftrightarrow> fo = nextFreeOffset b"
    using assms(4,5) by (simp add: cache_key_id)
  moreover have "u64 (nextFreeOffset b + pageSize) = nextFreeOffset b + pageSize"
    using assms(4) by (simp add: u64_id)
  ultimately show "cache_fetch (split_state b a n' pg r R') fo
       = (if fo = nextFreeOffset b then Some (length (heap b)) else cache_fetch b fo)"
    "nextFreeOffset (split_state b a n' pg r R') = nextFreeOffset b + pageSize"
    by (simp_all add: split_state_def grow_simps)
qed (use assms in \<open>auto simp: split_state_def grow_simps nth_append nth_list_update\<close>)

lemma int_split_inv:
  assumes inv: "int_root_inv base b r" and r: "r < length (heap b)"
    and cs: "int_seps (heap b ! r) = xs @ (s, fo) # ys"
    and a: "cache_fetch b fo = Some a" "a < length (heap b)" "a \<noteq> r" "fileOffset (heap b ! a) = fo"
      "fo < nextFreeOffset b"
    and ends: "nextFreeOffset b + pageSize < 2 ^ 63"
    and n': "leaf_inv s (Some sep) n'" "slen (offsets n') = 4" "fileOffset n' = fo"
      "length (leafCell n') \<le> 4 + 5 * Suc (slen (offsets (heap b ! r)))"
    and pg: "leaf_inv sep (next_sep ys None) pg" "slen (offsets pg) = 5" "length (leafCell pg) = 5"
    and sep: "s < sep" "below (next_sep ys None) sep"
    and R': "int_shape R'" "int_seps R' = xs @ (s, fo) # (sep, nextFreeOffset b) # ys"
      "hd (elems (offsets R')) = 0"
  shows "int_root_inv base (split_state b a n' pg r R') r"
proof -
  let ?m = "slen (offsets (heap b ! r))" and ?b = "split_state b a n' pg r R'"
  let ?cs = "int_seps (heap b ! r)" and ?nf = "nextFreeOffset b"
  note S = split_state_simps [OF a(2) r a(3) ends, where n' = n' and pg = pg and R' = R']
  have I: "distinct (map snd ?cs)" "kids_ok b r ?m ?cs None" "sorted_wrt (<) (map fst ?cs)"
    "?nf = base + pageSize * (?m + 1)" "2 \<le> ?m"
    using inv by (auto simp: int_root_inv_def Let_def)
  have m: "slen (offsets R') = Suc ?m"
    using arg_cong [OF R'(2), of length] arg_cong [OF cs, of length] by (simp add: int_seps_def)
  have lt: "fo' < ?nf" if "fo' \<in> snd ` set ?cs" for fo'
    using kids_ok_mem [OF I(2) that] by (auto simp: kid_ok_def)
  have frame: "kids_ok ?b r (Suc ?m) cs' hi"
    if "kids_ok b r ?m cs' hi" "fo \<notin> snd ` set cs'" "snd ` set cs' \<subseteq> snd ` set ?cs" for cs' hi
  proof (rule kids_ok_frame [OF that(1)])
    fix s' fo' a' assume q: "(s', fo') \<in> set cs'" "cache_fetch b fo' = Some a'" "a' \<noteq> r" "a' < length (heap b)"
      "fileOffset (heap b ! a') = fo'"
    have "fo' \<noteq> fo" using q(1) that(2) by force
    then have "a' \<noteq> a" using q(5) a(4) by auto
    moreover have "fo' < ?nf" using q(1) that(3) lt by force
    ultimately show "cache_fetch ?b fo' = Some a' \<and> heap ?b ! a' = heap b ! a' \<and> a' \<noteq> r"
      using q S(5,6) ends by simp
  qed (use S(1,7) [of 0] in simp_all)
  have "fo \<notin> snd ` set xs" "fo \<notin> snd ` set ys" using I(1) cs by auto
  moreover have "kids_ok b r ?m xs (Some s)" "kids_ok b r ?m ys None"
    using I(2) by (simp_all add: cs kids_ok_append)
  ultimately have "kids_ok ?b r (Suc ?m) xs (Some s)" "kids_ok ?b r (Suc ?m) ys None"
    using frame [of xs "Some s"] frame [of ys None] by (auto simp: cs)
  moreover have "kid_ok ?b r (Suc ?m) s (Some sep) fo"
    unfolding kid_ok_def using S(1-3,6,7) [of fo] a n' ends
    by (intro exI [of _ a]) (simp add: markDirty_def maxLeafNodeCells_def)
  moreover have "kid_ok ?b r (Suc ?m) sep (next_sep ys None) ?nf"
    unfolding kid_ok_def using S(1,4,6,7) [of ?nf] r pg ends
    by (intro exI [of _ "length (heap b)"]) (simp add: maxLeafNodeCells_def pageSize_def)
  ultimately have "kids_ok ?b r (Suc ?m) (int_seps R') None"
    by (simp add: R'(2) kids_ok_append)
  moreover have "sorted_wrt (<) (map fst (int_seps R'))"
    unfolding R'(2) using I(3) sep by (intro ins_point_after(2)) (simp_all add: cs)
  moreover have "distinct (map snd (int_seps R'))"
    using I(1) lt unfolding R'(2) cs by auto
  ultimately show ?thesis
    using S(3,7) [of 0] R'(1,3) m I(4,5) by (simp add: int_root_inv_def Let_def)
qed

lemma int_split_routed:
  assumes inv: "int_root_inv base b r" and r: "root b = Some r" "r < length (heap b)"
    and cs: "int_seps (heap b ! r) = xs @ (s, fo) # ys" and key: "child_fo (int_seps (heap b ! r)) key = fo"
    and a: "cache_fetch b fo = Some a" "a < length (heap b)" "a \<noteq> r" "fileOffset (heap b ! a) = fo"
    and ends: "nextFreeOffset b + pageSize < 2 ^ 63"
    and sep: "s < sep" "below (next_sep ys None) sep"
    and n': "leaf_lookup n' = (leaf_lookup (heap b ! a))(key \<mapsto> v)"
    and pg: "\<And>k. sep \<le> k \<Longrightarrow> below (next_sep ys None) k \<Longrightarrow>
       leaf_lookup pg k = ((leaf_lookup (heap b ! a))(key \<mapsto> v)) k"
    and R': "int_shape R'" "int_seps R' = xs @ (s, fo) # (sep, nextFreeOffset b) # ys"
  shows "routed (split_state b a n' pg r R') = (routed b)(key \<mapsto> v)"
proof
  fix k
  let ?b = "split_state b a n' pg r R'"
  let ?cs = "int_seps (heap b ! r)" and ?nf = "nextFreeOffset b"
  note S = split_state_simps [OF a(2) r(2) a(3) ends, where n' = n' and pg = pg and R' = R']
  have int: "\<not> isLeaf (heap b ! r)" "\<not> isLeaf R'" and ne: "?cs \<noteq> []"
    and kids: "kids_ok b r (slen (offsets (heap b ! r))) ?cs None"
    and sorted: "sorted_wrt (<) (map fst ?cs)" and dist: "distinct (map snd ?cs)"
    using inv R'(1) by (auto simp: int_root_inv_def Let_def int_shape_def int_seps_def)
  obtain a' where a': "cache_fetch b (child_fo ?cs k) = Some a'" "fileOffset (heap b ! a') = child_fo ?cs k"
    "a' < length (heap b)" "a' \<noteq> r" "child_fo ?cs k < ?nf"
    using kids_ok_mem [OF kids child_fo_mem [OF ne]] unfolding kid_ok_def by blast
  have ins: "child_fo (int_seps R') k = (if sep \<le> k \<and> child_fo ?cs k = fo then ?nf else child_fo ?cs k)"
    unfolding R'(2) cs using sorted dist sep cs ins_point_after(2) [of xs s fo ys sep]
    by (intro child_fo_insert) simp_all
  have cont: "routed ?b k = leaf_lookup (page ?b (child_fo (int_seps R') k)) k"
    using int S(3,8) [of 0] r by (simp add: routed_def leaf_for_def root_node_def)
  have cont0: "routed b k = leaf_lookup (heap b ! a') k"
    using int r a'(1) by (simp add: routed_def leaf_for_def root_node_def page_def)
  have goal: "((routed b)(key \<mapsto> v)) k = ((leaf_lookup (heap b ! a'))(key \<mapsto> v)) k"
    by (simp add: cont0)
  show "routed ?b k = ((routed b)(key \<mapsto> v)) k"
  proof (cases "child_fo ?cs k = fo")
    case True
    then have "a' = a" using a' a(1) by simp
    moreover have "below (next_sep ys None) k" using child_fo_below [OF sorted dist cs True] .
    moreover have "page ?b ?nf = pg\<lparr>fileOffset := ?nf\<rparr>" "page ?b fo = markDirty n'"
      using S(2,4,6) ends True a a'(5) by (simp_all add: page_def)
    ultimately show ?thesis
      using True ins pg [of k] n' unfolding cont goal
      by (cases "sep \<le> k") (auto simp: markDirty_def)
  next
    case False
    then have "a' \<noteq> a" using a(4) a'(2) by auto
    moreover have "k \<noteq> key" using False key by auto
    ultimately show ?thesis
      using False ins S(5,6) ends a' unfolding cont goal by (simp add: page_def)
  qed
qed

text \<open>
  The one state in which an insertion fails: the root has all its children, the leaf for the key
  has room for no further cell, and the key is new.
\<close>

definition tree_full :: "'a btree_scheme \<Rightarrow> bytes \<Rightarrow> bool" where
  "tree_full b key \<longleftrightarrow> \<not> isLeaf (root_node b) \<and> slen (offsets (root_node b)) = maxInternalNodeCells
     \<and> contents b key = None \<and> Suc (slen (offsets (leaf_for b key))) = maxLeafNodeCells"

text \<open>What an insertion leaves alone: both files, and the root offset of the file's header.\<close>

definition files_same :: "'a btree_scheme \<Rightarrow> 'a btree_scheme \<Rightarrow> bool" where
  "files_same b b' \<longleftrightarrow> disk b' = disk b \<and> meta b' = meta b \<and> fs_rootOffset b' = fs_rootOffset b"

lemma grow_files [simp]:
  "disk (grow b a n' pg) = disk b" "meta (grow b a n' pg) = meta b"
  "fs_rootOffset (grow b a n' pg) = fs_rootOffset b"
  by (simp_all add: grow_def btree_add_def Let_def cache_add_def)

text \<open>The number of leaves of the tree.\<close>

definition leaves :: "'a btree_scheme \<Rightarrow> nat" where
  "leaves b = (if isLeaf (root_node b) then 1 else slen (offsets (root_node b)))"

definition routed_post :: "nat \<Rightarrow> 'a btree_scheme \<Rightarrow> bytes \<Rightarrow> bytes \<Rightarrow> 'a btree_scheme \<Rightarrow> bool" where
  "routed_post base b key v b' \<longleftrightarrow> tree_inv base b' \<and> routed b' = (routed b)(key \<mapsto> v) \<and> files_same b b' \<and> leaves b' \<le> Suc (leaves b)
     \<and> (\<forall>k k0. covers b k \<and> routed b' k0 \<noteq> None \<and> k0 \<le> k \<longrightarrow> covers b' k)"

lemma leaf_lookup_None: "leaf_lookup n key = None \<longleftrightarrow> findLeafCell n key = None"
  by (simp add: leaf_lookup_def)

text \<open>The place of a key below an internal root: its leaf at \<open>a\<close>, between the separators \<open>xs\<close> and \<open>ys\<close>.\<close>

definition child_at :: "nat \<Rightarrow> 'a btree_scheme \<Rightarrow> bytes \<Rightarrow> nat \<Rightarrow> (bytes \<times> nat) list \<Rightarrow> bytes \<Rightarrow> nat \<Rightarrow>
    (bytes \<times> nat) list \<Rightarrow> nat \<Rightarrow> bool" where
  "child_at base b key r xs s fo ys a \<longleftrightarrow> root b = Some r \<and> r < length (heap b) \<and> int_root_inv base b r
     \<and> slen (offsets (heap b ! r)) \<le> 290 \<and> base + 2 ^ 21 \<le> 2 ^ 63
     \<and> int_seps (heap b ! r) = xs @ (s, fo) # ys \<and> child_fo (int_seps (heap b ! r)) key = fo
     \<and> s \<le> key \<and> below (next_sep ys None) key
     \<and> cache_fetch b fo = Some a \<and> a < length (heap b) \<and> a \<noteq> r
     \<and> fileOffset (heap b ! a) = fo \<and> fo < nextFreeOffset b \<and> leaf_inv s (next_sep ys None) (heap b ! a)
     \<and> slen (offsets (heap b ! a)) < maxLeafNodeCells
     \<and> length (leafCell (heap b ! a)) \<le> slen (offsets (heap b ! a)) + 5 * slen (offsets (heap b ! r))"

lemma child_at_ex:
  assumes inv: "tree_inv base b" and int: "\<not> isLeaf (root_node b)" and cov: "covers b key"
  obtains r xs s fo ys a where "child_at base b key r xs s fo ys a"
proof -
  from inv int obtain r where r: "root b = Some r" "r < length (heap b)" and rn: "root_node b = heap b ! r"
    and I: "int_root_inv base b r" and m: "slen (offsets (heap b ! r)) \<le> 290"
    and base: "base + 2 ^ 21 \<le> 2 ^ 63"
    by (auto simp: tree_inv_def root_node_def maxInternalNodeCells_def)
  have c: "fst (hd (int_seps (heap b ! r))) \<le> key" using cov int by (simp add: covers_def rn)
  obtain xs s ys a where "int_seps (heap b ! r) = xs @ (s, child_fo (int_seps (heap b ! r)) key) # ys"
    "s \<le> key" "below (next_sep ys None) key"
    "cache_fetch b (child_fo (int_seps (heap b ! r)) key) = Some a" "a < length (heap b)" "a \<noteq> r"
    "fileOffset (heap b ! a) = child_fo (int_seps (heap b ! r)) key"
    "child_fo (int_seps (heap b ! r)) key < nextFreeOffset b"
    "leaf_inv s (next_sep ys None) (heap b ! a)" "slen (offsets (heap b ! a)) < maxLeafNodeCells"
    "length (leafCell (heap b ! a)) \<le> slen (offsets (heap b ! a)) + 5 * slen (offsets (heap b ! r))"
    by (rule int_root_child [OF I c])
  with r I m base have "child_at base b key r xs s (child_fo (int_seps (heap b ! r)) key) ys a"
    unfolding child_at_def by blast
  then show ?thesis by (rule that)
qed

lemma child_atD:
  assumes "child_at base b key r xs s fo ys a"
  shows "put b key v = Some (bindr (insertLeaf b (Some r) a key v) (\<lambda>b1. link_internal b1 None r))"
    and "leaf_for b key = heap b ! a" and "nextFreeOffset b + pageSize < 2 ^ 63"
    and "length (leafCell (heap b ! a)) < 65536" and "root_node b = heap b ! r" "\<not> isLeaf (heap b ! r)"
proof -
  have F: "root b = Some r" "r < length (heap b)" "int_root_inv base b r" "slen (offsets (heap b ! r)) \<le> 290"
    "base + 2 ^ 21 \<le> 2 ^ 63" "child_fo (int_seps (heap b ! r)) key = fo" "cache_fetch b fo = Some a"
    "a < length (heap b)" "leaf_inv s (next_sep ys None) (heap b ! a)" "slen (offsets (heap b ! a)) < maxLeafNodeCells"
    "length (leafCell (heap b ! a)) \<le> slen (offsets (heap b ! a)) + 5 * slen (offsets (heap b ! r))"
    using assms unfolding child_at_def by blast+
  have nf: "nextFreeOffset b = base + pageSize * (slen (offsets (heap b ! r)) + 1)"
    using F(3) by (simp add: int_root_inv_def Let_def)
  show int: "\<not> isLeaf (heap b ! r)" using F(3) by (simp add: int_root_inv_def Let_def int_shape_def)
  show "put b key v = Some (bindr (insertLeaf b (Some r) a key v) (\<lambda>b1. link_internal b1 None r))"
    using F leaf_invD(3) by (intro put_internal [OF F(3)]) simp_all
  show "nextFreeOffset b + pageSize < 2 ^ 63" using F(4,5) nf by (simp add: pageSize_def)
  show "length (leafCell (heap b ! a)) < 65536" using F(4,10,11) by (simp add: maxLeafNodeCells_def)
  show "root_node b = heap b ! r" using F(1) by (simp add: root_node_def)
  then show "leaf_for b key = heap b ! a" using F(6,7) int by (simp add: leaf_for_def page_def)
qed

lemma int_put_fit:
  assumes at: "child_at base b key r xs s fo ys a"
    and fits: "findLeafCell (heap b ! a) key \<noteq> None \<or> Suc (slen (offsets (heap b ! a))) < maxLeafNodeCells"
  shows "\<exists>b'. put b key v = Some (Inr b') \<and> routed_post base b key v b'"
proof -
  note D = child_atD [OF at]
  have r: "root b = Some r" "r < length (heap b)" and I: "int_root_inv base b r"
    and m: "slen (offsets (heap b ! r)) \<le> 290" "base + 2 ^ 21 \<le> 2 ^ 63"
    and cs: "int_seps (heap b ! r) = xs @ (s, fo) # ys" "child_fo (int_seps (heap b ! r)) key = fo"
      "s \<le> key" "below (next_sep ys None) key"
    and a: "cache_fetch b fo = Some a" "a < length (heap b)" "a \<noteq> r" "fileOffset (heap b ! a) = fo"
      "fo < nextFreeOffset b"
    and leaf: "leaf_inv s (next_sep ys None) (heap b ! a)" "slen (offsets (heap b ! a)) < maxLeafNodeCells"
      "length (leafCell (heap b ! a)) \<le> slen (offsets (heap b ! a)) + 5 * slen (offsets (heap b ! r))"
    using at unfolding child_at_def by blast+
  obtain n' where n': "insertLeaf b (Some r) a key v = Inr (store_node b a n')" "leaf_inv s (next_sep ys None) n'"
    "leaf_lookup n' = (leaf_lookup (heap b ! a))(key \<mapsto> v)" "slen (offsets n') < maxLeafNodeCells"
    "length (leafCell n') + slen (offsets (heap b ! a)) = length (leafCell (heap b ! a)) + slen (offsets n')"
    "fileOffset n' = fileOffset (heap b ! a)"
    by (rule insertLeaf_nosplit [OF a(2) leaf(1,2) D(4) cs(3,4) fits])
  define b' where "b' = store_node b a n'"
  have inv': "int_root_inv base b' r"
    unfolding b'_def using I cs(1) a n' leaf(3) by (intro int_store) simp_all
  have "routed b' = (routed b)(key \<mapsto> v)"
    unfolding b'_def using a cs(2) by (intro int_store_routed [OF I r] n'(3)) simp_all
  moreover have "root_node b' = heap b ! r" using a(3) r by (simp add: b'_def root_node_def)
  moreover have "put b key v = Some (Inr b')"
    using D(1,6) n'(1) a(3) r m(1) link_internal_id [of r b' None]
    by (simp add: b'_def maxInternalNodeCells_def)
  ultimately show ?thesis
    using inv' r m a(3) D(5,6)
    by (auto simp: routed_post_def tree_inv_def covers_def files_same_def leaves_def b'_def maxInternalNodeCells_def)
qed

lemma int_put_split:
  assumes at: "child_at base b key r xs s fo ys a" and absent: "findLeafCell (heap b ! a) key = None"
    and full: "Suc (slen (offsets (heap b ! a))) = maxLeafNodeCells"
  obtains b' where "put b key v = Some (link_internal b' None r)" and "int_root_inv base b' r"
    and "routed b' = (routed b)(key \<mapsto> v)" and "root b' = Some r" and "r < length (heap b')"
    and "slen (offsets (heap b' ! r)) = Suc (slen (offsets (heap b ! r)))"
    and "hd (int_seps (heap b' ! r)) = hd (int_seps (heap b ! r))" and "files_same b b'"
proof -
  note D = child_atD [OF at]
  have r: "root b = Some r" "r < length (heap b)" and I: "int_root_inv base b r"
    and m0: "slen (offsets (heap b ! r)) \<le> 290"
    and cs: "int_seps (heap b ! r) = xs @ (s, fo) # ys" "child_fo (int_seps (heap b ! r)) key = fo"
      "s \<le> key" "below (next_sep ys None) key"
    and a: "cache_fetch b fo = Some a" "a < length (heap b)" "a \<noteq> r" "fileOffset (heap b ! a) = fo"
      "fo < nextFreeOffset b"
    and leaf: "leaf_inv s (next_sep ys None) (heap b ! a)"
      "length (leafCell (heap b ! a)) \<le> slen (offsets (heap b ! a)) + 5 * slen (offsets (heap b ! r))"
    using at unfolding child_at_def by blast+
  have m: "slen (offsets (heap b ! r)) < 65535" using m0 by simp
  have J: "sorted_wrt (<) (map fst (int_seps (heap b ! r)))" "int_shape (heap b ! r)"
    "hd (elems (offsets (heap b ! r))) = 0"
    using I by (auto simp: int_root_inv_def Let_def)
  obtain n' pg sep where ins: "\<forall>parent. insertLeaf b parent a key v =
       bindr (link_sibling (grow b a n' pg) parent n' (nextFreeOffset b) sep) (\<lambda>b5.
       bindr (deref b5 (Some a)) (\<lambda>n4. Inr (store_node b5 a (markDirty n4))))"
    and n': "leaf_inv s (Some sep) n'" "leaf_inv sep (next_sep ys None) pg" "s < sep"
      "below (next_sep ys None) sep" "slen (offsets n') = 4" "slen (offsets pg) = 5"
      "length (leafCell pg) = 5" "length (leafCell n') = Suc (length (leafCell (heap b ! a)))"
      "fileOffset n' = fileOffset (heap b ! a)" "leaf_lookup n' = (leaf_lookup (heap b ! a))(key \<mapsto> v)"
    and lk: "\<forall>k. sep \<le> k \<longrightarrow> below (next_sep ys None) k \<longrightarrow>
       leaf_lookup pg k = ((leaf_lookup (heap b ! a))(key \<mapsto> v)) k"
    by (rule insertLeaf_split [OF a(2) leaf(1) full D(4) cs(3,4) absent, where v = v]) blast
  have gr: "r < length (heap (grow b a n' pg))" "heap b ! r = heap (grow b a n' pg) ! r"
    using r(2) a(3) by (simp_all add: grow_simps nth_append)
  obtain R' where R': "link_sibling (grow b a n' pg) (Some r) n' (nextFreeOffset b) sep
      = Inr (store_node (grow b a n' pg) r R')" "int_shape R'"
    "int_seps R' = xs @ (s, fo) # (sep, nextFreeOffset b) # ys"
    "hd (elems (offsets R')) = hd (elems (offsets (heap b ! r)))"
    by (rule link_parent [OF gr J(2) cs(1) J(1) n'(3,4) m])
  define b' where "b' = split_state b a n' pg r R'"
  note S = split_state_simps [OF a(2) r(2) a(3) D(3), where n' = n' and pg = pg and R' = R', folded b'_def]
  have "int_root_inv base b' r"
    unfolding b'_def using cs(1) n' leaf(2) full R' J(3) a D(3)
    by (intro int_split_inv [OF I r(2)]) (simp_all add: maxLeafNodeCells_def)
  moreover have "routed b' = (routed b)(key \<mapsto> v)"
    unfolding b'_def using cs(1,2) n' R' a D(3) lk
    by (intro int_split_routed [OF I r]) simp_all
  moreover have "slen (offsets R') = Suc (slen (offsets (heap b ! r)))"
    using arg_cong [OF R'(3), of length] arg_cong [OF cs(1), of length] by (simp add: int_seps_def)
  moreover have "put b key v = Some (link_internal b' None r)"
    using D(1) ins R'(1) a(2,3) by (simp add: b'_def split_state_def grow_simps nth_append)
  moreover have "hd (int_seps R') = hd (int_seps (heap b ! r))" using R'(3) cs(1) by (cases xs) simp_all
  moreover have "files_same b b'" by (simp add: files_same_def b'_def split_state_def)
  ultimately show ?thesis using S(1,3,8) [of 0] r by (intro that [of b']) simp_all
qed

lemma int_put:
  assumes inv: "tree_inv base b" and int: "\<not> isLeaf (root_node b)" and cov: "covers b key"
  shows "if tree_full b key then put b key v = Some (Inl NilPanic)
    else \<exists>b'. put b key v = Some (Inr b') \<and> routed_post base b key v b'"
proof -
  obtain r xs s fo ys a where at: "child_at base b key r xs s fo ys a"
    by (rule child_at_ex [OF inv int cov])
  note D = child_atD [OF at]
  have m: "slen (offsets (heap b ! r)) \<le> 290" "base + 2 ^ 21 \<le> 2 ^ 63" "slen (offsets (heap b ! a)) < maxLeafNodeCells"
    using at unfolding child_at_def by blast+
  have full: "tree_full b key \<longleftrightarrow> slen (offsets (heap b ! r)) = 290 \<and> findLeafCell (heap b ! a) key = None
      \<and> Suc (slen (offsets (heap b ! a))) = maxLeafNodeCells"
    using D(2,5,6) contents_routed [OF inv] by (simp add: tree_full_def routed_def leaf_lookup_None maxInternalNodeCells_def)
  show ?thesis
  proof (cases "findLeafCell (heap b ! a) key \<noteq> None \<or> Suc (slen (offsets (heap b ! a))) < maxLeafNodeCells")
    case True
    with int_put_fit [OF at True, of v] full show ?thesis by auto
  next
    case False
    then have none: "findLeafCell (heap b ! a) key = None" "Suc (slen (offsets (heap b ! a))) = maxLeafNodeCells"
      using m(3) by auto
    obtain b' where b': "put b key v = Some (link_internal b' None r)" "int_root_inv base b' r"
      "routed b' = (routed b)(key \<mapsto> v)" "root b' = Some r" "r < length (heap b')"
      "slen (offsets (heap b' ! r)) = Suc (slen (offsets (heap b ! r)))"
      "hd (int_seps (heap b' ! r)) = hd (int_seps (heap b ! r))" "files_same b b'"
      by (rule int_put_split [OF at none])
    have R': "int_shape (heap b' ! r)" "sorted_wrt (<) (map fst (int_seps (heap b' ! r)))"
      "\<not> isLeaf (heap b' ! r)"
      using b'(2) by (auto simp: int_root_inv_def Let_def int_shape_def)
    show ?thesis
    proof (cases "slen (offsets (heap b ! r)) = 290")
      case True
      then have "link_internal b' None r = Inl NilPanic"
        using b'(5,6) R' by (intro link_internal_overflow) (simp_all add: maxInternalNodeCells_def)
      with True full none b'(1) show ?thesis by simp
    next
      case False
      then have "link_internal b' None r = Inr b'"
        using b'(5,6) R' m(1) by (intro link_internal_id) (simp_all add: maxInternalNodeCells_def)
      moreover have "routed_post base b key v b'"
        using False b' R' D(5,6) m
        by (auto simp: routed_post_def tree_inv_def covers_def leaves_def root_node_def [of b'] maxInternalNodeCells_def)
      ultimately show ?thesis using False full b'(1) by simp
    qed
  qed
qed

end
