(* ===== verification/Tree_Map.thy ===== *)
theory Tree_Map
  imports BPlus_Correct
begin

text \<open>
  Insertion into a tree whose root is a leaf, the step that creates the internal root, and from
  both cases the contract of the tree as a map. The contract is an interface of its own, the
  locale \<open>map_store\<close>; its facts about sequences of insertions hold for every store that
  meets it, and the tree is an interpretation.
\<close>

section \<open>A leaf as the root\<close>

lemma bytes_Nil_le [simp]: "[] \<le> (k :: bytes)"
  by (cases k) auto

lemma leaf_put_fit:
  assumes inv: "tree_inv base b" and leaf: "isLeaf (root_node b)"
    and fits: "findLeafCell (root_node b) key \<noteq> None \<or> Suc (slen (offsets (root_node b))) < maxLeafNodeCells"
  shows "\<exists>b'. put b key v = Some (Inr b') \<and> routed_post base b key v b'"
proof -
  from inv leaf obtain r where r: "root b = Some r" "r < length (heap b)" and rn: "root_node b = heap b ! r"
    and I: "leaf_root_inv base b r" and base: "base + 2 ^ 21 \<le> 2 ^ 63"
    by (auto simp: tree_inv_def root_node_def)
  have J: "leaf_inv [] None (heap b ! r)" "slen (offsets (heap b ! r)) < maxLeafNodeCells"
    "length (leafCell (heap b ! r)) < 65536"
    using I by (auto simp: leaf_root_inv_def maxLeafNodeCells_def)
  obtain n' where n': "insertLeaf b None r key v = Inr (store_node b r n')" "leaf_inv [] None n'"
    "leaf_lookup n' = (leaf_lookup (heap b ! r))(key \<mapsto> v)" "slen (offsets n') < maxLeafNodeCells"
    "length (leafCell n') + slen (offsets (heap b ! r)) = length (leafCell (heap b ! r)) + slen (offsets n')"
    "fileOffset n' = fileOffset (heap b ! r)"
    by (rule insertLeaf_nosplit [OF r(2) J _ _ fits [unfolded rn]]) (simp_all add: below_def)
  define b' where "b' = store_node b r n'"
  have isl: "isLeaf n'" using leaf_invD(3) [OF n'(2)] .
  have "put b key v = Some (Inr b')"
    using n'(1) r leaf by (simp add: put_def getRootPage_def rn b'_def)
  moreover have "leaf_root_inv base b' r"
    using I n' r by (simp add: leaf_root_inv_def b'_def)
  moreover have "root_node b' = n'" "root b' = Some r" using r by (simp_all add: root_node_def b'_def)
  ultimately show ?thesis
    using isl base r n'(3) leaf rn
    by (auto simp: routed_post_def tree_inv_def covers_def routed_def leaf_for_def b'_def files_same_def
          leaves_def fun_eq_iff)
qed

text \<open>The state after the root leaf was split: the two leaves and the new root above them.\<close>

definition new_root :: "nat \<Rightarrow> bytes \<Rightarrow> nat \<Rightarrow> bytes \<Rightarrow> node" where
  "new_root fo0 kf fo1 sep = appendInternalCell (appendInternalCell zero_node fo0 kf) fo1 sep"

definition root_split_state :: "'a btree_scheme \<Rightarrow> nat \<Rightarrow> node \<Rightarrow> node \<Rightarrow> bytes \<Rightarrow> bytes \<Rightarrow> 'a btree_scheme" where
  "root_split_state b r n' pg kf sep =
     (let (pa, b1) = alloc (grow b r n' pg) (new_root (fileOffset n') kf (nextFreeOffset b) sep)
      in store_node (setRootPage b1 pa) r (markDirty n'))"

lemma new_root_simps:
  "int_shape (new_root fo0 kf fo1 sep)" "int_seps (new_root fo0 kf fo1 sep) = [(kf, fo0), (sep, fo1)]"
  "elems (offsets (new_root fo0 kf fo1 sep)) = [0, 1]" "\<not> isLeaf (new_root fo0 kf fo1 sep)"
  by (simp_all add: new_root_def appendInternalCell_def zero_node_def slice_of_def sappend_def u16_def
        int_shape_def int_seps_def)

lemma root_split_simps:
  fixes n' pg :: node and kf sep :: bytes
  assumes "r < length (heap b)" and "nextFreeOffset b + 2 * pageSize < 2 ^ 63" and "fo < 2 ^ 63"
  defines "b' \<equiv> root_split_state b r n' pg kf sep" and "L \<equiv> length (heap b)" and "nf \<equiv> nextFreeOffset b"
  shows "heap b' = (heap b)[r := markDirty n'] @ [pg\<lparr>fileOffset := nf\<rparr>,
      (new_root (fileOffset n') kf nf sep)\<lparr>fileOffset := nf + pageSize\<rparr>]"
    "cache_fetch b' fo = (if fo = nf + pageSize then Some (Suc L) else if fo = nf then Some L else cache_fetch b fo)"
    "nextFreeOffset b' = nf + 2 * pageSize" "root b' = Some (Suc L)"
proof -
  have u: "u64 (nf + pageSize) = nf + pageSize" "u64 (nf + 2 * pageSize) = nf + 2 * pageSize"
    using assms(2) by (simp_all add: u64_id nf_def)
  have k: "cache_key fo = cache_key x \<longleftrightarrow> fo = x" if "x < 2 ^ 63" for x
    using that assms(3) by (simp add: cache_key_id)
  note defs = b'_def root_split_state_def alloc_def Let_def setRootPage_def btree_add_def cache_add_def
    setFileOffsetForNode_def store_node_def grow_simps
  show "heap b' = (heap b)[r := markDirty n'] @ [pg\<lparr>fileOffset := nf\<rparr>,
      (new_root (fileOffset n') kf nf sep)\<lparr>fileOffset := nf + pageSize\<rparr>]"
    using assms(1) u by (simp add: defs L_def nf_def list_update_append nth_append)
  show "nextFreeOffset b' = nf + 2 * pageSize" using u by (simp add: defs nf_def [symmetric] mult_2 add.assoc)
  show "root b' = Some (Suc L)" by (simp add: defs L_def)
  have "cache_fetch b' fo = (if cache_key fo = cache_key (nf + pageSize) then Some (Suc L)
      else cache_fetch (grow b r n' pg) fo)"
    using u by (simp add: defs L_def nf_def [symmetric] cache_fetch_def update_conv' nth_append)
  then show "cache_fetch b' fo = (if fo = nf + pageSize then Some (Suc L) else if fo = nf then Some L else cache_fetch b fo)"
    using k assms(2) by (simp add: grow_simps nf_def L_def)
qed

lemma child_fo_two: "kf < sep \<Longrightarrow> child_fo [(kf, fo0), (sep, fo1)] k = (if sep \<le> k then fo1 else fo0)"
  by (auto simp: child_fo_def)

lemma root_split_inv:
  assumes I: "leaf_root_inv base b r" and r: "r < length (heap b)" and base: "base + 2 ^ 21 \<le> 2 ^ 63"
    and n': "leaf_inv kf (Some sep) n'" "leaf_inv sep None pg" "kf < sep" "slen (offsets n') = 4"
      "slen (offsets pg) = 5" "length (leafCell pg) = 5" "length (leafCell n') = 9" "fileOffset n' = base"
  shows "int_root_inv base (root_split_state b r n' pg kf sep) (Suc (length (heap b)))"
proof -
  let ?b = "root_split_state b r n' pg kf sep" and ?L = "length (heap b)" and ?nf = "nextFreeOffset b"
  have nf: "?nf = base + pageSize" "cache_fetch b base = Some r" using I by (simp_all add: leaf_root_inv_def)
  have ends: "?nf + 2 * pageSize < 2 ^ 63" using base nf by (simp add: pageSize_def)
  note S = root_split_simps [OF r ends, where n' = n' and pg = pg and kf = kf and sep = sep]
  have R: "heap ?b ! Suc ?L = (new_root base kf ?nf sep)\<lparr>fileOffset := ?nf + pageSize\<rparr>"
    using S(1) [of 0] n'(8) by (simp add: nth_append)
  have "kid_ok ?b (Suc ?L) 2 kf (Some sep) base"
    unfolding kid_ok_def using S [of base] nf r n' base
    by (intro exI [of _ r]) (simp add: nth_append markDirty_def maxLeafNodeCells_def pageSize_def)
  moreover have "kid_ok ?b (Suc ?L) 2 sep None ?nf"
    unfolding kid_ok_def using S [of ?nf] nf r n' base
    by (intro exI [of _ ?L]) (simp add: nth_append maxLeafNodeCells_def pageSize_def)
  moreover have seps: "int_seps (heap ?b ! Suc ?L) = [(kf, base), (sep, ?nf)]"
    and "int_shape (heap ?b ! Suc ?L)" and offs: "elems (offsets (heap ?b ! Suc ?L)) = [0, 1]"
    using new_root_simps [of base kf ?nf sep] by (simp_all add: R int_seps_def int_shape_def)
  ultimately show ?thesis
    using n'(3) nf S(3) [of 0] by (simp add: int_root_inv_def Let_def pageSize_def numeral_2_eq_2)
qed

lemma root_split_routed:
  assumes I: "leaf_root_inv base b r" and r: "root b = Some r" "r < length (heap b)"
    and base: "base + 2 ^ 21 \<le> 2 ^ 63" and leaf: "isLeaf (heap b ! r)"
    and n': "kf < sep" "fileOffset n' = base" "leaf_lookup n' = (leaf_lookup (heap b ! r))(key \<mapsto> v)"
      "\<forall>k. sep \<le> k \<longrightarrow> leaf_lookup pg k = ((leaf_lookup (heap b ! r))(key \<mapsto> v)) k"
  shows "routed (root_split_state b r n' pg kf sep) = (routed b)(key \<mapsto> v)"
proof
  fix k
  let ?b = "root_split_state b r n' pg kf sep" and ?L = "length (heap b)" and ?nf = "nextFreeOffset b"
  have nf: "?nf = base + pageSize" "cache_fetch b base = Some r" using I by (simp_all add: leaf_root_inv_def)
  have ends: "?nf + 2 * pageSize < 2 ^ 63" using base nf by (simp add: pageSize_def)
  note S = root_split_simps [OF r(2) ends, where n' = n' and pg = pg and kf = kf and sep = sep]
  have root: "root_node ?b = (new_root base kf ?nf sep)\<lparr>fileOffset := ?nf + pageSize\<rparr>"
    using S(1,4) [of 0] n'(2) by (simp add: nth_append root_node_def)
  have "page ?b base = markDirty n'"
    using S(1,2) [of base] nf r base by (simp add: page_def nth_append pageSize_def)
  moreover have "page ?b ?nf = pg\<lparr>fileOffset := ?nf\<rparr>"
    using S(1,2) [of ?nf] nf base by (simp add: page_def nth_append pageSize_def)
  moreover have "leaf_for ?b k = page ?b (if sep \<le> k then ?nf else base)"
    using new_root_simps [of base kf ?nf sep] child_fo_two [OF n'(1)]
    by (simp add: leaf_for_def root int_seps_def)
  moreover have "routed b k = leaf_lookup (heap b ! r) k"
    using r leaf by (simp add: routed_def leaf_for_def root_node_def)
  ultimately show "routed ?b k = ((routed b)(key \<mapsto> v)) k"
    using n'(3,4) by (cases "sep \<le> k") (simp_all add: routed_def [of ?b] markDirty_def)
qed

lemma leaf_lookup_first:
  assumes inv: "leaf_inv lo (Some sep) n" and k: "leaf_lookup n k \<noteq> None" "k < sep"
  shows "leaf_keys n ! 0 \<le> k"
proof -
  from k(1) obtain i where "find_cell (leafCell n) k = Some i"
    by (auto simp: leaf_lookup_def findLeafCell_def)
  then have i: "i < length (leafCell n)" "lkey (leafCell n ! i) = k" by (auto dest: find_cell_Some)
  with inv k(2) have "i \<in> set (elems (offsets n))" by (simp add: leaf_inv_def below_def)
  then have "k \<in> set (leaf_keys n)" and ne: "0 < slen (offsets n)"
    using i(2) by (auto simp: leaf_live_def)
  with leaf_first_key(3) [OF inv ne] show ?thesis by blast
qed

lemma leaf_put_split:
  assumes inv: "tree_inv base b" and leaf: "isLeaf (root_node b)"
    and absent: "findLeafCell (root_node b) key = None"
    and full: "Suc (slen (offsets (root_node b))) = maxLeafNodeCells"
  shows "\<exists>b'. put b key v = Some (Inr b') \<and> routed_post base b key v b'"
proof -
  from inv leaf obtain r where r: "root b = Some r" "r < length (heap b)" and rn: "root_node b = heap b ! r"
    and I: "leaf_root_inv base b r" and base: "base + 2 ^ 21 \<le> 2 ^ 63"
    by (auto simp: tree_inv_def root_node_def)
  have J: "leaf_inv [] None (heap b ! r)" "length (leafCell (heap b ! r)) < 65536"
    and eight: "length (leafCell (heap b ! r)) = 8" and fo: "fileOffset (heap b ! r) = base"
    using I full by (auto simp: leaf_root_inv_def maxLeafNodeCells_def rn)
  have any: "[] \<le> key" "below None key" by (simp_all add: below_def)
  obtain n' pg sep where ins: "\<forall>parent. insertLeaf b parent r key v =
       bindr (link_sibling (grow b r n' pg) parent n' (nextFreeOffset b) sep) (\<lambda>b5.
       bindr (deref b5 (Some r)) (\<lambda>n4. Inr (store_node b5 r (markDirty n4))))"
    and n': "leaf_inv [] (Some sep) n'" "leaf_inv sep None pg" "slen (offsets n') = 4"
      "slen (offsets pg) = 5" "length (leafCell pg) = 5" "length (leafCell n') = Suc (length (leafCell (heap b ! r)))"
      "fileOffset n' = fileOffset (heap b ! r)" "leaf_lookup n' = (leaf_lookup (heap b ! r))(key \<mapsto> v)"
    and lk: "\<forall>k. sep \<le> k \<longrightarrow> below None k \<longrightarrow> leaf_lookup pg k = ((leaf_lookup (heap b ! r))(key \<mapsto> v)) k"
    by (rule insertLeaf_split [OF r(2) J(1) full [unfolded rn] J(2) any absent [unfolded rn], where v = v]) blast
  define kf where "kf = leaf_keys n' ! 0"
  have four: "0 < slen (offsets n')" using n'(3) by simp
  note first = leaf_first_key [OF n'(1) four, folded kf_def]
  have "kf \<in> set (leaf_keys n')" using four by (simp add: kf_def leaf_live_def)
  then have kf: "kf < sep" using leaf_inv_range [OF n'(1)] by (auto simp: below_def)
  have low: "leaf_inv kf (Some sep) n'" using leaf_inv_mono [OF n'(1) first(3)] .
  define b' where "b' = root_split_state b r n' pg kf sep"
  define b5 where "b5 = (let (pa, b1) = alloc (grow b r n' pg)
      (new_root (fileOffset n') kf (nextFreeOffset b) sep) in setRootPage b1 pa)"
  have "link_sibling (grow b r n' pg) None n' (nextFreeOffset b) sep = Inr b5"
    unfolding link_sibling_def option.case first(1) first(2)
    by (simp add: b5_def new_root_def Let_def split_def)
  moreover have "deref b5 (Some r) = Inr n'"
    using r(2) by (simp add: b5_def alloc_def Let_def setRootPage_def btree_add_def cache_add_def
          setFileOffsetForNode_def grow_simps nth_append)
  ultimately have "put b key v = Some (Inr b')"
    using r leaf ins by (simp add: put_def getRootPage_def rn b'_def root_split_state_def b5_def Let_def split_def)
  moreover have inv': "int_root_inv base b' (Suc (length (heap b)))"
    unfolding b'_def using n' kf low eight fo by (intro root_split_inv [OF I r(2) base]) simp_all
  moreover have cont: "routed b' = (routed b)(key \<mapsto> v)"
    unfolding b'_def using n' kf lk fo leaf
    by (intro root_split_routed [OF I r base]) (simp_all add: below_def rn)
  moreover have root': "root b' = Some (Suc (length (heap b)))" "length (heap b') = Suc (Suc (length (heap b)))"
    "root_node b' = (new_root base kf (nextFreeOffset b) sep)\<lparr>fileOffset := nextFreeOffset b + pageSize\<rparr>"
    using root_split_simps(1,4) [OF r(2), of 0 n' pg kf sep] I base n'(7) fo
    by (auto simp: b'_def leaf_root_inv_def pageSize_def root_node_def nth_append)
  moreover have "covers b' k" if k0: "routed b' k0 \<noteq> None" "k0 \<le> k" for k k0
  proof -
    have "routed b' k0 = leaf_lookup n' k0"
      using n'(8) r leaf by (simp add: cont routed_def [of b] leaf_for_def root_node_def)
    then have "kf \<le> k0"
      using leaf_lookup_first [OF low, of k0] k0(1) kf by (cases "k0 < sep") (auto simp: kf_def)
    then have "kf \<le> k" using k0(2) by (rule order_trans)
    then show ?thesis using root'(3) new_root_simps(2) [of base kf "nextFreeOffset b" sep]
      by (simp add: covers_def int_seps_def)
  qed
  moreover have "tree_inv base b'"
    using new_root_simps(3,4) inv' base root' by (simp add: tree_inv_def root_node_def maxInternalNodeCells_def)
  moreover have "leaves b' \<le> Suc (leaves b)"
    using new_root_simps(3,4) leaf by (simp add: leaves_def root')
  moreover have "files_same b b'"
    by (simp add: files_same_def b'_def root_split_state_def alloc_def Let_def setRootPage_def btree_add_def cache_add_def)
  ultimately show ?thesis unfolding routed_post_def by blast
qed

section \<open>Insertion\<close>

lemma routed_cases:
  assumes "tree_inv base b" and "covers b key"
  shows "if tree_full b key then put b key v = Some (Inl NilPanic)
    else \<exists>b'. put b key v = Some (Inr b') \<and> routed_post base b key v b'"
proof (cases "isLeaf (root_node b)")
  case True
  have lt: "slen (offsets (root_node b)) < maxLeafNodeCells"
    using assms(1) True by (auto simp: tree_inv_def root_node_def leaf_root_inv_def)
  have "\<not> tree_full b key" using True by (simp add: tree_full_def)
  moreover have "\<exists>b'. put b key v = Some (Inr b') \<and> routed_post base b key v b'"
  proof (cases "findLeafCell (root_node b) key \<noteq> None \<or> Suc (slen (offsets (root_node b))) < maxLeafNodeCells")
    case fits: True
    show ?thesis by (rule leaf_put_fit [OF assms(1) True fits])
  next
    case False
    show ?thesis by (rule leaf_put_split [OF assms(1) True]) (use False lt in auto)
  qed
  ultimately show ?thesis by simp
next
  case False
  then show ?thesis using int_put [OF assms(1) _ assms(2)] by blast
qed

text \<open>The same, for what the tree holds.\<close>

definition put_post :: "nat \<Rightarrow> 'a btree_scheme \<Rightarrow> bytes \<Rightarrow> bytes \<Rightarrow> 'a btree_scheme \<Rightarrow> bool" where
  "put_post base b key v b' \<longleftrightarrow> tree_inv base b' \<and> contents b' = (contents b)(key \<mapsto> v) \<and> files_same b b' \<and> leaves b' \<le> Suc (leaves b)
     \<and> (\<forall>k k0. covers b k \<and> contents b' k0 \<noteq> None \<and> k0 \<le> k \<longrightarrow> covers b' k)"

lemma routed_put_post: "tree_inv base b \<Longrightarrow> routed_post base b key v b' \<Longrightarrow> put_post base b key v b'"
  using contents_routed [of base b] contents_routed [of base b'] by (simp add: routed_post_def put_post_def)

lemma put_cases:
  assumes "tree_inv base b" and "covers b key"
  shows "if tree_full b key then put b key v = Some (Inl NilPanic)
    else \<exists>b'. put b key v = Some (Inr b') \<and> put_post base b key v b'"
  using routed_cases [OF assms, of v] routed_put_post [OF assms(1)] by (auto split: if_splits)

section \<open>Opening a tree\<close>

lemma open_empty:
  assumes "fs_rootOffset (newFileStore data) = 0" and "nextFreeOffset (newFileStore data) + 2 ^ 21 \<le> 2 ^ 63"
  obtains b where "NewBTreeWithPath data md = Inr b" and "tree_inv (nextFreeOffset (newFileStore data)) b"
    and "contents b = Map.empty" and "isLeaf (root_node b)" and "fs_rootOffset b = 0"
    and "meta b = md" and "disk b = data"
proof -
  let ?f = "newFileStore data" and ?n = "zero_node\<lparr>isLeaf := True\<rparr>"
  let ?b = "fileStore.extend ?f \<lparr>root = None, rootOffset = 0, meta = md\<rparr>"
  let ?b' = "setRootPage (snd (alloc ?b ?n)) (fst (alloc ?b ?n))"
  have fields: "heap ?f = []" "pageCache ?f = []" "disk ?f = data" by (simp_all add: newFileStore_def Let_def)
  have u: "u64 (nextFreeOffset ?f + pageSize) = nextFreeOffset ?f + pageSize"
    using assms(2) by (simp add: u64_id pageSize_def)
  note defs = alloc_def setRootPage_def btree_add_def Let_def store_node_def setFileOffsetForNode_def
    cache_add_def fileStore.extend_def fields
  have b': "heap ?b' = [?n\<lparr>fileOffset := nextFreeOffset ?f\<rparr>]" "root ?b' = Some 0"
    "nextFreeOffset ?b' = nextFreeOffset ?f + pageSize" "fs_rootOffset ?b' = 0" "meta ?b' = md" "disk ?b' = data"
    "cache_fetch ?b' (nextFreeOffset ?f) = Some 0"
    using assms(1) u by (simp_all add: defs cache_fetch_def)
  have empty: "leaf_inv [] None ?n" "leaf_lookup ?n k = None" "offsets ?n = slice_of []" for k
    by (simp_all add: leaf_inv_def leaf_shape_def leaf_sorted_def leaf_live_def zero_node_def slice_of_def
          leaf_lookup_def findLeafCell_def)
  have "leaf_root_inv (nextFreeOffset ?f) ?b' 0"
    unfolding leaf_root_inv_def b' using b'(7) empty
    by (simp add: slice_of_def maxLeafNodeCells_def) (simp add: zero_node_def)
  then have "tree_inv (nextFreeOffset ?f) ?b'"
    unfolding tree_inv_def b' using assms(2) b'(1) by simp
  moreover have "root_node ?b' = ?n\<lparr>fileOffset := nextFreeOffset ?f\<rparr>"
    unfolding root_node_def b' by simp
  moreover have "NewBTreeWithPath data md = Inr ?b'"
    using assms(1) by (simp add: NewBTreeWithPath_def Let_def split_def)
  ultimately show ?thesis
    using b'(4-6) empty(2) by (intro that) (auto simp: contents_routed routed_def leaf_for_def fun_eq_iff)
qed

lemma new_file: "newFileStore [] = \<lparr>heap = [], disk = [], pageCache = [], nextFreeOffset = 0, fs_rootOffset = 0\<rparr>"
  by (simp add: newFileStore_def read_at_def)

section \<open>The interface\<close>

text \<open>
  A store that keeps a finite map. It may fail on an insertion: \<open>full\<close> says when, and \<open>covers\<close>
  is the set of keys it can take, which shrinks no further than to the keys above one it holds.
\<close>

fun runs :: "('s \<Rightarrow> 'k \<Rightarrow> 'v \<Rightarrow> 's res option) \<Rightarrow> 's \<Rightarrow> ('k \<times> 'v) list \<Rightarrow> 's res option" where
  "runs ins s [] = Some (Inr s)"
| "runs ins s ((k, v) # kvs) =
     (case ins s k v of None \<Rightarrow> None | Some (Inl e) \<Rightarrow> Some (Inl e) | Some (Inr s') \<Rightarrow> runs ins s' kvs)"

locale map_store =
  fixes inv :: "'s \<Rightarrow> bool" and abs :: "'s \<Rightarrow> ('k :: linorder) \<Rightarrow> 'v option"
    and ins :: "'s \<Rightarrow> 'k \<Rightarrow> 'v \<Rightarrow> 's res option" and find :: "'s \<Rightarrow> 'k \<Rightarrow> ('s \<times> 'v) res option"
    and covers :: "'s \<Rightarrow> 'k \<Rightarrow> bool" and full :: "'s \<Rightarrow> 'k \<Rightarrow> bool" and same :: "'s \<Rightarrow> 's \<Rightarrow> bool"
    and size' :: "'s \<Rightarrow> nat" and cap :: nat and missing :: fault and overflow :: fault
  assumes find_abs: "inv s \<Longrightarrow> find s k = Some (case abs s k of None \<Rightarrow> Inl missing | Some v \<Rightarrow> Inr (s, v))"
    and ins_full: "inv s \<Longrightarrow> covers s k \<Longrightarrow> full s k \<Longrightarrow> ins s k v = Some (Inl overflow)"
    and ins_abs: "inv s \<Longrightarrow> covers s k \<Longrightarrow> \<not> full s k \<Longrightarrow>
      \<exists>s'. ins s k v = Some (Inr s') \<and> inv s' \<and> abs s' = (abs s)(k \<mapsto> v) \<and> same s s' \<and> size' s' \<le> Suc (size' s)
         \<and> (\<forall>k' k0. covers s k' \<and> abs s' k0 \<noteq> None \<and> k0 \<le> k' \<longrightarrow> covers s' k')"
    and full_size: "full s k \<Longrightarrow> cap \<le> size' s"
    and same_refl: "same s s"
    and same_trans: "same s s' \<Longrightarrow> same s' s'' \<Longrightarrow> same s s''"
begin

text \<open>
  \<open>good\<close> relates the states before and after a sequence of insertions. The sequence is
  admissible when every key is covered and lies above a key already present or the first one.
\<close>

definition good :: "'s \<Rightarrow> 's \<Rightarrow> ('k \<times> 'v) list \<Rightarrow> bool" where
  "good s s' kvs \<longleftrightarrow> inv s' \<and> abs s' = abs s ++ map_of (rev kvs) \<and> same s s'
     \<and> size' s' \<le> size' s + length kvs"

definition stops :: "'s \<Rightarrow> ('k \<times> 'v) list \<Rightarrow> bool" where
  "stops s kvs \<longleftrightarrow> (\<exists>pre k v post s1. kvs = pre @ (k, v) # post \<and> runs ins s pre = Some (Inr s1)
     \<and> good s s1 pre \<and> full s1 k)"

definition admissible :: "'s \<Rightarrow> ('k \<times> 'v) list \<Rightarrow> bool" where
  "admissible s kvs \<longleftrightarrow> (\<forall>k \<in> fst ` set kvs. covers s k
     \<and> (fst (hd kvs) \<le> k \<or> (\<exists>k0. abs s k0 \<noteq> None \<and> k0 \<le> k)))"

lemma good_Nil: "inv s \<Longrightarrow> good s s []"
  by (simp add: good_def same_refl)

lemma good_Cons:
  assumes "abs s' = (abs s)(k \<mapsto> v)" and "same s s'" and "size' s' \<le> Suc (size' s)" and "good s' s1 kvs"
  shows "good s s1 ((k, v) # kvs)"
  using assms same_trans [of s s' s1] by (simp add: good_def)

lemma stops_Cons:
  assumes "ins s k v = Some (Inr s')" and "abs s' = (abs s)(k \<mapsto> v)" and "same s s'"
    and "size' s' \<le> Suc (size' s)" and "stops s' kvs"
  shows "stops s ((k, v) # kvs)"
proof -
  from assms(5) obtain pre k1 v1 post s1 where "kvs = pre @ (k1, v1) # post" "runs ins s' pre = Some (Inr s1)"
    "good s' s1 pre" "full s1 k1" unfolding stops_def by blast
  then show ?thesis
    unfolding stops_def using assms(1) good_Cons [OF assms(2-4)]
    by (intro exI [of _ "(k, v) # pre"] exI [of _ k1] exI [of _ v1] exI [of _ post] exI [of _ s1]) simp
qed

lemma admissible_step:
  assumes "admissible s ((k, v) # kvs)" and "abs s' = (abs s)(k \<mapsto> v)"
    and "\<forall>k' k0. covers s k' \<and> abs s' k0 \<noteq> None \<and> k0 \<le> k' \<longrightarrow> covers s' k'"
  shows "admissible s' kvs"
  unfolding admissible_def
proof
  fix k' assume "k' \<in> fst ` set kvs"
  with assms(1) have k': "covers s k'" "k \<le> k' \<or> (\<exists>k0. abs s k0 \<noteq> None \<and> k0 \<le> k')"
    by (auto simp: admissible_def)
  from k'(2) assms(2) have "\<exists>k0. abs s' k0 \<noteq> None \<and> k0 \<le> k'" by auto
  with k'(1) assms(3) show "covers s' k' \<and> (fst (hd kvs) \<le> k' \<or> (\<exists>k0. abs s' k0 \<noteq> None \<and> k0 \<le> k'))"
    by blast
qed

lemma runs_correct:
  assumes "inv s" and "admissible s kvs"
  shows "(\<exists>s'. runs ins s kvs = Some (Inr s') \<and> good s s' kvs)
    \<or> runs ins s kvs = Some (Inl overflow) \<and> stops s kvs"
  using assms
proof (induction kvs arbitrary: s)
  case Nil
  then show ?case by (simp add: good_Nil)
next
  case (Cons kv kvs)
  obtain k v where kv: "kv = (k, v)" by (cases kv)
  have cov: "covers s k" using Cons.prems(2) by (simp add: kv admissible_def)
  show ?case
  proof (cases "full s k")
    case True
    then have "stops s (kv # kvs)"
      unfolding stops_def kv using good_Nil [OF Cons.prems(1)]
      by (intro exI [of _ "[]"] exI [of _ k] exI [of _ v] exI [of _ kvs] exI [of _ s]) simp
    moreover have "runs ins s (kv # kvs) = Some (Inl overflow)"
      using ins_full [OF Cons.prems(1) cov True, of v] by (simp add: kv)
    ultimately show ?thesis by blast
  next
    case False
    obtain s' where s': "ins s k v = Some (Inr s')" "inv s'" "abs s' = (abs s)(k \<mapsto> v)" "same s s'"
      "size' s' \<le> Suc (size' s)" "\<forall>k' k0. covers s k' \<and> abs s' k0 \<noteq> None \<and> k0 \<le> k' \<longrightarrow> covers s' k'"
      using ins_abs [OF Cons.prems(1) cov False, of v] by (elim exE conjE) (rule that)
    have "admissible s' kvs" using admissible_step [OF _ s'(3,6)] Cons.prems(2) by (simp add: kv)
    note IH = Cons.IH [OF s'(2) this]
    have run: "runs ins s ((k, v) # kvs) = runs ins s' kvs" using s'(1) by simp
    show ?thesis
      unfolding kv run using IH good_Cons [OF s'(3-5)] stops_Cons [OF s'(1,3-5)] by blast
  qed
qed

lemma runs_short:
  assumes "inv s" and "admissible s kvs" and "size' s + length kvs \<le> cap"
  shows "\<exists>s'. runs ins s kvs = Some (Inr s') \<and> good s s' kvs"
proof -
  have "\<not> stops s kvs"
    using assms(3) by (auto simp: stops_def good_def dest!: full_size)
  with runs_correct [OF assms(1,2)] show ?thesis by blast
qed

text \<open>What is admissible as a whole stays admissible after its first part.\<close>

lemma runs_admissible:
  assumes "inv s" and "admissible s (xs @ ys)" and "runs ins s xs = Some (Inr s')"
  shows "admissible s' ys"
  using assms
proof (induction xs arbitrary: s)
  case (Cons kv xs)
  obtain k v where kv: "kv = (k, v)" by (cases kv)
  have cov: "covers s k" using Cons.prems(2) by (simp add: kv admissible_def)
  have nf: "\<not> full s k" using Cons.prems(3) ins_full [OF Cons.prems(1) cov, of v] by (auto simp: kv)
  obtain s1 where s1: "ins s k v = Some (Inr s1)" "inv s1" "abs s1 = (abs s)(k \<mapsto> v)"
    "\<forall>k' k0. covers s k' \<and> abs s1 k0 \<noteq> None \<and> k0 \<le> k' \<longrightarrow> covers s1 k'"
    using ins_abs [OF Cons.prems(1) cov nf, of v] by (elim exE conjE) (rule that)
  have "admissible s1 (xs @ ys)" using admissible_step [OF _ s1(3,4)] Cons.prems(2) by (simp add: kv)
  then show ?case using Cons.IH [OF s1(2)] Cons.prems(3) s1(1) by (simp add: kv)
qed simp

text \<open>A lookup after the sequence finds the last value given to a key.\<close>

lemma find_after:
  assumes "good s s' kvs"
  shows "find s' k = Some (case map_of (rev kvs) k of Some v \<Rightarrow> Inr (s', v)
    | None \<Rightarrow> (case abs s k of Some v \<Rightarrow> Inr (s', v) | None \<Rightarrow> Inl missing))"
  using assms find_abs [of s' k] by (auto simp: good_def map_add_def split: option.splits)

end

section \<open>The tree meets the interface\<close>

interpretation tree_store: map_store "tree_inv base" contents put btree_Get covers tree_full files_same
  leaves maxInternalNodeCells "GoErr ''key not found''" NilPanic
  for base :: nat
proof
  fix s :: "'a btree_scheme" and k v :: bytes
  assume inv: "tree_inv base s"
  show "btree_Get s k = Some (case contents s k of None \<Rightarrow> Inl (GoErr ''key not found'') | Some v \<Rightarrow> Inr (s, v))"
    using Get_routed [OF inv] contents_routed [OF inv] by simp
  assume cov: "covers s k"
  show "tree_full s k \<Longrightarrow> put s k v = Some (Inl NilPanic)"
    using put_cases [OF inv cov, of v] by simp
  show "\<not> tree_full s k \<Longrightarrow> \<exists>s'. put s k v = Some (Inr s') \<and> tree_inv base s' \<and> contents s' = (contents s)(k \<mapsto> v)
      \<and> files_same s s' \<and> leaves s' \<le> Suc (leaves s)
      \<and> (\<forall>k' k0. covers s k' \<and> contents s' k0 \<noteq> None \<and> k0 \<le> k' \<longrightarrow> covers s' k')"
    using put_cases [OF inv cov, of v] by (simp add: put_post_def)
qed (auto simp: files_same_def tree_full_def leaves_def)

lemma puts_runs: "puts b kvs = runs put b kvs"
  by (induction kvs arbitrary: b) (auto split: option.splits sum.splits)

lemma fresh_tree:
  obtains b where "NewBTreeWithPath [] [] = Inr b" and "tree_inv 0 b" and "contents b = Map.empty"
    and "isLeaf (root_node b)" and "fs_rootOffset b = 0" and "meta b = []" and "disk b = []"
  by (rule open_empty [of "[]" "[]"]) (simp_all add: new_file)

lemma fresh_admissible:
  assumes "contents b = Map.empty" and "isLeaf (root_node b)" and "\<forall>k \<in> fst ` set kvs. fst (hd kvs) \<le> k"
  shows "tree_store.admissible b kvs"
  using assms by (simp add: tree_store.admissible_def covers_def)

section \<open>Properties of the tree\<close>

text \<open>
  C10: \<^verbatim>\<open>BTree.Get\<close> on a well-formed tree returns, leaves the tree as it is, and answers from the
  map \<open>contents\<close>, which collects the live cells of all leaves: the value of the cell with the key, wherever
  it is, and the error \<^verbatim>\<open>key not found\<close> when no leaf has one.
\<close>

theorem tree_get_correct:
  assumes "tree_inv base b"
  shows "btree_Get b key = Some (case contents b key of
      None \<Rightarrow> Inl (GoErr ''key not found'') | Some v \<Rightarrow> Inr (b, v))"
  using assms by (rule tree_store.find_abs)

theorem tree_get_correct_witness:
  "\<exists>b b'. NewBTreeWithPath [] [] = Inr b \<and> puts b [(''a'', ''1''), (''b'', ''2'')] = Some (Inr b') \<and> tree_inv 0 b'
     \<and> btree_Get b' ''b'' = Some (Inr (b', ''2'')) \<and> btree_Get b' ''c'' = Some (Inl (GoErr ''key not found''))"
proof -
  let ?kvs = "[(''a'', ''1''), (''b'', ''2'')]"
  obtain b where b: "NewBTreeWithPath [] [] = Inr b" "tree_inv 0 b" "contents b = Map.empty" "isLeaf (root_node b)"
    by (rule fresh_tree)
  have adm: "tree_store.admissible b ?kvs" by (rule fresh_admissible [OF b(3,4)]) (simp add: less_char_def)
  have "leaves b + length ?kvs \<le> maxInternalNodeCells" using b(4) by (simp add: leaves_def maxInternalNodeCells_def)
  from tree_store.runs_short [OF b(2) adm this]
  obtain b' where b': "puts b ?kvs = Some (Inr b')" "tree_store.good 0 b b' ?kvs" by (auto simp: puts_runs)
  then have inv: "tree_inv 0 b'" "contents b' = map_of (rev ?kvs)" using b(3) by (simp_all add: tree_store.good_def)
  show ?thesis
    using tree_get_correct [OF inv(1), of "''b''"] tree_get_correct [OF inv(1), of "''c''"] b(1) b'(1) inv
    by (intro exI [of _ b] exI [of _ b']) simp
qed

text \<open>
  C5: \<^verbatim>\<open>BTree.put\<close> on a well-formed tree of a key that is not below the first separator of the root always
  returns, for new keys and for keys the tree has. Unless the tree is full for the key, it succeeds: the
  invariant is kept, the map \<open>contents\<close> of the live cells of all leaves is updated at the key and nowhere
  else, the page file and the metadata are not touched. When the tree is full (the root has 290 children,
  the leaf for the key holds 8 cells, the key is new) the call panics on a nil pointer.
\<close>

theorem tree_put_correct:
  assumes "tree_inv base b" and "covers b key"
  shows "if tree_full b key then put b key v = Some (Inl NilPanic)
    else \<exists>b'. put b key v = Some (Inr b') \<and> tree_inv base b' \<and> contents b' = (contents b)(key \<mapsto> v)
       \<and> files_same b b'"
  using put_cases [OF assms, of v] by (auto simp: put_post_def)

theorem tree_put_correct_witness:
  "\<exists>b b1 b2. NewBTreeWithPath [] [] = Inr b \<and> put b ''k'' ''v'' = Some (Inr b1) \<and> put b1 ''k'' ''w'' = Some (Inr b2)
     \<and> contents b1 = [''k'' \<mapsto> ''v''] \<and> contents b2 = [''k'' \<mapsto> ''w'']"
proof -
  obtain b where b: "NewBTreeWithPath [] [] = Inr b" "tree_inv 0 b" "contents b = Map.empty" "isLeaf (root_node b)"
    by (rule fresh_tree)
  have cov: "covers b ''k''" and nf: "\<not> tree_full b ''k''" using b(4) by (simp_all add: covers_def tree_full_def)
  obtain b1 where b1: "put b ''k'' ''v'' = Some (Inr b1)" "tree_inv 0 b1" "contents b1 = [''k'' \<mapsto> ''v'']" "covers b1 ''k''"
    using tree_store.ins_abs [OF b(2) cov nf, of "''v''"] b(3) cov by (elim exE conjE) fastforce
  have "\<not> tree_full b1 ''k''" by (simp add: tree_full_def b1(3))
  then show ?thesis
    using tree_put_correct [OF b1(2,4), of "''w''"] b(1) b1(1,3) by auto
qed

text \<open>
  A new database whose first key is the smallest answers every later lookup correctly: fewer
  than 290 insertions all succeed, and afterwards \<^verbatim>\<open>Get\<close> returns the last value put under a key and
  \<^verbatim>\<open>key not found\<close> for any other key.
\<close>

theorem tree_puts_gets:
  assumes "\<forall>k \<in> fst ` set kvs. fst (hd kvs) \<le> k" and "length kvs < maxInternalNodeCells"
  shows "\<exists>b b'. NewBTreeWithPath [] [] = Inr b \<and> puts b kvs = Some (Inr b') \<and>
    (\<forall>k. btree_Get b' k = Some (case map_of (rev kvs) k of
        Some v \<Rightarrow> Inr (b', v) | None \<Rightarrow> Inl (GoErr ''key not found'')))"
proof -
  obtain b where b: "NewBTreeWithPath [] [] = Inr b" "tree_inv 0 b" "contents b = Map.empty" "isLeaf (root_node b)"
    by (rule fresh_tree)
  have "leaves b + length kvs \<le> maxInternalNodeCells" using assms(2) b(4) by (simp add: leaves_def)
  then obtain b' where b': "puts b kvs = Some (Inr b')" "tree_store.good 0 b b' kvs"
    using tree_store.runs_short [OF b(2) fresh_admissible [OF b(3,4) assms(1)]] by (auto simp: puts_runs)
  show ?thesis
    using b b' tree_store.find_after [OF b'(2)] by (intro exI [of _ b] exI [of _ b'])
      (auto split: option.splits)
qed

theorem tree_puts_gets_witness:
  "\<exists>b b'. NewBTreeWithPath [] [] = Inr b \<and> puts b [(''a'', ''1''), (''b'', ''2''), (''a'', ''3'')] = Some (Inr b')
     \<and> btree_Get b' ''a'' = Some (Inr (b', ''3'')) \<and> btree_Get b' ''c'' = Some (Inl (GoErr ''key not found''))"
proof -
  let ?kvs = "[(''a'', ''1''), (''b'', ''2''), (''a'', ''3'')]"
  have "\<forall>k \<in> fst ` set ?kvs. fst (hd ?kvs) \<le> k" "length ?kvs < maxInternalNodeCells"
    by (simp_all add: maxInternalNodeCells_def less_char_def)
  then obtain b b' where b: "NewBTreeWithPath [] [] = Inr b" "puts b ?kvs = Some (Inr b')"
    "\<forall>k. btree_Get b' k = Some (case map_of (rev ?kvs) k of
        Some v \<Rightarrow> Inr (b', v) | None \<Rightarrow> Inl (GoErr ''key not found''))"
    using tree_puts_gets [of ?kvs] by blast
  show ?thesis
    using b(1,2) b(3) [rule_format, of "''a''"] b(3) [rule_format, of "''c''"]
    by (intro exI [of _ b] exI [of _ b']) simp
qed

lemma flush_loop_meta:
  assumes "flush_loop b ps = Inr b1"
  shows "meta b1 = meta b"
  using assms
proof (induction b ps rule: flush_loop.induct)
  case (2 b k a rest)
  then obtain n where n: "deref b (Some a) = Inr n" by (auto simp: bindr_Inr_iff)
  show ?case
  proof (cases "isDirty n")
    case False
    with 2 n show ?thesis by simp
  next
    case True
    with 2(3) n obtain b2 where b2: "fs_update b a = Inr b2"
      "flush_loop (store_node b2 a (markClean n)) rest = Inr b1" by (auto simp: bindr_Inr_iff)
    have "meta b2 = meta b"
      using b2(1) by (auto simp: fs_update_def bindr_Inr_iff file_write_def cache_add_def split: if_splits)
    with 2(2) [OF _ b2(2)] True show ?thesis by (simp add: store_node_def)
  qed
qed simp

lemma reopen_empty:
  assumes inv: "tree_inv 0 b1" and hdr: "fs_rootOffset b1 = 0" and flush: "flushPages b1 = Inr b2"
  shows "\<exists>b3. NewBTreeWithPath (disk b2) (meta b2) = Inr b3 \<and> tree_inv (nextFreeOffset b1) b3
    \<and> contents b3 = Map.empty \<and> meta b3 = meta b1"
proof -
  have nf: "nextFreeOffset b1 + 2 ^ 21 \<le> 2 ^ 63"
    using inv
    by (auto simp: tree_inv_def leaf_root_inv_def int_root_inv_def Let_def pageSize_def maxInternalNodeCells_def
          split: if_splits)
  obtain b0 where b0: "flush_loop b1 (pageCache b1) = Inr b0" "b2 = fs_save b0"
    using flush by (auto simp: flushPages_def bindr_Inr_iff)
  have frame: "fs_rootOffset b0 = 0" "nextFreeOffset b0 = nextFreeOffset b1" "meta b2 = meta b1"
    using flush_loop_frame [OF b0(1)] flush_loop_meta [OF b0(1)] hdr b0(2) by (simp_all add: fs_save_def)
  have "newFileStore (disk b2) = \<lparr>heap = [], disk = disk b2, pageCache = [], nextFreeOffset = nextFreeOffset b1,
       fs_rootOffset = 0\<rparr>"
    using save_header [of b0] frame nf by (simp add: b0(2))
  then show ?thesis using open_empty [of "disk b2" "meta b2"] nf frame(3) by auto
qed

text \<open>
  A restart loses the tree. After any such sequence of insertions and a flush of the dirty pages,
  the database reopened on the written files answers \<^verbatim>\<open>key not found\<close> for every key, since the
  root offset in the file header is never set.
\<close>

theorem tree_restart_empty:
  assumes "\<forall>k \<in> fst ` set kvs. fst (hd kvs) \<le> k"
    and "NewBTreeWithPath [] [] = Inr b" and "puts b kvs = Some (Inr b1)" and "flushPages b1 = Inr b2"
  shows "\<exists>b3. NewBTreeWithPath (disk b2) (meta b2) = Inr b3 \<and>
    (\<forall>k. btree_Get b3 k = Some (Inl (GoErr ''key not found'')))"
proof -
  have b: "tree_inv 0 b" "contents b = Map.empty" "isLeaf (root_node b)" "fs_rootOffset b = 0"
    using assms(2) by (auto intro: fresh_tree)
  have "tree_store.good 0 b b1 kvs"
    using tree_store.runs_correct [OF b(1) fresh_admissible [OF b(2,3) assms(1)]] assms(3)
    by (auto simp: puts_runs)
  then have b1: "tree_inv 0 b1" "fs_rootOffset b1 = 0"
    using b(4) by (auto simp: tree_store.good_def files_same_def)
  from reopen_empty [OF b1 assms(4)] show ?thesis using tree_store.find_abs by fastforce
qed

theorem tree_restart_empty_witness:
  "\<exists>b b1 b2 b3. NewBTreeWithPath [] [] = Inr b \<and> puts b [(''a'', ''1'')] = Some (Inr b1)
     \<and> flushPages b1 = Inr b2 \<and> NewBTreeWithPath (disk b2) (meta b2) = Inr b3
     \<and> btree_Get b3 ''a'' = Some (Inl (GoErr ''key not found''))"
proof -
  have "\<exists>b b1 b2. NewBTreeWithPath [] [] = Inr b \<and> puts b [(''a'', ''1'')] = Some (Inr b1)
     \<and> flushPages b1 = Inr b2"
    by (simp add: go_eval flushPages_def fs_update_def node_encode_def encodeLeaf_def pad_page_eq put_u8_def
          LeafNode_def cong: eval_congs)
  then obtain b b1 b2 where b: "NewBTreeWithPath [] [] = Inr b" "puts b [(''a'', ''1'')] = Some (Inr b1)"
    "flushPages b1 = Inr b2" by blast
  then show ?thesis using tree_restart_empty [of "[(''a'', ''1'')]" b b1 b2] by auto
qed

section \<open>Keys below the first separator\<close>

text \<open>A lookup in a new tree after a sequence of insertions.\<close>

definition lookup_after :: "(bytes \<times> bytes) list \<Rightarrow> bytes \<Rightarrow> bytes res option" where
  "lookup_after kvs k = (case NewBTreeWithPath [] [] of Inl e \<Rightarrow> Some (Inl e)
     | Inr b \<Rightarrow> (case puts b kvs of
          Some (Inr b') \<Rightarrow> (case btree_Get b' k of Some r \<Rightarrow> Some (bindr r (\<lambda>(_, v). Inr v)) | None \<Rightarrow> None)
        | Some (Inl e) \<Rightarrow> Some (Inl e)
        | None \<Rightarrow> None))"

definition loss_keys :: "bytes list" where
  "loss_keys = [''m'', ''n'', ''o'', ''p'', ''q'', ''r'', ''s'', ''t'', ''u'', ''a'', ''b'', ''c'', ''d'', ''e'',
     ''ma'', ''mb'', ''mc'', ''md'', ''me'']"

text \<open>
  The condition on the first key matters. Nineteen insertions that begin with \<^verbatim>\<open>m\<close> and go on below it all
  succeed, but the split of the leftmost leaf files the new page under a separator below the root's first
  one, and the key \<^verbatim>\<open>n\<close>, inserted and never removed, is no longer found.
\<close>

theorem tree_loses_key:
  "''n'' \<in> set loss_keys \<and>
   lookup_after (map (\<lambda>k. (k, ''v'')) loss_keys) ''n'' = Some (Inl (GoErr ''key not found''))"
  by (rule conjI, simp add: loss_keys_def)
    (simp add: go_eval lookup_after_def loss_keys_def cong: eval_congs)

end
