(* ===== verification/Tree_Overflow.thy ===== *)
theory Tree_Overflow
  imports Tree_Map
begin

text \<open>
  The capacity of the tree. A leaf keeps at most eight live cells and the root at most 290 leaves, and a
  full tree does not grow: the split of its root reaches for a parent that does not exist. So there is a
  number of keys that no sequence of insertions gets past.
\<close>

section \<open>How much a tree holds\<close>

lemma cell_pairs_length: "length (cell_pairs n) = slen (offsets n)"
  by (simp add: cell_pairs_def leaf_live_def)

lemma kid_pairs_length:
  assumes "kids_ok b r m cs hi"
  shows "length (kid_pairs b cs) \<le> 8 * length cs"
  using assms
proof (induction cs)
  case (Cons x cs)
  obtain s fo where x: "x = (s, fo)" by (cases x)
  then have "slen (offsets (page b fo)) < maxLeafNodeCells" using Cons.prems by (auto simp: kid_ok_def page_def)
  then show ?case using Cons by (simp add: x cell_pairs_length maxLeafNodeCells_def)
qed simp

lemma tree_pairs_length:
  assumes "tree_inv base b"
  shows "length (tree_pairs b) \<le> 8 * leaves b" and "leaves b \<le> maxInternalNodeCells"
proof -
  from assms obtain r where r: "root b = Some r" and inv: "if isLeaf (heap b ! r) then leaf_root_inv base b r
      else int_root_inv base b r \<and> slen (offsets (heap b ! r)) \<le> maxInternalNodeCells"
    by (auto simp: tree_inv_def)
  have rn: "root_node b = heap b ! r" by (simp add: root_node_def r)
  show "leaves b \<le> maxInternalNodeCells" using inv by (simp add: leaves_def rn maxInternalNodeCells_def split: if_splits)
  show "length (tree_pairs b) \<le> 8 * leaves b"
  proof (cases "isLeaf (heap b ! r)")
    case True
    then show ?thesis using inv by (simp add: tree_pairs_def leaves_def rn cell_pairs_length leaf_root_inv_def maxLeafNodeCells_def)
  next
    case False
    then have "kids_ok b r (slen (offsets (heap b ! r))) (int_seps (heap b ! r)) None"
      using inv by (simp add: int_root_inv_def Let_def)
    from kid_pairs_length [OF this] False show ?thesis
      by (simp add: tree_pairs_def leaves_def rn kid_pairs_def) (simp add: int_seps_def)
  qed
qed

lemma contents_card:
  assumes "tree_inv base b"
  shows "card (dom (contents b)) \<le> 2320"
proof -
  have "card (dom (contents b)) \<le> length (tree_pairs b)"
    unfolding contents_def dom_map_of_conv_image_fst by (metis card_length list.set_map length_map)
  then show ?thesis using tree_pairs_length [OF assms] by (simp add: maxInternalNodeCells_def)
qed

section \<open>Properties\<close>

text \<open>Keys in ascending order.\<close>

definition ak :: "nat \<Rightarrow> bytes" where "ak n = replicate n CHR ''a''"

lemma ak_less: "ak m < ak n \<longleftrightarrow> m < n"
proof (induction m arbitrary: n)
  case 0
  then show ?case by (cases n) (simp_all add: ak_def)
next
  case (Suc m)
  then show ?case by (cases n) (simp_all add: ak_def)
qed

text \<open>
  C26: the tree has a limit that every long enough sequence of insertions meets. On a new database whose
  first key is the smallest, a sequence of insertions either succeeds, and the tree holds its map, or
  ends with a nil-pointer panic. Fewer than 290 insertions always succeed; once the sequence has more
  than 2320 different keys, the eight cells of 290 leaves, one of them panics.
\<close>

theorem tree_capacity:
  assumes "\<forall>k \<in> fst ` set kvs. fst (hd kvs) \<le> k" and "NewBTreeWithPath [] [] = Inr b"
  shows "((\<exists>b'. puts b kvs = Some (Inr b') \<and> contents b' = map_of (rev kvs)) \<or> puts b kvs = Some (Inl NilPanic))
    \<and> (length kvs < maxInternalNodeCells \<longrightarrow> (\<exists>b'. puts b kvs = Some (Inr b')))
    \<and> (2320 < card (fst ` set kvs) \<longrightarrow> puts b kvs = Some (Inl NilPanic))"
proof -
  have b: "tree_inv 0 b" "contents b = Map.empty" "isLeaf (root_node b)" using assms(2) by (auto intro: fresh_tree)
  have adm: "tree_store.admissible b kvs" by (rule fresh_admissible [OF b(2,3) assms(1)])
  have R: "(\<exists>b'. puts b kvs = Some (Inr b') \<and> tree_inv 0 b' \<and> contents b' = map_of (rev kvs)) \<or> puts b kvs = Some (Inl NilPanic)"
    using tree_store.runs_correct [OF b(1) adm] b(2) by (auto simp: puts_runs tree_store.good_def)
  have "leaves b = 1" using b(3) by (simp add: leaves_def)
  then have "\<exists>b'. puts b kvs = Some (Inr b')" if "length kvs < maxInternalNodeCells"
    using tree_store.runs_short [OF b(1) adm] that by (auto simp: puts_runs)
  moreover have "puts b kvs = Some (Inl NilPanic)" if "2320 < card (fst ` set kvs)"
  proof (rule ccontr)
    assume "puts b kvs \<noteq> Some (Inl NilPanic)"
    with R obtain b' where "puts b kvs = Some (Inr b')" and b': "tree_inv 0 b'" "contents b' = map_of (rev kvs)" by blast
    have "card (dom (contents b')) = card (fst ` set kvs)" by (simp add: b'(2) dom_map_of_conv_image_fst)
    then show False using contents_card [OF b'(1)] that by simp
  qed
  ultimately show ?thesis using R by blast
qed

theorem tree_capacity_witness:
  "\<exists>b. NewBTreeWithPath [] [] = Inr b \<and> puts b (map (\<lambda>n. (ak n, ''v'')) [0..<2321]) = Some (Inl NilPanic)"
proof -
  let ?kvs = "map (\<lambda>n. (ak n, ''v'')) [0..<2321]"
  obtain b where b: "NewBTreeWithPath [] [] = Inr b" by (rule fresh_tree)
  have "inj_on ak {0..<2321}" by (rule inj_onI) (metis ak_less nat_neq_iff)
  moreover have keys: "fst ` set ?kvs = ak ` {0..<2321}" by (simp add: image_image)
  ultimately have "card (fst ` set ?kvs) = 2321" by (simp add: card_image)
  moreover have "hd ?kvs = (ak 0, ''v'')" by (simp add: hd_map)
  then have "\<forall>k \<in> fst ` set ?kvs. fst (hd ?kvs) \<le> k" unfolding keys using ak_less by (auto simp: not_less [symmetric])
  ultimately show ?thesis using tree_capacity [of ?kvs b] b by simp
qed

end
