(* ===== verification/Raft_Log.thy ===== *)
theory Raft_Log
  imports Go_Base
begin

text \<open>
  The in-memory log of a Raft node, \<^verbatim>\<open>repl/log.go\<close>, and the messages of \<^verbatim>\<open>repl/raft.proto\<close>. The
  source keeps an unused slot 0 in front of the entries; the model drops it, so that the slice
  index \<open>i\<close> of the source is the list index \<open>i - 1\<close>. Log indices are integers without wrap-around.
\<close>

section \<open>Messages\<close>

record cmd =
  Op :: bytes
  Key :: bytes
  Val :: bytes
  RequestId :: nat

record log =
  Term :: int
  Id :: int
  Data :: "cmd option"

datatype message_type =
    MSG_UNKNOWN | MSG_APP | MSG_APP_RESP | MSG_VOTE | MSG_VOTE_RESP | MSG_SNAP | MSG_HEARTBEAT
  | MSG_HEARTBEAT_RESP

record request_vote =
  vTerm :: "nat option"
  CandidateId :: int
  LastLogIndex :: int
  LastLogTerm :: int

record vote_response =
  rTerm :: int
  VoteGranted :: bool

record append_entries =
  aTerm :: int
  LeaderId :: int
  PrevLogIdx :: int
  PrevLogTerm :: int
  Entries :: "log list"
  LeaderCommitIdx :: int

record append_response =
  CurrentTerm :: int
  Success :: bool

record message =
  mType :: message_type
  mTo :: int
  mFrom :: int
  mVote :: "request_vote option"
  mVoteResp :: "vote_response option"
  mEntries :: "append_entries option"
  mEntriesResp :: "append_response option"

definition no_message :: message where
  "no_message = \<lparr>mType = MSG_UNKNOWN, mTo = 0, mFrom = 0, mVote = None, mVoteResp = None,
     mEntries = None, mEntriesResp = None\<rparr>"

section \<open>The log\<close>

record raftLog =
  entries :: "log list"
  commitIndex :: int
  lastApplied :: int
  stableIndex :: int

definition newRaftLog :: raftLog where
  "newRaftLog = \<lparr>entries = [], commitIndex = 0, lastApplied = 0, stableIndex = 0\<rparr>"

definition lastIndex :: "raftLog \<Rightarrow> int" where
  "lastIndex l = (if entries l = [] then 0 else Id (last (entries l)))"

definition lastTerm :: "raftLog \<Rightarrow> int" where
  "lastTerm l = (if entries l = [] then 0 else Term (last (entries l)))"

definition log_append :: "raftLog \<Rightarrow> log list \<Rightarrow> raftLog" where
  "log_append l es = l\<lparr>entries := entries l @ es\<rparr>"

text \<open>
  \<^verbatim>\<open>l.entries[i]\<close>: a panic out of range. Slot 0 holds a nil pointer; any use of its fields panics.
\<close>

definition entry_at :: "raftLog \<Rightarrow> int \<Rightarrow> log res" where
  "entry_at l i = (if i = 0 then Inl NilPanic
     else if 0 < i \<and> i \<le> int (length (entries l)) then Inr (entries l ! nat (i - 1))
     else Inl IndexPanic)"

definition log_term :: "raftLog \<Rightarrow> int \<Rightarrow> int res" where
  "log_term l i = (if i = 0 \<or> i > lastIndex l then Inr 0 else bindr (entry_at l i) (\<lambda>e. Inr (Term e)))"

text \<open>The loop \<^verbatim>\<open>for i := lo; i <= hi; i++ { if int(i) < len(l.entries) { ... append ... } }\<close>.\<close>

fun collect :: "raftLog \<Rightarrow> int list \<Rightarrow> log list res" where
  "collect l [] = Inr []"
| "collect l (i # is) =
     (if i < int (length (entries l)) + 1
      then bindr (entry_at l i) (\<lambda>e. bindr (collect l is) (\<lambda>es. Inr (e # es)))
      else collect l is)"

definition committedEntries :: "raftLog \<Rightarrow> log list res" where
  "committedEntries l = (if commitIndex l \<le> lastApplied l then Inr []
     else collect l [lastApplied l + 1..commitIndex l])"

definition log_maybeCommit :: "raftLog \<Rightarrow> int \<Rightarrow> raftLog" where
  "log_maybeCommit l index = (if index > commitIndex l \<and> index \<le> lastIndex l
     then l\<lparr>commitIndex := index\<rparr> else l)"

definition markAppliedTill :: "raftLog \<Rightarrow> int \<Rightarrow> raftLog" where
  "markAppliedTill l index = (if index > lastApplied l then l\<lparr>lastApplied := index\<rparr> else l)"

definition markStableTill :: "raftLog \<Rightarrow> int \<Rightarrow> raftLog" where
  "markStableTill l index = (if index > stableIndex l \<and> index \<le> lastIndex l
     then l\<lparr>stableIndex := index\<rparr> else l)"

definition volatileEntries :: "raftLog \<Rightarrow> log list res" where
  "volatileEntries l = (if stableIndex l \<ge> lastIndex l then Inr []
     else collect l [stableIndex l + 1..lastIndex l])"

declare no_message_def [go_eval] newRaftLog_def [go_eval] lastIndex_def [go_eval] lastTerm_def [go_eval]
  log_append_def [go_eval] entry_at_def [go_eval] log_term_def [go_eval] committedEntries_def [go_eval]
  log_maybeCommit_def [go_eval] markAppliedTill_def [go_eval] markStableTill_def [go_eval]
  volatileEntries_def [go_eval]

section \<open>Well-formed logs\<close>

text \<open>
  In a well-formed log every entry carries its own position, and what is applied is committed and
  what is committed or persisted exists.
\<close>

definition positions :: "log list \<Rightarrow> bool" where
  "positions es \<longleftrightarrow> (\<forall>i < length es. Id (es ! i) = int i + 1)"

definition log_wf :: "raftLog \<Rightarrow> bool" where
  "log_wf l \<longleftrightarrow> positions (entries l) \<and> 0 \<le> lastApplied l \<and> lastApplied l \<le> commitIndex l
     \<and> commitIndex l \<le> int (length (entries l)) \<and> 0 \<le> stableIndex l
     \<and> stableIndex l \<le> int (length (entries l))"

definition range_of :: "raftLog \<Rightarrow> int \<Rightarrow> int \<Rightarrow> log list" where
  "range_of l lo hi = take (nat (hi - lo)) (drop (nat lo) (entries l))"

lemma positions_append:
  "positions (xs @ ys) \<longleftrightarrow> positions xs \<and> (\<forall>i < length ys. Id (ys ! i) = int (length xs + i) + 1)"
proof
  assume "positions (xs @ ys)"
  then have p: "i < length xs + length ys \<Longrightarrow> Id ((xs @ ys) ! i) = int i + 1" for i
    by (simp add: positions_def)
  have "Id (ys ! i) = int (length xs + i) + 1" if "i < length ys" for i
    using p [of "length xs + i"] that by simp
  moreover have "Id (xs ! i) = int i + 1" if "i < length xs" for i
    using p [of i] that by (simp add: nth_append)
  ultimately show "positions xs \<and> (\<forall>i < length ys. Id (ys ! i) = int (length xs + i) + 1)"
    by (simp add: positions_def)
next
  assume "positions xs \<and> (\<forall>i < length ys. Id (ys ! i) = int (length xs + i) + 1)"
  then show "positions (xs @ ys)" by (auto simp: positions_def nth_append)
qed

lemma lastIndex_wf: "positions (entries l) \<Longrightarrow> lastIndex l = int (length (entries l))"
  by (cases "entries l" rule: rev_cases) (auto simp: lastIndex_def positions_append)

lemma entry_at_ok: "0 < i \<Longrightarrow> i \<le> int (length (entries l)) \<Longrightarrow> entry_at l i = Inr (entries l ! nat (i - 1))"
  by (simp add: entry_at_def)

lemma collect_range:
  assumes "0 \<le> lo" and "hi \<le> int (length (entries l))"
  shows "collect l [lo + 1..hi] = Inr (range_of l lo hi)"
  using assms
proof (induction "nat (hi - lo)" arbitrary: lo)
  case 0
  then show ?case by (simp add: range_of_def)
next
  case (Suc n)
  then have lo: "lo < hi" by linarith
  have "collect l [lo + 1 + 1..hi] = Inr (range_of l (lo + 1) hi)"
    using Suc lo by (intro Suc.hyps(1)) auto
  moreover have "[lo + 1..hi] = (lo + 1) # [lo + 1 + 1..hi]" using lo by (simp add: upto_rec1)
  moreover have "range_of l lo hi = entries l ! nat lo # range_of l (lo + 1) hi"
  proof -
    have "drop (nat lo) (entries l) = entries l ! nat lo # drop (Suc (nat lo)) (entries l)"
      using Suc.prems lo by (intro Cons_nth_drop_Suc [symmetric]) linarith
    moreover have "nat (lo + 1) = Suc (nat lo)" "nat (hi - lo) = Suc (nat (hi - (lo + 1)))"
      using Suc.prems lo by auto
    ultimately show ?thesis by (simp add: range_of_def)
  qed
  ultimately show ?case using Suc.prems lo entry_at_ok [of "lo + 1" l] by simp
qed

lemma committedEntries_wf: "log_wf l \<Longrightarrow> committedEntries l = Inr (range_of l (lastApplied l) (commitIndex l))"
  by (auto simp: committedEntries_def log_wf_def collect_range range_of_def)

lemma volatileEntries_wf:
  "log_wf l \<Longrightarrow> volatileEntries l = Inr (range_of l (stableIndex l) (int (length (entries l))))"
  by (auto simp: volatileEntries_def log_wf_def collect_range range_of_def lastIndex_wf)

lemma log_term_wf:
  assumes "positions (entries l)" and "0 \<le> i"
  shows "log_term l i = Inr (if i = 0 \<or> i > int (length (entries l)) then 0 else Term (entries l ! nat (i - 1)))"
  using assms by (auto simp: log_term_def lastIndex_wf entry_at_ok)

lemma log_wf_append:
  assumes "log_wf l" and "\<forall>i < length es. Id (es ! i) = int (length (entries l) + i) + 1"
  shows "log_wf (log_append l es)"
  using assms by (auto simp: log_wf_def log_append_def positions_append)

lemma log_wf_ops:
  assumes "log_wf l"
  shows "log_wf (log_maybeCommit l i)" "log_wf (markStableTill l i)" "i \<le> commitIndex l \<Longrightarrow> log_wf (markAppliedTill l i)"
  using assms lastIndex_wf [of l]
  by (auto simp: log_wf_def log_maybeCommit_def markStableTill_def markAppliedTill_def)

lemma range_of_append:
  assumes "0 \<le> a" and "a \<le> b" and "b \<le> c"
  shows "range_of l a b @ range_of l b c = range_of l a c"
proof -
  have "nat (c - a) = nat (b - a) + nat (c - b)" "nat b = nat a + nat (b - a)" using assms by auto
  then show ?thesis by (simp add: range_of_def take_add add.commute)
qed

lemma log_wf_new: "log_wf newRaftLog"
  by (simp add: log_wf_def newRaftLog_def positions_def)

end
