(* ===== verification/Raft_Sm.thy ===== *)
theory Raft_Sm
  imports Raft_Log "HOL-Library.AList"
begin

text \<open>
  The Raft state machine, \<^verbatim>\<open>repl/sm.go\<close>: roles, ticks, elections, log replication, and the
  \<^verbatim>\<open>Ready\<close>/\<^verbatim>\<open>Advance\<close> boundary. Go maps that are ranged over (\<^verbatim>\<open>peers\<close>, \<^verbatim>\<open>votes\<close>, \<^verbatim>\<open>progress\<close>) are
  lists in the order in which the loops happen to visit them; nothing below depends on that order.
  The function values \<^verbatim>\<open>step\<close> and \<^verbatim>\<open>tick\<close> are the role whose method they hold.
\<close>

section \<open>State\<close>

datatype role = StateFollower | StateCandidate | StateLeader

record hardState =
  hsTerm :: int
  hsLastCommit :: int
  hsLastApplied :: int

record ready =
  rdMessages :: "message list"
  rdEntries :: "log list"
  rdMessagesAfterAppend :: "message list"
  rdCommittedEntries :: "log list"
  rdHardState :: hardState

record progress_rec =
  matchIndex :: int
  nextIndex :: int

record raft =
  ID :: int
  currentTerm :: int
  votedFor :: "int \<rightharpoonup> int"
  state :: role
  randomizedTimeout :: int
  electionTick :: int
  heartbeatTick :: int
  electionTimeout :: int
  heartbeatTimeout :: int
  clusterSize :: int
  peers :: "int list"
  stepf :: "role option"
  tickf :: "role option"
  votes :: "(int \<times> bool) list option"
  msgs :: "message list"
  msgsAfterAppend :: "message list"
  readyc :: "ready list"
  raftlog :: raftLog
  progress :: "(int \<times> progress_rec) list"

text \<open>Go's remainder takes the sign of the dividend.\<close>

definition go_rem :: "int \<Rightarrow> int \<Rightarrow> int" where
  "go_rem a b = sgn a * (\<bar>a\<bar> mod \<bar>b\<bar>)"

definition prog_of :: "raft \<Rightarrow> int \<Rightarrow> progress_rec" where
  "prog_of r p = (case map_of (progress r) p of None \<Rightarrow> \<lparr>matchIndex = 0, nextIndex = 0\<rparr> | Some q \<Rightarrow> q)"

definition quorum :: "raft \<Rightarrow> int" where
  "quorum r = clusterSize r div 2 + 1"

section \<open>Roles\<close>

definition becomeFollower :: "raft \<Rightarrow> int \<Rightarrow> raft" where
  "becomeFollower r term =
     (let r1 = r\<lparr>state := StateFollower, currentTerm := term, stepf := Some StateFollower,
                 tickf := Some StateFollower, electionTick := 0\<rparr>;
          r2 = (if electionTimeout r1 > 0
                then r1\<lparr>randomizedTimeout := electionTimeout r1 + go_rem (electionTick r1) (electionTimeout r1)\<rparr>
                else r1)
      in r2\<lparr>votes := None\<rparr>)"

definition becomeCandidate :: "raft \<Rightarrow> raft" where
  "becomeCandidate r =
     (let r1 = r\<lparr>state := StateCandidate, stepf := Some StateCandidate, tickf := Some StateCandidate,
                 electionTick := 0\<rparr>;
          r2 = (if electionTimeout r1 > 0
                then r1\<lparr>randomizedTimeout := electionTimeout r1 + go_rem (electionTick r1) (electionTimeout r1)\<rparr>
                else r1)
      in r2\<lparr>votes := Some []\<rparr>)"

definition becomeLeader :: "raft \<Rightarrow> raft" where
  "becomeLeader r =
     (let r1 = r\<lparr>state := StateLeader, stepf := Some StateLeader, tickf := Some StateLeader,
                 heartbeatTick := 0, votes := None\<rparr>;
          lastIdx = lastIndex (raftlog r1)
      in r1\<lparr>progress := fold (\<lambda>p. AList.update p \<lparr>matchIndex = 0, nextIndex = lastIdx + 1\<rparr>)
              (peers r1) (progress r1)\<rparr>)"

definition isLead :: "raft \<Rightarrow> bool" where
  "isLead r = (state r = StateLeader)"

definition NewRaft :: "int \<Rightarrow> int list \<Rightarrow> raft" where
  "NewRaft i ps =
     (let r = \<lparr>ID = i, currentTerm = 0, votedFor = Map.empty, state = StateFollower, randomizedTimeout = 0,
               electionTick = 0, heartbeatTick = 0, electionTimeout = 10, heartbeatTimeout = 1,
               clusterSize = int (length ps) + 1, peers = remdups ps, stepf = None, tickf = None,
               votes = None, msgs = [], msgsAfterAppend = [], readyc = [], raftlog = newRaftLog,
               progress = []\<rparr>;
          r1 = becomeFollower r 0
      in r1\<lparr>electionTick := go_rem i (electionTimeout r1)\<rparr>)"

section \<open>Elections\<close>

definition sendVoteResponse :: "raft \<Rightarrow> int \<Rightarrow> bool \<Rightarrow> int \<Rightarrow> raft" where
  "sendVoteResponse r to granted term =
     r\<lparr>msgs := msgs r @ [no_message\<lparr>mType := MSG_VOTE_RESP, mTo := to, mFrom := ID r,
         mVoteResp := Some \<lparr>rTerm = term, VoteGranted = granted\<rparr>\<rparr>]\<rparr>"

definition handleVoteRequest :: "raft \<Rightarrow> message \<Rightarrow> raft" where
  "handleVoteRequest r m =
     (case mVote m of
        None \<Rightarrow> r
      | Some voteReq \<Rightarrow>
          let reqTerm = i64 (int (case vTerm voteReq of None \<Rightarrow> 0 | Some t \<Rightarrow> t));
              candidateID = CandidateId voteReq
          in if reqTerm < currentTerm r then sendVoteResponse r candidateID False (currentTerm r)
             else
               let r1 = (if reqTerm > currentTerm r then becomeFollower r reqTerm else r)
               in (case votedFor r1 reqTerm of
                     Some v \<Rightarrow>
                       if v \<noteq> candidateID then sendVoteResponse r1 candidateID False (currentTerm r1)
                       else sendVoteResponse (r1\<lparr>votedFor := (votedFor r1)(reqTerm \<mapsto> candidateID)\<rparr>)
                              candidateID True (currentTerm r1)
                   | None \<Rightarrow>
                       sendVoteResponse (r1\<lparr>votedFor := (votedFor r1)(reqTerm \<mapsto> candidateID)\<rparr>)
                         candidateID True (currentTerm r1)))"

definition handleVoteResponse :: "raft \<Rightarrow> message \<Rightarrow> raft res" where
  "handleVoteResponse r m =
     (case mVoteResp m of
        None \<Rightarrow> Inr r
      | Some voteResp \<Rightarrow>
          let respTerm = rTerm voteResp; peerID = mFrom m
          in if respTerm < currentTerm r then Inr r
             else if respTerm > currentTerm r then Inr (becomeFollower r respTerm)
             else (case votes r of
                     None \<Rightarrow> Inl NilPanic
                   | Some vs \<Rightarrow>
                       let vs' = AList.update peerID (VoteGranted voteResp) vs;
                           r1 = r\<lparr>votes := Some vs'\<rparr>;
                           granted = int (length (filter snd vs'))
                       in Inr (if granted \<ge> quorum r1 then becomeLeader r1 else r1)))"

definition vote_msg :: "raft \<Rightarrow> int \<Rightarrow> message" where
  "vote_msg r p = no_message\<lparr>mType := MSG_VOTE, mTo := p, mFrom := ID r,
     mVote := Some \<lparr>vTerm = Some (i64_bits (currentTerm r)), CandidateId = ID r,
       LastLogIndex = lastIndex (raftlog r), LastLogTerm = lastTerm (raftlog r)\<rparr>\<rparr>"

definition campaign :: "raft \<Rightarrow> raft" where
  "campaign r =
     (let r1 = becomeCandidate r;
          r2 = r1\<lparr>currentTerm := i64 (currentTerm r1 + 1)\<rparr>;
          r3 = r2\<lparr>votedFor := (votedFor r2)(currentTerm r2 \<mapsto> ID r2)\<rparr>;
          r4 = r3\<lparr>votes := map_option (AList.update (ID r3) True) (votes r3)\<rparr>
      in if clusterSize r4 = 1 then becomeLeader r4
         else r4\<lparr>msgs := msgs r4 @ map (vote_msg r4) (peers r4)\<rparr>)"

section \<open>Log replication\<close>

definition append_resp :: "raft \<Rightarrow> int \<Rightarrow> bool \<Rightarrow> message" where
  "append_resp r to success = no_message\<lparr>mType := MSG_APP_RESP, mTo := to, mFrom := ID r,
     mEntriesResp := Some \<lparr>CurrentTerm = currentTerm r, Success = success\<rparr>\<rparr>"

definition sendAppendResponse :: "raft \<Rightarrow> int \<Rightarrow> bool \<Rightarrow> raft" where
  "sendAppendResponse r to success = r\<lparr>msgs := msgs r @ [append_resp r to success]\<rparr>"

definition sendAppendResponseAfterPersist :: "raft \<Rightarrow> int \<Rightarrow> bool \<Rightarrow> raft" where
  "sendAppendResponseAfterPersist r to success =
     r\<lparr>msgsAfterAppend := msgsAfterAppend r @ [append_resp r to success]\<rparr>"

definition prev_mismatch :: "raftLog \<Rightarrow> int \<Rightarrow> int \<Rightarrow> bool res" where
  "prev_mismatch l prevLogIdx prevLogTerm =
     (if prevLogIdx > 0 then
        (if prevLogIdx > lastIndex l then Inr True
         else bindr (log_term l prevLogIdx) (\<lambda>t. Inr (t \<noteq> prevLogTerm)))
      else Inr False)"

definition handleAppendEntries :: "raft \<Rightarrow> message \<Rightarrow> raft res" where
  "handleAppendEntries r m =
     (case mEntries m of
        None \<Rightarrow> Inr r
      | Some ae \<Rightarrow>
          if aTerm ae < currentTerm r then Inr (sendAppendResponse r (mFrom m) False)
          else
            let r1 = (if aTerm ae > currentTerm r then becomeFollower r (aTerm ae) else r)
            in bindr (prev_mismatch (raftlog r1) (PrevLogIdx ae) (PrevLogTerm ae)) (\<lambda>bad.
               if bad then Inr (sendAppendResponse r1 (mFrom m) False)
               else
                 let es = Entries ae;
                     r2 = (if es \<noteq> [] then r1\<lparr>raftlog := log_append (raftlog r1) es\<rparr> else r1);
                     r3 = (if LeaderCommitIdx ae > commitIndex (raftlog r2)
                           then r2\<lparr>raftlog := log_maybeCommit (raftlog r2)
                                  (min (LeaderCommitIdx ae) (lastIndex (raftlog r2)))\<rparr>
                           else r2)
                 in Inr (if es \<noteq> [] then sendAppendResponseAfterPersist r3 (mFrom m) True else r3)))"

definition replicatedCount :: "raft \<Rightarrow> int \<Rightarrow> int" where
  "replicatedCount r index = 1 + int (length (filter (\<lambda>(p, q). matchIndex q \<ge> index) (progress r)))"

fun commit_loop :: "raft \<Rightarrow> int list \<Rightarrow> raft res" where
  "commit_loop r [] = Inr r"
| "commit_loop r (index # rest) =
     (if replicatedCount r index \<ge> quorum r then
        bindr (log_term (raftlog r) index) (\<lambda>t.
          commit_loop (if t = currentTerm r then r\<lparr>raftlog := log_maybeCommit (raftlog r) index\<rparr> else r) rest)
      else commit_loop r rest)"

definition maybeCommit :: "raft \<Rightarrow> raft res" where
  "maybeCommit r = commit_loop r [commitIndex (raftlog r) + 1..lastIndex (raftlog r)]"

definition handleAppendResponse :: "raft \<Rightarrow> message \<Rightarrow> raft res" where
  "handleAppendResponse r m =
     (case mEntriesResp m of
        None \<Rightarrow> Inr r
      | Some resp \<Rightarrow>
          let peerID = mFrom m
          in if CurrentTerm resp > currentTerm r then Inr (becomeFollower r (CurrentTerm resp))
             else if CurrentTerm resp < currentTerm r then Inr r
             else if Success resp then
               let match = lastIndex (raftlog r)
               in maybeCommit (r\<lparr>progress := AList.update peerID
                    \<lparr>matchIndex = match, nextIndex = match + 1\<rparr> (progress r)\<rparr>)
             else
               let prog = prog_of r peerID;
                   prog' = (if nextIndex prog > 1 then prog\<lparr>nextIndex := nextIndex prog - 1\<rparr> else prog)
               in Inr (r\<lparr>progress := AList.update peerID prog' (progress r)\<rparr>))"

text \<open>The term and the sequential identifiers given to the entries of a proposal.\<close>

fun number_entries :: "int \<Rightarrow> int \<Rightarrow> log list \<Rightarrow> log list" where
  "number_entries term nextID [] = []"
| "number_entries term nextID (e # es) = e\<lparr>Term := term, Id := nextID\<rparr> # number_entries term (nextID + 1) es"

definition append_msg :: "raft \<Rightarrow> int \<Rightarrow> message res" where
  "append_msg r p =
     (let prog = prog_of r p;
          prevLogIdx = nextIndex prog - 1
      in bindr (if prevLogIdx > 0 then log_term (raftlog r) prevLogIdx else Inr 0) (\<lambda>prevLogTerm.
         bindr (collect (raftlog r) [nextIndex prog..lastIndex (raftlog r)]) (\<lambda>entriesToSend.
           Inr (no_message\<lparr>mType := MSG_APP, mTo := p, mFrom := ID r,
             mEntries := Some \<lparr>aTerm = currentTerm r, LeaderId = ID r, PrevLogIdx = prevLogIdx,
               PrevLogTerm = prevLogTerm, Entries = entriesToSend,
               LeaderCommitIdx = commitIndex (raftlog r)\<rparr>\<rparr>))))"

fun append_msgs :: "raft \<Rightarrow> int list \<Rightarrow> message list res" where
  "append_msgs r [] = Inr []"
| "append_msgs r (p # ps) =
     bindr (append_msg r p) (\<lambda>m. bindr (append_msgs r ps) (\<lambda>ms. Inr (m # ms)))"

definition raft_replicate :: "raft \<Rightarrow> message \<Rightarrow> (raft \<times> string option) res" where
  "raft_replicate r m =
     (if \<not> isLead r then Inr (r, Some ''is not a leader'')
      else
        let es = (case mEntries m of None \<Rightarrow> [] | Some ae \<Rightarrow> Entries ae)
        in if es = [] then Inr (r, None)
           else
             let es' = number_entries (currentTerm r) (lastIndex (raftlog r) + 1) es;
                 r1 = r\<lparr>raftlog := log_append (raftlog r) es'\<rparr>
             in bindr (append_msgs r1 (peers r1)) (\<lambda>ms.
                  Inr (r1\<lparr>msgsAfterAppend := msgsAfterAppend r1 @ ms\<rparr>, None)))"

definition heartbeat_msg :: "raft \<Rightarrow> int \<Rightarrow> message res" where
  "heartbeat_msg r p =
     (let prevLogIdx = matchIndex (prog_of r p)
      in bindr (log_term (raftlog r) prevLogIdx) (\<lambda>prevLogTerm.
           Inr (no_message\<lparr>mType := MSG_APP, mTo := p, mFrom := ID r,
             mEntries := Some \<lparr>aTerm = currentTerm r, LeaderId = ID r, PrevLogIdx = prevLogIdx,
               PrevLogTerm = prevLogTerm, Entries = [], LeaderCommitIdx = commitIndex (raftlog r)\<rparr>\<rparr>)))"

fun heartbeat_msgs :: "raft \<Rightarrow> int list \<Rightarrow> message list res" where
  "heartbeat_msgs r [] = Inr []"
| "heartbeat_msgs r (p # ps) =
     bindr (heartbeat_msg r p) (\<lambda>m. bindr (heartbeat_msgs r ps) (\<lambda>ms. Inr (m # ms)))"

definition broadcastHeartbeat :: "raft \<Rightarrow> raft res" where
  "broadcastHeartbeat r = bindr (heartbeat_msgs r (peers r)) (\<lambda>ms. Inr (r\<lparr>msgs := msgs r @ ms\<rparr>))"

section \<open>Step and Tick\<close>

text \<open>A step ends with the new state and an optional error, or with a panic.\<close>

definition vote_or_campaign :: "raft \<Rightarrow> message \<Rightarrow> raft" where
  "vote_or_campaign r m = (case mVote m of None \<Rightarrow> campaign r | Some _ \<Rightarrow> handleVoteRequest r m)"

definition done_step :: "raft res \<Rightarrow> (raft \<times> string option) res" where
  "done_step x = bindr x (\<lambda>r. Inr (r, None))"

definition stepFollower :: "raft \<Rightarrow> message \<Rightarrow> (raft \<times> string option) res" where
  "stepFollower r m =
     (case mType m of
        MSG_VOTE \<Rightarrow> Inr (vote_or_campaign r m, None)
      | MSG_APP \<Rightarrow> done_step (handleAppendEntries (r\<lparr>electionTick := 0\<rparr>) m)
      | MSG_HEARTBEAT \<Rightarrow> done_step (handleAppendEntries (r\<lparr>electionTick := 0\<rparr>) m)
      | _ \<Rightarrow> Inr (r, None))"

definition stepCandidate :: "raft \<Rightarrow> message \<Rightarrow> (raft \<times> string option) res" where
  "stepCandidate r m =
     (case mType m of
        MSG_VOTE \<Rightarrow> Inr (vote_or_campaign r m, None)
      | MSG_VOTE_RESP \<Rightarrow> done_step (handleVoteResponse r m)
      | MSG_APP \<Rightarrow> done_step (handleAppendEntries (r\<lparr>electionTick := 0\<rparr>) m)
      | MSG_HEARTBEAT \<Rightarrow> done_step (handleAppendEntries (r\<lparr>electionTick := 0\<rparr>) m)
      | _ \<Rightarrow> Inr (r, None))"

definition stepLeader :: "raft \<Rightarrow> message \<Rightarrow> (raft \<times> string option) res" where
  "stepLeader r m =
     (case mType m of
        MSG_HEARTBEAT \<Rightarrow> done_step (broadcastHeartbeat r)
      | MSG_APP \<Rightarrow> raft_replicate r m
      | MSG_APP_RESP \<Rightarrow> done_step (handleAppendResponse r m)
      | _ \<Rightarrow> Inr (r, None))"

definition Step :: "raft \<Rightarrow> message \<Rightarrow> (raft \<times> string option) res" where
  "Step r m =
     (case stepf r of
        None \<Rightarrow> Inl (PanicMsg ''step function cannot be nil!'')
      | Some StateFollower \<Rightarrow> stepFollower r m
      | Some StateCandidate \<Rightarrow> stepCandidate r m
      | Some StateLeader \<Rightarrow> stepLeader r m)"

text \<open>The ticks drop the error of the step they trigger after logging it.\<close>

definition tickFollower :: "raft \<Rightarrow> raft res" where
  "tickFollower r =
     (let r1 = r\<lparr>electionTick := electionTick r + 1\<rparr>
      in if electionTick r1 \<ge> randomizedTimeout r1
         then bindr (Step (r1\<lparr>electionTick := 0\<rparr>) (no_message\<lparr>mType := MSG_VOTE\<rparr>)) (\<lambda>(r2, e). Inr r2)
         else Inr r1)"

definition tickCandidate :: "raft \<Rightarrow> raft res" where
  "tickCandidate r =
     (let r1 = r\<lparr>electionTick := electionTick r + 1\<rparr>
      in if electionTick r1 \<ge> randomizedTimeout r1
         then bindr (Step (r1\<lparr>electionTick := 0\<rparr>) (no_message\<lparr>mType := MSG_VOTE\<rparr>)) (\<lambda>(r2, e). Inr r2)
         else Inr r1)"

definition tickLeader :: "raft \<Rightarrow> raft res" where
  "tickLeader r =
     (let r1 = r\<lparr>heartbeatTick := heartbeatTick r + 1\<rparr>
      in if heartbeatTick r1 \<ge> heartbeatTimeout r1
         then bindr (Step (r1\<lparr>heartbeatTick := 0\<rparr>) (no_message\<lparr>mType := MSG_HEARTBEAT\<rparr>)) (\<lambda>(r2, e). Inr r2)
         else Inr r1)"

definition Tick :: "raft \<Rightarrow> raft res" where
  "Tick r =
     (case tickf r of
        None \<Rightarrow> Inl NilPanic
      | Some StateFollower \<Rightarrow> tickFollower r
      | Some StateCandidate \<Rightarrow> tickCandidate r
      | Some StateLeader \<Rightarrow> tickLeader r)"

section \<open>Ready and Advance\<close>

definition has_ready :: "raft \<Rightarrow> bool" where
  "has_ready r \<longleftrightarrow> msgs r \<noteq> [] \<or> msgsAfterAppend r \<noteq> []
     \<or> stableIndex (raftlog r) < lastIndex (raftlog r) \<or> commitIndex (raftlog r) > lastApplied (raftlog r)"

text \<open>
  The channel has room for one element; \<open>None\<close> is a send that blocks for ever, since the goroutine
  that would receive is the one that sends.
\<close>

definition Ready :: "raft \<Rightarrow> raft res option" where
  "Ready r =
     (if has_ready r then
        (case bindr (volatileEntries (raftlog r)) (\<lambda>es. bindr (committedEntries (raftlog r)) (\<lambda>cs.
                Inr \<lparr>rdMessages = msgs r, rdEntries = es, rdMessagesAfterAppend = msgsAfterAppend r,
                     rdCommittedEntries = cs,
                     rdHardState = \<lparr>hsTerm = currentTerm r, hsLastCommit = commitIndex (raftlog r),
                                    hsLastApplied = lastApplied (raftlog r)\<rparr>\<rparr>)) of
           Inl e \<Rightarrow> Some (Inl e)
         | Inr rd \<Rightarrow>
             if length (readyc r) < 1
             then Some (Inr (r\<lparr>msgs := [], msgsAfterAppend := [], readyc := readyc r @ [rd]\<rparr>))
             else None)
      else Some (Inr r))"

definition Advance :: "raft \<Rightarrow> raft" where
  "Advance r =
     (let l = raftlog r;
          l1 = (if lastIndex l > stableIndex l then markStableTill l (lastIndex l) else l);
          l2 = (if commitIndex l1 > lastApplied l1 then markAppliedTill l1 (commitIndex l1) else l1)
      in r\<lparr>raftlog := l2\<rparr>)"

lemmas raft_defs = becomeFollower_def becomeCandidate_def becomeLeader_def isLead_def NewRaft_def
  sendVoteResponse_def handleVoteRequest_def handleVoteResponse_def vote_msg_def campaign_def append_resp_def
  sendAppendResponse_def sendAppendResponseAfterPersist_def prev_mismatch_def handleAppendEntries_def
  replicatedCount_def maybeCommit_def handleAppendResponse_def append_msg_def raft_replicate_def
  heartbeat_msg_def broadcastHeartbeat_def vote_or_campaign_def done_step_def stepFollower_def
  stepCandidate_def stepLeader_def Step_def tickFollower_def tickCandidate_def tickLeader_def Tick_def has_ready_def
  Ready_def Advance_def prog_of_def quorum_def go_rem_def

declare raft_defs [go_eval] i64_bits_def [go_eval]

end
