(* ===== verification/Raft_Inv.thy ===== *)
theory Raft_Inv
  imports Raft_Sm
begin

text \<open>
  Invariants of one Raft node. \<open>raft_ok\<close> says that the role, the step and tick functions and the
  vote table agree, that votes are recorded only for terms up to the current one, that the log is
  well formed and that the progress table stays inside it. Every step and tick keeps it, and no
  step or tick of such a node panics.
\<close>

section \<open>The invariant\<close>

definition role_ok :: "raft \<Rightarrow> bool" where
  "role_ok r \<longleftrightarrow> stepf r = Some (state r) \<and> tickf r = Some (state r)
     \<and> (votes r \<noteq> None \<longleftrightarrow> state r = StateCandidate) \<and> randomizedTimeout r = electionTimeout r"

definition votes_ok :: "raft \<Rightarrow> bool" where
  "votes_ok r \<longleftrightarrow> 0 \<le> currentTerm r \<and> (\<forall>t. votedFor r t \<noteq> None \<longrightarrow> t \<le> currentTerm r)"

definition prog_ok :: "raft \<Rightarrow> bool" where
  "prog_ok r \<longleftrightarrow> distinct (map fst (progress r))
     \<and> (\<forall>p. 0 \<le> matchIndex (prog_of r p) \<and> matchIndex (prog_of r p) \<le> lastIndex (raftlog r))
     \<and> (state r = StateLeader \<longrightarrow> (\<forall>p \<in> set (peers r). 1 \<le> nextIndex (prog_of r p)
          \<and> nextIndex (prog_of r p) \<le> lastIndex (raftlog r) + 1))"

definition raft_ok :: "raft \<Rightarrow> bool" where
  "raft_ok r \<longleftrightarrow> role_ok r \<and> votes_ok r \<and> log_wf (raftlog r) \<and> prog_ok r"

text \<open>
  The entries of an append message continue the receiver's log. A leader numbers proposals
  itself, so the condition only concerns the other roles.
\<close>

definition msg_fits :: "raft \<Rightarrow> message \<Rightarrow> bool" where
  "msg_fits r m \<longleftrightarrow> (state r \<noteq> StateLeader \<and> mType m \<in> {MSG_APP, MSG_HEARTBEAT} \<longrightarrow>
     (case mEntries m of None \<Rightarrow> True
      | Some ae \<Rightarrow> \<forall>i < length (Entries ae). Id (Entries ae ! i) = int (length (entries (raftlog r)) + i) + 1))"

text \<open>What every operation leaves alone.\<close>

definition same_node :: "raft \<Rightarrow> raft \<Rightarrow> bool" where
  "same_node r r' \<longleftrightarrow> ID r' = ID r \<and> peers r' = peers r \<and> clusterSize r' = clusterSize r
     \<and> electionTimeout r' = electionTimeout r \<and> heartbeatTimeout r' = heartbeatTimeout r \<and> readyc r' = readyc r"

section \<open>Progress tables\<close>

lemma prog_of_update:
  "prog_of (r\<lparr>progress := AList.update p q (progress r)\<rparr>) p' = (if p' = p then q else prog_of r p')"
  by (simp add: prog_of_def update_conv')

lemma map_of_fold_update:
  "map_of (fold (\<lambda>p. AList.update p q) ps xs) k = (if k \<in> set ps then Some q else map_of xs k)"
  by (induction ps arbitrary: xs) (auto simp: update_conv')

lemma distinct_fold_update:
  "distinct (map fst xs) \<Longrightarrow> distinct (map fst (fold (\<lambda>p. AList.update p q) ps xs))"
  by (induction ps arbitrary: xs) (simp_all add: distinct_update)

lemma lastIndex_nonneg: "log_wf l \<Longrightarrow> 0 \<le> lastIndex l"
  by (simp add: log_wf_def lastIndex_wf)

section \<open>Roles\<close>

lemma becomeFollower_simps [simp]:
  "state (becomeFollower r t) = StateFollower" "currentTerm (becomeFollower r t) = t"
  "votes (becomeFollower r t) = None" "votedFor (becomeFollower r t) = votedFor r"
  "raftlog (becomeFollower r t) = raftlog r" "progress (becomeFollower r t) = progress r"
  "msgs (becomeFollower r t) = msgs r" "msgsAfterAppend (becomeFollower r t) = msgsAfterAppend r"
  "same_node r (becomeFollower r t)" "ID (becomeFollower r t) = ID r" "peers (becomeFollower r t) = peers r"
  "clusterSize (becomeFollower r t) = clusterSize r"
  by (simp_all add: becomeFollower_def Let_def same_node_def)

lemma becomeFollower_ok:
  assumes "raft_ok r" and "currentTerm r \<le> t"
  shows "raft_ok (becomeFollower r t)"
proof -
  have "role_ok (becomeFollower r t)"
    using assms(1) by (auto simp: raft_ok_def role_ok_def becomeFollower_def Let_def go_rem_def)
  then show ?thesis
    using assms by (force simp: raft_ok_def votes_ok_def prog_ok_def prog_of_def)
qed

lemma becomeLeader_simps [simp]:
  "state (becomeLeader r) = StateLeader" "currentTerm (becomeLeader r) = currentTerm r"
  "votedFor (becomeLeader r) = votedFor r" "raftlog (becomeLeader r) = raftlog r"
  "msgs (becomeLeader r) = msgs r" "msgsAfterAppend (becomeLeader r) = msgsAfterAppend r"
  "same_node r (becomeLeader r)" "ID (becomeLeader r) = ID r" "peers (becomeLeader r) = peers r"
  "clusterSize (becomeLeader r) = clusterSize r" "votes (becomeLeader r) = None"
  by (simp_all add: becomeLeader_def Let_def same_node_def)

lemma becomeLeader_prog:
  "prog_of (becomeLeader r) p = (if p \<in> set (peers r)
     then \<lparr>matchIndex = 0, nextIndex = lastIndex (raftlog r) + 1\<rparr> else prog_of r p)"
  by (simp add: prog_of_def becomeLeader_def Let_def map_of_fold_update)

lemma becomeLeader_ok:
  assumes "votes_ok r" and "log_wf (raftlog r)" and "prog_ok r" and "randomizedTimeout r = electionTimeout r"
  shows "raft_ok (becomeLeader r)"
proof -
  have "role_ok (becomeLeader r)"
    using assms(4) by (simp add: role_ok_def becomeLeader_def Let_def)
  moreover have "votes_ok (becomeLeader r)" using assms(1) by (simp add: votes_ok_def)
  moreover have "distinct (map fst (progress (becomeLeader r)))"
    using assms(3) by (simp add: becomeLeader_def Let_def distinct_fold_update prog_ok_def)
  ultimately show ?thesis
    using assms(2,3) lastIndex_nonneg [OF assms(2)]
    by (auto simp: raft_ok_def prog_ok_def becomeLeader_prog)
qed

section \<open>Elections\<close>

text \<open>The candidate that \<^verbatim>\<open>campaign\<close> makes, before it counts its own vote as a victory.\<close>

definition candidate :: "raft \<Rightarrow> raft" where
  "candidate r = (becomeCandidate r)\<lparr>currentTerm := i64 (currentTerm r + 1),
     votedFor := (votedFor r)(i64 (currentTerm r + 1) \<mapsto> ID r), votes := Some [(ID r, True)]\<rparr>"

lemma becomeCandidate_simps [simp]:
  "currentTerm (becomeCandidate r) = currentTerm r" "votedFor (becomeCandidate r) = votedFor r"
  "ID (becomeCandidate r) = ID r" "votes (becomeCandidate r) = Some []"
  "clusterSize (becomeCandidate r) = clusterSize r" "state (becomeCandidate r) = StateCandidate"
  "raftlog (becomeCandidate r) = raftlog r" "progress (becomeCandidate r) = progress r"
  "msgs (becomeCandidate r) = msgs r" "msgsAfterAppend (becomeCandidate r) = msgsAfterAppend r"
  "peers (becomeCandidate r) = peers r" "same_node r (becomeCandidate r)"
  by (simp_all add: becomeCandidate_def Let_def same_node_def)

lemma campaign_eq:
  "campaign r = (if clusterSize r = 1 then becomeLeader (candidate r)
     else (candidate r)\<lparr>msgs := msgs r @ map (vote_msg (candidate r)) (peers r)\<rparr>)"
proof -
  have "(let r1 = becomeCandidate r;
          r2 = r1\<lparr>currentTerm := i64 (currentTerm r1 + 1)\<rparr>;
          r3 = r2\<lparr>votedFor := (votedFor r2)(currentTerm r2 \<mapsto> ID r2)\<rparr>
        in r3\<lparr>votes := map_option (AList.update (ID r3) True) (votes r3)\<rparr>) = candidate r"
    by (simp add: candidate_def Let_def)
  then show ?thesis by (simp add: campaign_def Let_def candidate_def)
qed

lemma candidate_ok:
  assumes "raft_ok r" and "currentTerm r < 2 ^ 63 - 1"
  shows "raft_ok (candidate r)" and "currentTerm (candidate r) = currentTerm r + 1"
proof -
  have t: "i64 (currentTerm r + 1) = currentTerm r + 1"
    using assms by (simp add: raft_ok_def votes_ok_def i64_id in_i64_def)
  then show "currentTerm (candidate r) = currentTerm r + 1" by (simp add: candidate_def)
  have "role_ok (candidate r)"
    using assms(1) by (auto simp: raft_ok_def role_ok_def candidate_def becomeCandidate_def Let_def go_rem_def)
  moreover have "votes_ok (candidate r)"
    using assms(1) t by (force simp: raft_ok_def votes_ok_def candidate_def)
  ultimately show "raft_ok (candidate r)"
    using assms(1) by (auto simp: raft_ok_def prog_ok_def prog_of_def candidate_def)
qed

lemma raft_ok_msgs [simp]:
  "raft_ok (r\<lparr>msgs := ms\<rparr>) = raft_ok r" "raft_ok (r\<lparr>msgsAfterAppend := ms\<rparr>) = raft_ok r"
  "raft_ok (r\<lparr>electionTick := t\<rparr>) = raft_ok r" "raft_ok (r\<lparr>heartbeatTick := t\<rparr>) = raft_ok r"
  by (simp_all add: raft_ok_def role_ok_def votes_ok_def prog_ok_def prog_of_def)

lemma campaign_ok:
  assumes "raft_ok r" and "currentTerm r < 2 ^ 63 - 1"
  shows "raft_ok (campaign r)"
  using candidate_ok [OF assms] becomeLeader_ok [of "candidate r"]
  by (auto simp: campaign_eq raft_ok_def [of "candidate r"] role_ok_def)

lemma handleVoteRequest_ok:
  assumes "raft_ok r"
  shows "raft_ok (handleVoteRequest r m)"
proof (cases "mVote m")
  case (Some q)
  define t where "t = i64 (int (case vTerm q of None \<Rightarrow> 0 | Some t \<Rightarrow> t))"
  define r1 where "r1 = (if t > currentTerm r then becomeFollower r t else r)"
  show ?thesis
  proof (cases "t < currentTerm r")
    case False
    then have r1: "raft_ok r1" "currentTerm r1 = t"
      using assms becomeFollower_ok [of r t] by (auto simp: r1_def)
    then have "raft_ok (r1\<lparr>votedFor := (votedFor r1)(t \<mapsto> c)\<rparr>)" for c
      by (auto simp: raft_ok_def role_ok_def votes_ok_def prog_ok_def prog_of_def)
    then show ?thesis
      using False r1 Some
      by (auto simp: handleVoteRequest_def Let_def t_def [symmetric] r1_def [symmetric] sendVoteResponse_def
            split: option.splits)
  qed (use assms Some in \<open>simp add: handleVoteRequest_def Let_def t_def [symmetric] sendVoteResponse_def\<close>)
qed (use assms in \<open>simp add: handleVoteRequest_def\<close>)

lemma handleVoteResponse_ok:
  assumes "raft_ok r" and "state r = StateCandidate"
  shows "\<exists>r'. handleVoteResponse r m = Inr r' \<and> raft_ok r'"
proof (cases "mVoteResp m")
  case (Some v)
  obtain vs where vs: "votes r = Some vs" using assms by (auto simp: raft_ok_def role_ok_def)
  let ?r = "r\<lparr>votes := Some (AList.update (mFrom m) (VoteGranted v) vs)\<rparr>"
  have r: "raft_ok ?r"
    using assms by (auto simp: raft_ok_def role_ok_def votes_ok_def prog_ok_def prog_of_def)
  then have "raft_ok (becomeLeader ?r)"
    by (intro becomeLeader_ok) (auto simp: raft_ok_def role_ok_def)
  with r show ?thesis
    using assms becomeFollower_ok [OF assms(1), of "rTerm v"] vs Some
    by (auto simp: handleVoteResponse_def Let_def)
qed (use assms in \<open>simp add: handleVoteResponse_def\<close>)

section \<open>Appending on followers\<close>

lemma prev_mismatch_total:
  assumes "log_wf l"
  shows "\<exists>bad. prev_mismatch l i t = Inr bad"
proof (cases "0 < i \<and> i \<le> lastIndex l")
  case True
  then show ?thesis
    using log_term_wf [of l i] assms by (simp add: prev_mismatch_def log_wf_def)
qed (auto simp: prev_mismatch_def)

lemma raft_ok_log:
  assumes "raft_ok r" and "log_wf l" and "lastIndex (raftlog r) \<le> lastIndex l"
  shows "raft_ok (r\<lparr>raftlog := l\<rparr>)"
proof -
  have "prog_ok (r\<lparr>raftlog := l\<rparr>)"
    using assms(1,3) unfolding prog_ok_def raft_ok_def prog_of_def
    by (simp add: order_trans [OF _ assms(3)]) (meson add_right_mono assms(3) order_trans)
  with assms(1,2) show ?thesis by (simp add: raft_ok_def role_ok_def votes_ok_def)
qed

lemma lastIndex_append_le:
  assumes "log_wf l" and "\<forall>i < length es. Id (es ! i) = int (length (entries l) + i) + 1"
  shows "lastIndex l \<le> lastIndex (log_append l es)" "log_wf (log_append l es)"
proof -
  show wf: "log_wf (log_append l es)" by (rule log_wf_append [OF assms])
  then show "lastIndex l \<le> lastIndex (log_append l es)"
    using assms(1) by (simp add: log_wf_def lastIndex_wf) (simp add: log_append_def)
qed

lemma lastIndex_maybeCommit [simp]: "lastIndex (log_maybeCommit l i) = lastIndex l"
  by (simp add: log_maybeCommit_def lastIndex_def)

lemma handleAppendEntries_ok:
  assumes ok: "raft_ok r" and fits: "\<And>ae. mEntries m = Some ae \<Longrightarrow>
    \<forall>i < length (Entries ae). Id (Entries ae ! i) = int (length (entries (raftlog r)) + i) + 1"
  shows "\<exists>r'. handleAppendEntries r m = Inr r' \<and> raft_ok r'"
proof (cases "mEntries m")
  case (Some ae)
  show ?thesis
  proof (cases "aTerm ae < currentTerm r")
    case True
    with Some ok show ?thesis by (simp add: handleAppendEntries_def sendAppendResponse_def)
  next
    case False
    define r1 where "r1 = (if aTerm ae > currentTerm r then becomeFollower r (aTerm ae) else r)"
    have r1: "raft_ok r1" "raftlog r1 = raftlog r"
      using ok becomeFollower_ok [OF ok, of "aTerm ae"] by (auto simp: r1_def)
    have wf: "log_wf (raftlog r)" using ok by (simp add: raft_ok_def)
    obtain bad where bad: "prev_mismatch (raftlog r1) (PrevLogIdx ae) (PrevLogTerm ae) = Inr bad"
      using prev_mismatch_total [OF wf] r1(2) by auto
    define r2 where "r2 = (if Entries ae \<noteq> [] then r1\<lparr>raftlog := log_append (raftlog r1) (Entries ae)\<rparr> else r1)"
    have r2: "raft_ok r2"
      using r1 raft_ok_log [OF r1(1)] lastIndex_append_le [OF wf fits [OF Some]] by (simp add: r2_def)
    then have "raft_ok (r2\<lparr>raftlog := log_maybeCommit (raftlog r2) i\<rparr>)" for i
      using log_wf_ops(1) [of "raftlog r2" i] by (intro raft_ok_log) (simp_all add: raft_ok_def)
    then have r3: "raft_ok (if b then r2\<lparr>raftlog := log_maybeCommit (raftlog r2) i\<rparr> else r2)" for b i
      using r2 by simp
    have eq: "handleAppendEntries r m = (if bad then Inr (sendAppendResponse r1 (mFrom m) False)
      else let r3 = (if LeaderCommitIdx ae > commitIndex (raftlog r2)
                     then r2\<lparr>raftlog := log_maybeCommit (raftlog r2)
                            (min (LeaderCommitIdx ae) (lastIndex (raftlog r2)))\<rparr> else r2)
           in Inr (if Entries ae \<noteq> [] then sendAppendResponseAfterPersist r3 (mFrom m) True else r3))"
      by (simp only: handleAppendEntries_def Some option.case False if_False Let_def r1_def [symmetric] bad
            bindr.simps r2_def [symmetric])
    show ?thesis
      unfolding eq Let_def using r1(1) r3
      by (cases bad; cases "Entries ae = []")
        (simp_all add: sendAppendResponse_def sendAppendResponseAfterPersist_def del: if_split)
  qed
qed (use ok in \<open>simp add: handleAppendEntries_def\<close>)

section \<open>Committing on the leader\<close>

text \<open>An index the leader may commit: a quorum has it, and it is an entry of the current term.\<close>

definition committable :: "raft \<Rightarrow> int \<Rightarrow> bool" where
  "committable r i \<longleftrightarrow> quorum r \<le> replicatedCount r i \<and> 0 < i \<and> i \<le> lastIndex (raftlog r)
     \<and> Term (entries (raftlog r) ! nat (i - 1)) = currentTerm r"

lemma committable_cong:
  "committable (r\<lparr>raftlog := (raftlog r)\<lparr>commitIndex := c\<rparr>\<rparr>) i = committable r i"
  by (simp add: committable_def quorum_def replicatedCount_def lastIndex_def)

lemma Max_insert_max: "finite A \<Longrightarrow> Max (insert (max a b) A) = Max (insert a (insert b A))"
  for a b :: int
  by (cases "A = {}") (simp_all add: max.assoc)

lemma commit_loop_spec:
  assumes "log_wf (raftlog r)" and "\<forall>i \<in> set ks. 0 < i \<and> i \<le> lastIndex (raftlog r)"
  shows "commit_loop r ks = Inr (r\<lparr>raftlog := (raftlog r)\<lparr>commitIndex :=
    Max (insert (commitIndex (raftlog r)) {i \<in> set ks. committable r i})\<rparr>\<rparr>)"
  using assms
proof (induction ks arbitrary: r)
  case (Cons i ks)
  let ?l = "raftlog r" and ?c = "commitIndex (raftlog r)"
  have i: "0 < i" "i \<le> lastIndex ?l" using Cons.prems(2) by auto
  have last: "lastIndex ?l = int (length (entries ?l))" using Cons.prems(1) by (simp add: log_wf_def lastIndex_wf)
  have tm: "log_term ?l i = Inr (Term (entries ?l ! nat (i - 1)))"
    using log_term_wf [of ?l i] Cons.prems(1) i last by (simp add: log_wf_def)
  define r1 where "r1 = (if committable r i then r\<lparr>raftlog := log_maybeCommit ?l i\<rparr> else r)"
  have r1: "r1 = r\<lparr>raftlog := ?l\<lparr>commitIndex := (if committable r i then max ?c i else ?c)\<rparr>\<rparr>"
    using i by (auto simp: r1_def log_maybeCommit_def max_def)
  have "commit_loop r (i # ks) = commit_loop r1 ks"
    using tm i by (auto simp: r1_def committable_def)
  also have "\<dots> = Inr (r1\<lparr>raftlog := (raftlog r1)\<lparr>commitIndex :=
      Max (insert (commitIndex (raftlog r1)) {i \<in> set ks. committable r1 i})\<rparr>\<rparr>)"
  proof (rule Cons.IH)
    show "log_wf (raftlog r1)" using Cons.prems(1) by (simp add: r1_def log_wf_ops)
    show "\<forall>i \<in> set ks. 0 < i \<and> i \<le> lastIndex (raftlog r1)"
      using Cons.prems(2) by (auto simp: r1_def)
  qed
  also have "{j \<in> set ks. committable r1 j} = {j \<in> set ks. committable r j}"
    unfolding r1 by (simp add: committable_cong)
  also have "Max (insert (commitIndex (raftlog r1)) {j \<in> set ks. committable r j})
      = Max (insert ?c {j \<in> set (i # ks). committable r j})"
  proof (cases "committable r i")
    case True
    then have "{j \<in> set (i # ks). committable r j} = insert i {j \<in> set ks. committable r j}" by auto
    moreover have "commitIndex (raftlog r1) = max ?c i" using True by (simp add: r1)
    ultimately show ?thesis by (simp only: Max_insert_max finite_Collect_conjI finite_set Collect_mem_eq simp_thms)
  next
    case False
    then have "{j \<in> set (i # ks). committable r j} = {j \<in> set ks. committable r j}" by auto
    then show ?thesis using False by (simp add: r1)
  qed
  finally show ?case by (simp add: r1)
qed simp

lemma maybeCommit_spec:
  assumes "log_wf (raftlog r)"
  shows "maybeCommit r = Inr (r\<lparr>raftlog := (raftlog r)\<lparr>commitIndex :=
    Max (insert (commitIndex (raftlog r)) {i. commitIndex (raftlog r) < i \<and> committable r i})\<rparr>\<rparr>)"
proof -
  let ?c = "commitIndex (raftlog r)" and ?n = "lastIndex (raftlog r)"
  have E: "{i \<in> set [?c + 1..?n]. committable r i} = {i. ?c < i \<and> committable r i}"
    by (auto simp: committable_def)
  have "\<forall>i \<in> set [?c + 1..?n]. 0 < i \<and> i \<le> ?n" using assms by (auto simp: log_wf_def)
  from commit_loop_spec [OF assms this] show ?thesis unfolding maybeCommit_def E .
qed

lemma finite_committable: "finite {i. c < i \<and> committable r i}"
  by (rule finite_subset [of _ "{c..lastIndex (raftlog r)}"]) (auto simp: committable_def)

lemma maybeCommit_ok:
  assumes "raft_ok r"
  shows "\<exists>r'. maybeCommit r = Inr r' \<and> raft_ok r'"
proof -
  let ?c = "commitIndex (raftlog r)"
  let ?m = "Max (insert ?c {i. ?c < i \<and> committable r i})"
  have wf: "log_wf (raftlog r)" using assms by (simp add: raft_ok_def)
  have "?m \<in> insert ?c {i. ?c < i \<and> committable r i}" using finite_committable by (intro Max_in) auto
  then have "?c \<le> ?m" "?m \<le> lastIndex (raftlog r)"
    using wf lastIndex_wf [of "raftlog r"] by (auto simp: committable_def log_wf_def)
  then have "log_wf ((raftlog r)\<lparr>commitIndex := ?m\<rparr>)"
    using wf lastIndex_wf [of "raftlog r"] by (auto simp: log_wf_def)
  then show ?thesis
    using maybeCommit_spec [OF wf] raft_ok_log [OF assms, of "(raftlog r)\<lparr>commitIndex := ?m\<rparr>"]
    by (simp add: lastIndex_def)
qed

lemma handleAppendResponse_ok:
  assumes "raft_ok r" and "state r = StateLeader"
  shows "\<exists>r'. handleAppendResponse r m = Inr r' \<and> raft_ok r'"
proof (cases "mEntriesResp m")
  case (Some resp)
  have upd: "raft_ok (r\<lparr>progress := AList.update p q (progress r)\<rparr>)"
    if "0 \<le> matchIndex q" "matchIndex q \<le> lastIndex (raftlog r)"
      "p \<in> set (peers r) \<longrightarrow> 1 \<le> nextIndex q \<and> nextIndex q \<le> lastIndex (raftlog r) + 1" for p q
    using assms that
    by (auto simp: raft_ok_def role_ok_def votes_ok_def prog_ok_def prog_of_update distinct_update)
  have wf: "log_wf (raftlog r)" using assms(1) by (simp add: raft_ok_def)
  let ?q = "prog_of r (mFrom m)"
  let ?q' = "if nextIndex ?q > 1 then ?q\<lparr>nextIndex := nextIndex ?q - 1\<rparr> else ?q"
  have "raft_ok (r\<lparr>progress := AList.update (mFrom m) ?q' (progress r)\<rparr>)"
    using assms by (intro upd) (auto simp: raft_ok_def prog_ok_def)
  moreover have "\<exists>r'. maybeCommit (r\<lparr>progress := AList.update (mFrom m)
      \<lparr>matchIndex = lastIndex (raftlog r), nextIndex = lastIndex (raftlog r) + 1\<rparr> (progress r)\<rparr>) = Inr r' \<and> raft_ok r'"
    using lastIndex_nonneg [OF wf] by (intro maybeCommit_ok upd) simp_all
  ultimately show ?thesis
    using Some assms(1) becomeFollower_ok [OF assms(1)] by (simp add: handleAppendResponse_def Let_def)
qed (use assms in \<open>simp add: handleAppendResponse_def\<close>)

section \<open>Replication and heartbeats\<close>

lemma number_entries_nth:
  "length (number_entries t n es) = length es"
  "i < length es \<Longrightarrow> Id (number_entries t n es ! i) = n + int i \<and> Term (number_entries t n es ! i) = t
     \<and> Data (number_entries t n es ! i) = Data (es ! i)"
proof (induction t n es arbitrary: i rule: number_entries.induct)
  case (2 t n e es)
  {
    case 1
    then show ?case using "2.IH"(1) by simp
  next
    case 2
    then show ?case using "2.IH"(2) [of "i - 1"] by (cases i) simp_all
  }
qed simp_all

lemma append_msg_eq:
  assumes ok: "raft_ok r" and lead: "state r = StateLeader" and p: "p \<in> set (peers r)"
  defines "k \<equiv> nextIndex (prog_of r p) - 1"
  shows "append_msg r p = Inr (no_message\<lparr>mType := MSG_APP, mTo := p, mFrom := ID r,
    mEntries := Some \<lparr>aTerm = currentTerm r, LeaderId = ID r, PrevLogIdx = k,
      PrevLogTerm = (if k = 0 then 0 else Term (entries (raftlog r) ! nat (k - 1))),
      Entries = drop (nat k) (entries (raftlog r)), LeaderCommitIdx = commitIndex (raftlog r)\<rparr>\<rparr>)"
proof -
  let ?l = "raftlog r"
  have wf: "log_wf ?l" and pos: "positions (entries ?l)" using ok by (simp_all add: raft_ok_def log_wf_def)
  have last: "lastIndex ?l = int (length (entries ?l))" using pos by (rule lastIndex_wf)
  have k: "0 \<le> k" "k \<le> int (length (entries ?l))"
    using ok lead p last by (auto simp: raft_ok_def prog_ok_def k_def)
  have "collect ?l [k + 1..lastIndex ?l] = Inr (drop (nat k) (entries ?l))"
    using collect_range [of k "lastIndex ?l" ?l] k last by (simp add: range_of_def nat_diff_distrib)
  moreover have "nextIndex (prog_of r p) = k + 1" by (simp add: k_def)
  ultimately show ?thesis
    using log_term_wf [OF pos k(1)] k by (cases "k = 0") (simp_all add: append_msg_def Let_def)
qed

lemma append_msgs_map:
  assumes "raft_ok r" and "state r = StateLeader" and "set ps \<subseteq> set (peers r)"
  shows "\<exists>ms. append_msgs r ps = Inr ms \<and> map mTo ms = ps \<and> (\<forall>m \<in> set ms. append_msg r (mTo m) = Inr m)"
  using assms(3)
proof (induction ps)
  case (Cons p ps)
  obtain m where "append_msg r p = Inr m" "mTo m = p"
    using append_msg_eq [OF assms(1,2), of p] Cons.prems by simp
  with Cons show ?case by auto
qed simp

lemma raft_replicate_ok:
  assumes ok: "raft_ok r" and lead: "state r = StateLeader"
  shows "\<exists>r'. raft_replicate r m = Inr (r', None) \<and> raft_ok r'"
proof (cases "\<exists>ae. mEntries m = Some ae \<and> Entries ae \<noteq> []")
  case True
  then obtain ae where ae: "mEntries m = Some ae" "Entries ae \<noteq> []" by blast
  let ?l = "raftlog r"
  let ?es = "number_entries (currentTerm r) (lastIndex ?l + 1) (Entries ae)"
  let ?r = "r\<lparr>raftlog := log_append ?l ?es\<rparr>"
  have wf: "log_wf ?l" using ok by (simp add: raft_ok_def)
  then have "\<forall>i < length ?es. Id (?es ! i) = int (length (entries ?l) + i) + 1"
    by (simp add: number_entries_nth log_wf_def lastIndex_wf)
  from lastIndex_append_le [OF wf this] have r: "raft_ok ?r" by (intro raft_ok_log [OF ok])
  obtain ms where "append_msgs ?r (peers ?r) = Inr ms"
    using append_msgs_map [OF r, of "peers ?r"] lead by auto
  then show ?thesis using ae lead r by (simp add: raft_replicate_def isLead_def Let_def)
next
  case False
  then show ?thesis using ok lead by (auto simp: raft_replicate_def isLead_def Let_def split: option.splits)
qed

lemma heartbeat_msgs_ok:
  assumes "raft_ok r"
  shows "\<exists>ms. heartbeat_msgs r ps = Inr ms \<and> map mTo ms = ps"
proof (induction ps)
  case (Cons p ps)
  have "\<exists>t. log_term (raftlog r) (matchIndex (prog_of r p)) = Inr t"
    using assms log_term_wf [of "raftlog r"] by (simp add: raft_ok_def prog_ok_def log_wf_def)
  with Cons show ?case by (auto simp: heartbeat_msg_def Let_def)
qed simp

section \<open>Every step keeps the invariant\<close>

lemma Step_ok:
  assumes ok: "raft_ok r" and fits: "msg_fits r m" and small: "currentTerm r < 2 ^ 63 - 1"
  shows "\<exists>r' e. Step r m = Inr (r', e) \<and> raft_ok r'"
proof -
  have role: "stepf r = Some (state r)" using ok by (simp add: raft_ok_def role_ok_def)
  have vote: "raft_ok (vote_or_campaign r m)"
    using handleVoteRequest_ok [OF ok] campaign_ok [OF ok small]
    by (simp add: vote_or_campaign_def split: option.splits)
  have app: "\<exists>r'. handleAppendEntries (r\<lparr>electionTick := 0\<rparr>) m = Inr r' \<and> raft_ok r'"
    if "state r \<noteq> StateLeader" "mType m = MSG_APP \<or> mType m = MSG_HEARTBEAT"
    by (rule handleAppendEntries_ok) (use ok fits that in \<open>auto simp: msg_fits_def\<close>)
  show ?thesis
  proof (cases "state r")
    case StateFollower
    then show ?thesis using role vote app ok
      by (auto simp: Step_def stepFollower_def done_step_def split: message_type.splits)
  next
    case StateCandidate
    then show ?thesis using role vote app ok handleVoteResponse_ok [OF ok, of m]
      by (auto simp: Step_def stepCandidate_def done_step_def split: message_type.splits)
  next
    case StateLeader
    obtain ms where "heartbeat_msgs r (peers r) = Inr ms" using heartbeat_msgs_ok [OF ok] by blast
    then have "\<exists>r'. broadcastHeartbeat r = Inr r' \<and> raft_ok r'" using ok by (simp add: broadcastHeartbeat_def)
    then show ?thesis
      using role StateLeader ok handleAppendResponse_ok [OF ok StateLeader, of m]
        raft_replicate_ok [OF ok StateLeader, of m]
      by (auto simp: Step_def stepLeader_def done_step_def split: message_type.splits)
  qed
qed

lemma Tick_ok:
  assumes ok: "raft_ok r" and small: "currentTerm r < 2 ^ 63 - 1"
  shows "\<exists>r'. Tick r = Inr r' \<and> raft_ok r'"
proof -
  have tick: "tickf r = Some (state r)" using ok by (simp add: raft_ok_def role_ok_def)
  have step: "\<exists>r' e. Step r1 (no_message\<lparr>mType := t\<rparr>) = Inr (r', e) \<and> raft_ok r'"
    if "raft_ok r1" "currentTerm r1 = currentTerm r" for r1 t
    using that small by (intro Step_ok) (auto simp: msg_fits_def no_message_def)
  show ?thesis
  proof (cases "state r")
    case StateLeader
    then show ?thesis
      using tick ok step [of "r\<lparr>heartbeatTick := 0\<rparr>" MSG_HEARTBEAT]
      by (fastforce simp: Tick_def tickLeader_def Let_def)
  qed (use tick ok step [of "r\<lparr>electionTick := 0\<rparr>" MSG_VOTE] in
      \<open>fastforce simp: Tick_def tickFollower_def tickCandidate_def Let_def\<close>)+
qed

lemma NewRaft_ok: "raft_ok (NewRaft i ps)"
  by (simp add: NewRaft_def Let_def becomeFollower_def raft_ok_def role_ok_def votes_ok_def prog_ok_def prog_of_def
        log_wf_new go_rem_def) (simp add: newRaftLog_def lastIndex_def)

section \<open>Ready and Advance\<close>

lemma Ready_eq:
  assumes "log_wf (raftlog r)" and "readyc r = []"
  shows "Ready r = Some (Inr (if has_ready r then r\<lparr>msgs := [], msgsAfterAppend := [],
    readyc := [\<lparr>rdMessages = msgs r, rdEntries = range_of (raftlog r) (stableIndex (raftlog r)) (int (length (entries (raftlog r)))),
      rdMessagesAfterAppend = msgsAfterAppend r,
      rdCommittedEntries = range_of (raftlog r) (lastApplied (raftlog r)) (commitIndex (raftlog r)),
      rdHardState = \<lparr>hsTerm = currentTerm r, hsLastCommit = commitIndex (raftlog r),
                     hsLastApplied = lastApplied (raftlog r)\<rparr>\<rparr>]\<rparr> else r))"
  using assms by (simp add: Ready_def volatileEntries_wf committedEntries_wf)

lemma Advance_log:
  assumes "log_wf (raftlog r)"
  shows "raftlog (Advance r) = (raftlog r)\<lparr>stableIndex := int (length (entries (raftlog r))),
    lastApplied := commitIndex (raftlog r)\<rparr>"
  using assms
  by (auto simp: Advance_def Let_def markStableTill_def markAppliedTill_def log_wf_def lastIndex_wf)

lemma Advance_ok:
  assumes "raft_ok r"
  shows "raft_ok (Advance r)"
proof -
  have wf: "log_wf (raftlog r)" using assms by (simp add: raft_ok_def)
  then have "raft_ok (r\<lparr>raftlog := (raftlog r)\<lparr>stableIndex := int (length (entries (raftlog r))),
      lastApplied := commitIndex (raftlog r)\<rparr>\<rparr>)"
    by (intro raft_ok_log [OF assms]) (auto simp: log_wf_def lastIndex_def)
  moreover have "Advance r = r\<lparr>raftlog := raftlog (Advance r)\<rparr>" by (simp add: Advance_def Let_def)
  ultimately show ?thesis using Advance_log [OF wf] by simp
qed

end
