(* ===== verification/Raft_Election.thy ===== *)
theory Raft_Election
  imports Raft_Inv
begin

text \<open>
  Elections. \<open>vote_step\<close> says what one step of a node does to terms, votes and vote messages: a
  vote once given is never changed, a grant is sent only for a recorded vote, and a node that
  counts a vote has either cast it itself, counted it before, or just received it. Every handler
  is such a step, without any assumption on its log.
\<close>

section \<open>What a step does to the votes\<close>

definition vote_node :: "raft \<Rightarrow> bool" where
  "vote_node r \<longleftrightarrow> role_ok r \<and> votes_ok r \<and> (\<forall>vs. votes r = Some vs \<longrightarrow> distinct (map fst vs))"

definition grants :: "message \<Rightarrow> int \<Rightarrow> bool" where
  "grants m t \<longleftrightarrow> mType m = MSG_VOTE_RESP \<and> mVoteResp m = Some \<lparr>rTerm = t, VoteGranted = True\<rparr>"

definition outbox :: "raft \<Rightarrow> message set" where
  "outbox r = set (msgs r) \<union> set (msgsAfterAppend r)"

text \<open>The vote of \<open>j\<close> that \<open>r'\<close> counts in its current term is accounted for.\<close>

definition backed :: "message option \<Rightarrow> raft \<Rightarrow> raft \<Rightarrow> int \<Rightarrow> bool" where
  "backed im r r' j \<longleftrightarrow> j = ID r \<and> votedFor r' (currentTerm r') = Some (ID r)
     \<or> state r = StateCandidate \<and> currentTerm r' = currentTerm r \<and> (\<exists>vs. votes r = Some vs \<and> (j, True) \<in> set vs)
     \<or> (\<exists>m. im = Some m \<and> mFrom m = j \<and> grants m (currentTerm r'))"

definition vote_step :: "message option \<Rightarrow> raft \<Rightarrow> raft \<Rightarrow> bool" where
  "vote_step im r r' \<longleftrightarrow> same_node r r' \<and> vote_node r' \<and> currentTerm r \<le> currentTerm r'
     \<and> votedFor r \<subseteq>\<^sub>m votedFor r'
     \<and> (\<forall>m \<in> outbox r'. m \<in> outbox r \<or> (\<forall>t. grants m t \<longrightarrow> mFrom m = ID r \<and> votedFor r' t = Some (mTo m)))
     \<and> (\<forall>vs j. votes r' = Some vs \<and> (j, True) \<in> set vs \<longrightarrow> backed im r r' j)
     \<and> (state r' = StateLeader \<longrightarrow> state r = StateLeader \<and> currentTerm r' = currentTerm r
          \<or> (\<exists>Q. finite Q \<and> quorum r \<le> int (card Q) \<and> (\<forall>j \<in> Q. backed im r r' j)))"

text \<open>A change that does not touch the election at all.\<close>

definition quiet :: "raft \<Rightarrow> raft \<Rightarrow> bool" where
  "quiet r r' \<longleftrightarrow> same_node r r' \<and> currentTerm r' = currentTerm r \<and> votedFor r' = votedFor r
     \<and> state r' = state r \<and> stepf r' = stepf r \<and> tickf r' = tickf r \<and> votes r' = votes r
     \<and> randomizedTimeout r' = randomizedTimeout r
     \<and> (\<forall>m \<in> outbox r'. m \<in> outbox r \<or> mType m \<noteq> MSG_VOTE_RESP)"

lemma same_node_refl [simp]: "same_node r r"
  by (simp add: same_node_def)

lemma quiet_node: "quiet r r' \<Longrightarrow> vote_node r \<Longrightarrow> vote_node r'"
  by (auto simp: quiet_def vote_node_def role_ok_def votes_ok_def same_node_def)

lemma quiet_refl [simp]: "quiet r r"
  by (simp add: quiet_def)

lemma quiet_trans: "quiet r r1 \<Longrightarrow> quiet r1 r2 \<Longrightarrow> quiet r r2"
  unfolding quiet_def same_node_def by fastforce

lemma vote_step_quiet:
  assumes v: "vote_step im r r1" and q: "quiet r1 r2"
  shows "vote_step im r r2"
proof -
  have eq: "currentTerm r2 = currentTerm r1" "votedFor r2 = votedFor r1" "votes r2 = votes r1" "state r2 = state r1"
    using q by (simp_all add: quiet_def)
  then have "backed im r r2 j = backed im r r1 j" for j by (simp add: backed_def)
  moreover have "same_node r r2" using v q by (auto simp: vote_step_def quiet_def same_node_def)
  moreover have "vote_node r2" using quiet_node [OF q] v by (simp add: vote_step_def)
  moreover have "\<forall>m \<in> outbox r2. m \<in> outbox r \<or> (\<forall>t. grants m t \<longrightarrow> mFrom m = ID r \<and> votedFor r2 t = Some (mTo m))"
  proof
    fix m assume "m \<in> outbox r2"
    with q have "m \<in> outbox r1 \<or> mType m \<noteq> MSG_VOTE_RESP" by (simp add: quiet_def)
    with v eq(2) show "m \<in> outbox r \<or> (\<forall>t. grants m t \<longrightarrow> mFrom m = ID r \<and> votedFor r2 t = Some (mTo m))"
      by (auto simp: vote_step_def grants_def)
  qed
  ultimately show ?thesis using v eq by (simp add: vote_step_def) blast
qed

lemma vote_step_refl: "vote_node r \<Longrightarrow> vote_step im r r"
  by (auto simp: vote_step_def backed_def vote_node_def role_ok_def)

lemma quiet_vote_step: "vote_node r \<Longrightarrow> quiet r r' \<Longrightarrow> vote_step im r r'"
  using vote_step_quiet vote_step_refl by blast

section \<open>The handlers\<close>

lemma becomeFollower_vote:
  assumes "vote_node r" and "currentTerm r \<le> t"
  shows "vote_step im r (becomeFollower r t)"
proof -
  have "role_ok (becomeFollower r t)"
    using assms(1) by (auto simp: vote_node_def role_ok_def becomeFollower_def Let_def go_rem_def)
  moreover have "votes_ok (becomeFollower r t)"
    using assms by (force simp: vote_node_def votes_ok_def)
  ultimately show ?thesis using assms(2) by (auto simp: vote_step_def vote_node_def outbox_def)
qed

lemma candidate_vote:
  assumes "vote_node r" and "currentTerm r < 2 ^ 63 - 1"
  shows "vote_step im r (candidate r)"
proof -
  have t: "i64 (currentTerm r + 1) = currentTerm r + 1"
    using assms by (simp add: vote_node_def votes_ok_def i64_id in_i64_def)
  have none: "votedFor r (currentTerm r + 1) = None"
    using assms(1) by (force simp: vote_node_def votes_ok_def)
  have "role_ok (candidate r)"
    using assms(1) by (auto simp: vote_node_def role_ok_def candidate_def becomeCandidate_def Let_def go_rem_def)
  moreover have "votes_ok (candidate r)"
    using assms(1) t by (force simp: vote_node_def votes_ok_def candidate_def)
  moreover have "votedFor r \<subseteq>\<^sub>m votedFor (candidate r)"
    using none t by (auto simp: candidate_def map_le_def)
  moreover have "same_node r (candidate r)"
    using becomeCandidate_simps(12) [of r] by (simp add: candidate_def same_node_def)
  ultimately show ?thesis
    using t by (auto simp: vote_step_def vote_node_def outbox_def candidate_def backed_def)
qed

lemma quiet_msgs:
  assumes "\<forall>m \<in> set ms. mType m \<noteq> MSG_VOTE_RESP"
  shows "quiet r (r\<lparr>msgs := msgs r @ ms\<rparr>)" "quiet r (r\<lparr>msgsAfterAppend := msgsAfterAppend r @ ms\<rparr>)"
  using assms by (auto simp: quiet_def same_node_def outbox_def)

lemma quiet_fields [simp]:
  "quiet r (r\<lparr>raftlog := l\<rparr>)" "quiet r (r\<lparr>progress := p\<rparr>)" "quiet r (r\<lparr>electionTick := n\<rparr>)"
  "quiet r (r\<lparr>heartbeatTick := n\<rparr>)"
  by (simp_all add: quiet_def same_node_def outbox_def)

text \<open>A leader is made by a quorum of votes it counts.\<close>

lemma becomeLeader_vote:
  assumes v: "vote_step im r r1" and cand: "votes r1 = Some vs" "quorum r \<le> int (length (filter snd vs))"
  shows "vote_step im r (becomeLeader r1)"
proof -
  let ?Q = "fst ` set (filter snd vs)" and ?r = "becomeLeader r1"
  have node: "vote_node r1" using v by (simp add: vote_step_def)
  then have "distinct (map fst (filter snd vs))" using cand(1) by (simp add: vote_node_def distinct_map_filter)
  then have "card ?Q = length (filter snd vs)" using distinct_card [of "map fst (filter snd vs)"] by simp
  moreover have "backed im r ?r j" if "j \<in> ?Q" for j
  proof -
    from that have "(j, True) \<in> set vs" by auto
    then have "backed im r r1 j" using v cand(1) by (auto simp: vote_step_def)
    then show ?thesis by (simp add: backed_def)
  qed
  ultimately have "\<exists>Q. finite Q \<and> quorum r \<le> int (card Q) \<and> (\<forall>j \<in> Q. backed im r ?r j)"
    using cand(2) by (intro exI [of _ ?Q]) simp
  moreover have "vote_node ?r"
    using node by (auto simp: vote_node_def votes_ok_def role_ok_def) (simp_all add: becomeLeader_def Let_def)
  moreover have "same_node r ?r" using v becomeLeader_simps(7) [of r1] by (auto simp: vote_step_def same_node_def)
  ultimately show ?thesis using v by (simp add: vote_step_def outbox_def)
qed

lemma campaign_vote:
  assumes "vote_node r" and "currentTerm r < 2 ^ 63 - 1"
  shows "vote_step im r (campaign r)"
proof -
  note c = candidate_vote [OF assms, of im]
  have votes: "votes (candidate r) = Some [(ID r, True)]" by (simp add: candidate_def)
  have "\<forall>m \<in> set (map (vote_msg (candidate r)) (peers r)). mType m \<noteq> MSG_VOTE_RESP"
    by (simp add: vote_msg_def)
  from quiet_msgs(1) [OF this, of "candidate r"]
  have "quiet (candidate r) ((candidate r)\<lparr>msgs := msgs r @ map (vote_msg (candidate r)) (peers r)\<rparr>)"
    by (simp add: candidate_def)
  moreover have "vote_step im r (becomeLeader (candidate r))" if "clusterSize r = 1"
    by (rule becomeLeader_vote [OF c votes]) (use that in \<open>simp add: quorum_def\<close>)
  ultimately show ?thesis using vote_step_quiet [OF c] by (simp add: campaign_eq)
qed

lemma handleVoteRequest_vote:
  assumes node: "vote_node r"
  shows "vote_step im r (handleVoteRequest r m)"
proof (cases "mVote m")
  case (Some q)
  define t where "t = i64 (int (case vTerm q of None \<Rightarrow> 0 | Some t \<Rightarrow> t))"
  define r1 where "r1 = (if t > currentTerm r then becomeFollower r t else r)"
  let ?c = "CandidateId q"
  have reject: "vote_step im r (sendVoteResponse r2 c False u)" if "vote_step im r r2" for r2 c u
    using that
    by (auto simp: vote_step_def sendVoteResponse_def same_node_def vote_node_def role_ok_def votes_ok_def outbox_def
          backed_def grants_def)
  show ?thesis
  proof (cases "t < currentTerm r")
    case True
    then show ?thesis using Some reject [OF vote_step_refl [OF node]]
      by (simp add: handleVoteRequest_def Let_def t_def [symmetric])
  next
    case False
    then have v: "vote_step im r r1" and t: "currentTerm r1 = t"
      using becomeFollower_vote [OF node, of t im] vote_step_refl [OF node] by (auto simp: r1_def)
    have grant: "vote_step im r (sendVoteResponse (r1\<lparr>votedFor := (votedFor r1)(t \<mapsto> ?c)\<rparr>) ?c True t)"
      if free: "votedFor r1 t = None \<or> votedFor r1 t = Some ?c"
    proof -
      let ?r = "sendVoteResponse (r1\<lparr>votedFor := (votedFor r1)(t \<mapsto> ?c)\<rparr>) ?c True t"
      have le: "votedFor r1 \<subseteq>\<^sub>m votedFor ?r" using free by (auto simp: sendVoteResponse_def map_le_def)
      then have le': "votedFor r1 u = Some x \<Longrightarrow> votedFor ?r u = Some x" for u x
        by (force simp: map_le_def)
      have "backed im r ?r j" if "backed im r r1 j" for j
        using that free by (auto simp: backed_def sendVoteResponse_def t)
      moreover have "votedFor r \<subseteq>\<^sub>m votedFor ?r" using v le map_le_trans unfolding vote_step_def by blast
      moreover have "vote_node ?r" using v t
        by (auto simp: vote_step_def vote_node_def role_ok_def votes_ok_def sendVoteResponse_def)
      moreover have "same_node r ?r" using v by (auto simp: vote_step_def same_node_def sendVoteResponse_def)
      moreover have "\<forall>m \<in> outbox ?r. m \<in> outbox r \<or> (\<forall>t. grants m t \<longrightarrow> mFrom m = ID r \<and> votedFor ?r t = Some (mTo m))"
      proof
        fix m assume "m \<in> outbox ?r"
        then consider "m \<in> outbox r1" | "\<forall>u. grants m u \<longrightarrow> u = t" "mTo m = ?c" "mFrom m = ID r"
          using v by (auto simp: outbox_def sendVoteResponse_def grants_def vote_step_def same_node_def)
        then show "m \<in> outbox r \<or> (\<forall>t. grants m t \<longrightarrow> mFrom m = ID r \<and> votedFor ?r t = Some (mTo m))"
        proof cases
          case 1
          then show ?thesis using v le' unfolding vote_step_def by blast
        next
          case 2
          then show ?thesis by (auto simp: sendVoteResponse_def)
        qed
      qed
      ultimately show ?thesis using v t by (auto simp: vote_step_def sendVoteResponse_def quorum_def)
    qed
    show ?thesis
      using False Some v t grant reject [OF v]
      by (auto simp: handleVoteRequest_def Let_def t_def [symmetric] r1_def [symmetric] split: option.splits)
  qed
qed (use vote_step_refl [OF node] in \<open>simp add: handleVoteRequest_def\<close>)

lemma handleVoteResponse_vote:
  assumes node: "vote_node r" and m: "mType m = MSG_VOTE_RESP" and res: "handleVoteResponse r m = Inr r'"
  shows "vote_step (Some m) r r'"
proof (cases "mVoteResp m")
  case (Some v)
  show ?thesis
  proof (cases "rTerm v = currentTerm r")
    case False
    then show ?thesis
      using res Some becomeFollower_vote [OF node, of "rTerm v"] vote_step_refl [OF node]
      by (auto simp: handleVoteResponse_def Let_def split: if_splits)
  next
    case True
    with res Some obtain vs where vs: "votes r = Some vs"
      by (auto simp: handleVoteResponse_def Let_def split: option.splits)
    define vs' where "vs' = AList.update (mFrom m) (VoteGranted v) vs"
    define r1 where "r1 = r\<lparr>votes := Some vs'\<rparr>"
    have cand: "state r = StateCandidate" using node vs by (auto simp: vote_node_def role_ok_def)
    have dist: "distinct (map fst vs')" using node vs by (simp add: vs'_def vote_node_def distinct_update)
    have mem: "j = mFrom m \<and> VoteGranted v \<or> (j, True) \<in> set vs" if "(j, True) \<in> set vs'" for j
    proof -
      from that dist have "map_of vs' j = Some True" by simp
      then show ?thesis by (auto simp: vs'_def update_conv' split: if_splits dest: map_of_SomeD)
    qed
    have "backed (Some m) r r1 j" if "(j, True) \<in> set vs'" for j
      using mem [OF that] m Some True cand vs
      by (cases v) (auto simp: backed_def r1_def grants_def)
    then have step: "vote_step (Some m) r r1"
      using node dist cand
      by (auto simp: vote_step_def vote_node_def role_ok_def votes_ok_def r1_def outbox_def same_node_def)
    have "r' = (if int (length (filter snd vs')) \<ge> quorum r1 then becomeLeader r1 else r1)"
      using res Some True vs by (auto simp: handleVoteResponse_def Let_def r1_def vs'_def split: if_splits)
    moreover have "quorum r1 = quorum r" by (simp add: quorum_def r1_def)
    moreover have "votes r1 = Some vs'" by (simp add: r1_def)
    ultimately show ?thesis using step becomeLeader_vote [OF step] by auto
  qed
qed (use res vote_step_refl [OF node] in \<open>simp add: handleVoteResponse_def\<close>)

text \<open>Replication never touches the election, except by stepping down to a newer term.\<close>

lemma append_resp_type [simp]: "mType (append_resp r to s) = MSG_APP_RESP"
  by (simp add: append_resp_def)

lemma sendAppendResponse_quiet:
  "quiet r (sendAppendResponse r to s)" "quiet r (sendAppendResponseAfterPersist r to s)"
  using quiet_msgs [of "[append_resp r to s]" r]
  by (simp_all add: sendAppendResponse_def sendAppendResponseAfterPersist_def)

lemma handleAppendEntries_vote:
  assumes node: "vote_node r" and res: "handleAppendEntries r m = Inr r'"
  shows "vote_step im r r'"
proof (cases "mEntries m")
  case None
  then show ?thesis using res vote_step_refl [OF node] by (simp add: handleAppendEntries_def)
next
  case (Some ae)
  show ?thesis
  proof (cases "aTerm ae < currentTerm r")
    case True
    then show ?thesis using res Some quiet_vote_step [OF node sendAppendResponse_quiet(1)]
      by (auto simp: handleAppendEntries_def)
  next
    case False
    define r1 where "r1 = (if aTerm ae > currentTerm r then becomeFollower r (aTerm ae) else r)"
    have v: "vote_step im r r1"
      using becomeFollower_vote [OF node, of "aTerm ae"] vote_step_refl [OF node] False by (simp add: r1_def)
    define r2 where "r2 = (if Entries ae \<noteq> [] then r1\<lparr>raftlog := log_append (raftlog r1) (Entries ae)\<rparr> else r1)"
    define r3 where "r3 = (if LeaderCommitIdx ae > commitIndex (raftlog r2)
      then r2\<lparr>raftlog := log_maybeCommit (raftlog r2) (min (LeaderCommitIdx ae) (lastIndex (raftlog r2)))\<rparr> else r2)"
    have "quiet r1 r2" "quiet r2 r3" by (simp_all add: r2_def r3_def)
    then have q: "quiet r1 r3" by (rule quiet_trans)
    obtain bad where "prev_mismatch (raftlog r1) (PrevLogIdx ae) (PrevLogTerm ae) = Inr bad"
      "r' = (if bad then sendAppendResponse r1 (mFrom m) False
        else if Entries ae \<noteq> [] then sendAppendResponseAfterPersist r3 (mFrom m) True else r3)"
      using res [unfolded handleAppendEntries_def Some option.case False if_False Let_def r1_def [symmetric]
          r2_def [symmetric] r3_def [symmetric]]
      by (auto simp: bindr_Inr_iff False r1_def [symmetric] split: if_splits)
    then have "quiet r1 r'"
      using q sendAppendResponse_quiet quiet_trans by auto
    then show ?thesis by (rule vote_step_quiet [OF v])
  qed
qed

lemma commit_loop_quiet: "commit_loop r ks = Inr r' \<Longrightarrow> quiet r r'"
proof (induction ks arbitrary: r)
  case (Cons k ks)
  then obtain l where "commit_loop (r\<lparr>raftlog := l\<rparr>) ks = Inr r'"
  proof (cases "quorum r \<le> replicatedCount r k")
    case True
    with Cons.prems obtain t where "commit_loop (if t = currentTerm r then r\<lparr>raftlog := log_maybeCommit (raftlog r) k\<rparr>
        else r) ks = Inr r'" by (auto simp: bindr_Inr_iff)
    then show ?thesis using that [of "raftlog r"] that by (auto split: if_splits)
  next
    case False
    then show ?thesis using Cons.prems that [of "raftlog r"] by simp
  qed
  then have "quiet (r\<lparr>raftlog := l\<rparr>) r'" by (rule Cons.IH)
  then show ?case by (rule quiet_trans [OF quiet_fields(1)])
qed simp

lemma handleAppendResponse_vote:
  assumes node: "vote_node r" and res: "handleAppendResponse r m = Inr r'"
  shows "vote_step im r r'"
proof (cases "mEntriesResp m")
  case (Some resp)
  show ?thesis
  proof (cases "CurrentTerm resp > currentTerm r")
    case True
    then show ?thesis using res Some becomeFollower_vote [OF node] by (auto simp: handleAppendResponse_def)
  next
    case False
    then have "quiet r r'"
      using res Some commit_loop_quiet quiet_trans [OF quiet_fields(2)]
      by (fastforce simp: handleAppendResponse_def maybeCommit_def Let_def split: if_splits)
    then show ?thesis by (rule quiet_vote_step [OF node])
  qed
qed (use res vote_step_refl [OF node] in \<open>simp add: handleAppendResponse_def\<close>)

lemma append_msgs_type: "append_msgs r ps = Inr ms \<Longrightarrow> \<forall>m \<in> set ms. mType m \<noteq> MSG_VOTE_RESP"
  by (induction ps arbitrary: ms) (auto simp: bindr_Inr_iff append_msg_def Let_def)

lemma heartbeat_msgs_type: "heartbeat_msgs r ps = Inr ms \<Longrightarrow> \<forall>m \<in> set ms. mType m \<noteq> MSG_VOTE_RESP"
  by (induction ps arbitrary: ms) (auto simp: bindr_Inr_iff heartbeat_msg_def Let_def)

lemma raft_replicate_quiet:
  assumes "raft_replicate r m = Inr (r', e)"
  shows "quiet r r'"
proof (cases "r' = r")
  case False
  then obtain l ms where "append_msgs (r\<lparr>raftlog := l\<rparr>) (peers r) = Inr ms"
    "r' = r\<lparr>raftlog := l, msgsAfterAppend := msgsAfterAppend r @ ms\<rparr>"
    using assms by (fastforce simp: raft_replicate_def Let_def bindr_Inr_iff split: if_splits)
  then show ?thesis
    using quiet_trans [OF quiet_fields(1) quiet_msgs(2) [OF append_msgs_type]] by force
qed simp

lemma broadcastHeartbeat_quiet: "broadcastHeartbeat r = Inr r' \<Longrightarrow> quiet r r'"
  using quiet_msgs(1) [OF heartbeat_msgs_type] by (auto simp: broadcastHeartbeat_def bindr_Inr_iff)

lemma vote_or_campaign_vote:
  assumes "vote_node r" and "currentTerm r < 2 ^ 63 - 1"
  shows "vote_step im r (vote_or_campaign r m)"
  using handleVoteRequest_vote [OF assms(1)] campaign_vote [OF assms]
  by (simp add: vote_or_campaign_def split: option.splits)

text \<open>A preceding change that neither sends nor votes can be left out.\<close>

lemma vote_step_quiet_before:
  assumes "quiet r r1" and "outbox r1 = outbox r" and "vote_step im r1 r2"
  shows "vote_step im r r2"
proof -
  have "backed im r1 r2 j = backed im r r2 j" for j
    using assms(1) by (simp add: backed_def quiet_def same_node_def)
  then show ?thesis
    using assms by (simp add: vote_step_def quiet_def same_node_def quorum_def) blast
qed

lemma Step_vote:
  assumes node: "vote_node r" and small: "currentTerm r < 2 ^ 63 - 1" and step: "Step r m = Inr (r', e)"
  shows "vote_step (Some m) r r'"
proof -
  have role: "stepf r = Some (state r)" using node by (simp add: vote_node_def role_ok_def)
  note vote = vote_or_campaign_vote [OF node small, of "Some m" m]
  have app: "vote_step (Some m) r r'" if "handleAppendEntries (r\<lparr>electionTick := 0\<rparr>) m = Inr r'"
  proof (rule vote_step_quiet_before [OF quiet_fields(3)])
    show "vote_step (Some m) (r\<lparr>electionTick := 0\<rparr>) r'"
      by (rule handleAppendEntries_vote [OF quiet_node [OF quiet_fields(3) node] that])
  qed (simp add: outbox_def)
  note refl = vote_step_refl [OF node, of "Some m"] and q = quiet_vote_step [OF node, of _ "Some m"]
  show ?thesis
  proof (cases "state r")
    case StateFollower
    then show ?thesis using step role vote app refl
      by (auto simp: Step_def stepFollower_def done_step_def bindr_Inr_iff split: message_type.splits)
  next
    case StateCandidate
    then show ?thesis using step role vote app refl handleVoteResponse_vote [OF node]
      by (auto simp: Step_def stepCandidate_def done_step_def bindr_Inr_iff split: message_type.splits)
  next
    case StateLeader
    then show ?thesis
      using step role refl q [OF broadcastHeartbeat_quiet] q [OF raft_replicate_quiet]
        handleAppendResponse_vote [OF node]
      by (auto simp: Step_def stepLeader_def done_step_def bindr_Inr_iff split: message_type.splits)
  qed
qed

lemma Tick_vote:
  assumes node: "vote_node r" and small: "currentTerm r < 2 ^ 63 - 1" and tick: "Tick r = Inr r'"
  shows "\<exists>m. mVoteResp m = None \<and> vote_step (Some m) r r'"
proof -
  have role: "tickf r = Some (state r)" using node by (simp add: vote_node_def role_ok_def)
  have trigger: "vote_step (Some (no_message\<lparr>mType := ty\<rparr>)) r r'"
    if "Step r1 (no_message\<lparr>mType := ty\<rparr>) = Inr (r', e)" "quiet r r1" "outbox r1 = outbox r" for r1 ty e
  proof -
    have "currentTerm r1 < 2 ^ 63 - 1" using that(2) small by (simp add: quiet_def)
    from Step_vote [OF quiet_node [OF that(2) node] this that(1)] show ?thesis
      by (rule vote_step_quiet_before [OF that(2,3)])
  qed
  have still: "vote_step (Some no_message) r r'" if "quiet r r'" using quiet_vote_step [OF node that] .
  have "\<exists>ty. vote_step (Some (no_message\<lparr>mType := ty\<rparr>)) r r' \<or> vote_step (Some no_message) r r'"
  proof (cases "state r")
    case StateLeader
    then show ?thesis
      using tick role trigger [of "r\<lparr>heartbeatTick := 0\<rparr>"] still
      by (fastforce simp: Tick_def tickLeader_def Let_def bindr_Inr_iff outbox_def split: if_splits)
  qed (use tick role trigger [of "r\<lparr>electionTick := 0\<rparr>"] still in
      \<open>fastforce simp: Tick_def tickFollower_def tickCandidate_def Let_def bindr_Inr_iff outbox_def split: if_splits\<close>)+
  moreover have "mVoteResp (no_message\<lparr>mType := ty\<rparr>) = None" "mVoteResp no_message = None" for ty
    by (simp_all add: no_message_def)
  ultimately show ?thesis by blast
qed

end
