(* ===== verification/Raft_Cluster.thy ===== *)
theory Raft_Cluster
  imports Raft_Election
begin

text \<open>
  A cluster of Raft nodes over an unreliable network, and election safety. The network is the set
  of all messages ever sent: any of them may be delivered at any time, several times or never.
  Besides, any message that is not part of an election may reach a node from outside (a client's
  proposal, or a forged append). A node that panics stops; nodes do not lose their state.
\<close>

section \<open>Quorums\<close>

text \<open>
  The interface an election relies on: two quorums meet. Then at most one value can hold a quorum
  of ballots.
\<close>

locale quorum_system =
  fixes is_quorum :: "'a set \<Rightarrow> bool"
  assumes meet: "is_quorum P \<Longrightarrow> is_quorum Q \<Longrightarrow> P \<inter> Q \<noteq> {}"
begin

lemma one_winner:
  assumes "is_quorum P" and "is_quorum Q" and "\<forall>j \<in> P. ballot j = Some a" and "\<forall>j \<in> Q. ballot j = Some b"
  shows "a = b"
proof -
  obtain j where "j \<in> P" "j \<in> Q" using meet [OF assms(1,2)] by blast
  with assms(3,4) have "Some a = Some b" by metis
  then show ?thesis by simp
qed

end

definition majority :: "int list \<Rightarrow> int set \<Rightarrow> bool" where
  "majority ms Q \<longleftrightarrow> Q \<subseteq> set ms \<and> distinct ms \<and> int (length ms) div 2 + 1 \<le> int (card Q)"

interpretation majorities: quorum_system "majority ms" for ms
proof
  fix P Q assume P: "majority ms P" and Q: "majority ms Q"
  have sub: "P \<union> Q \<subseteq> set ms" and dist: "distinct ms" using P Q by (auto simp: majority_def)
  have fin: "finite P" "finite Q" using sub finite_subset by blast+
  show "P \<inter> Q \<noteq> {}"
  proof
    assume "P \<inter> Q = {}"
    then have "card P + card Q = card (P \<union> Q)" using fin by (simp add: card_Un_disjoint)
    also have "\<dots> \<le> length ms" using card_mono [OF _ sub] distinct_card [OF dist] by simp
    finally have "int (card P) + int (card Q) \<le> int (length ms)" by linarith
    moreover have "int (length ms) div 2 + 1 \<le> int (card P)" "int (length ms) div 2 + 1 \<le> int (card Q)"
      using P Q by (simp_all add: majority_def)
    ultimately show False by linarith
  qed
qed

section \<open>The cluster\<close>

record cluster =
  nodes :: "int \<Rightarrow> raft"
  net :: "message set"

definition cl_init :: "int list \<Rightarrow> cluster" where
  "cl_init ms = \<lparr>nodes = (\<lambda>i. NewRaft i (filter (\<lambda>j. j \<noteq> i) ms)), net = {}\<rparr>"

text \<open>
  The steps: the clock of a node, a delivery, a message from outside, and the exchange of a
  \<^verbatim>\<open>Ready\<close> with the network followed by \<^verbatim>\<open>Advance\<close>. Terms stay below the range of \<^verbatim>\<open>int64\<close>.
\<close>

inductive cl_step :: "int list \<Rightarrow> cluster \<Rightarrow> cluster \<Rightarrow> bool" for ms where
  tick: "\<lbrakk>i \<in> set ms; currentTerm (nodes c i) < 2 ^ 63 - 1; Tick (nodes c i) = Inr r\<rbrakk> \<Longrightarrow>
     cl_step ms c (c\<lparr>nodes := (nodes c)(i := r)\<rparr>)"
| deliver: "\<lbrakk>m \<in> net c; mTo m = i; i \<in> set ms; currentTerm (nodes c i) < 2 ^ 63 - 1;
     Step (nodes c i) m = Inr (r, e)\<rbrakk> \<Longrightarrow> cl_step ms c (c\<lparr>nodes := (nodes c)(i := r)\<rparr>)"
| outside: "\<lbrakk>mType m \<notin> {MSG_VOTE, MSG_VOTE_RESP}; i \<in> set ms; currentTerm (nodes c i) < 2 ^ 63 - 1;
     Step (nodes c i) m = Inr (r, e)\<rbrakk> \<Longrightarrow> cl_step ms c (c\<lparr>nodes := (nodes c)(i := r)\<rparr>)"
| exchange: "\<lbrakk>i \<in> set ms; Ready (nodes c i) = Some (Inr r); readyc r = [rd]\<rbrakk> \<Longrightarrow>
     cl_step ms c (c\<lparr>nodes := (nodes c)(i := Advance (r\<lparr>readyc := []\<rparr>)),
       net := net c \<union> set (rdMessages rd) \<union> set (rdMessagesAfterAppend rd)\<rparr>)"

inductive_cases cl_stepE: "cl_step ms c c'"

inductive cl_reach :: "int list \<Rightarrow> cluster \<Rightarrow> bool" for ms where
  start: "cl_reach ms (cl_init ms)"
| next_step: "cl_reach ms c \<Longrightarrow> cl_step ms c c' \<Longrightarrow> cl_reach ms c'"

section \<open>The invariant\<close>

definition ballots :: "cluster \<Rightarrow> int \<Rightarrow> int \<Rightarrow> int option" where
  "ballots c t j = votedFor (nodes c j) t"

definition node_inv :: "int list \<Rightarrow> cluster \<Rightarrow> int \<Rightarrow> bool" where
  "node_inv ms c i \<longleftrightarrow> ID (nodes c i) = i \<and> clusterSize (nodes c i) = int (length ms)
     \<and> readyc (nodes c i) = [] \<and> vote_node (nodes c i)
     \<and> (\<forall>vs j. votes (nodes c i) = Some vs \<and> (j, True) \<in> set vs \<longrightarrow>
          j \<in> set ms \<and> ballots c (currentTerm (nodes c i)) j = Some i)
     \<and> (state (nodes c i) = StateLeader \<longrightarrow>
          (\<exists>Q. majority ms Q \<and> (\<forall>j \<in> Q. ballots c (currentTerm (nodes c i)) j = Some i)))"

definition msg_inv :: "int list \<Rightarrow> cluster \<Rightarrow> message \<Rightarrow> bool" where
  "msg_inv ms c m \<longleftrightarrow> (\<forall>t. grants m t \<longrightarrow> mFrom m \<in> set ms \<and> ballots c t (mFrom m) = Some (mTo m))"

definition cl_inv :: "int list \<Rightarrow> cluster \<Rightarrow> bool" where
  "cl_inv ms c \<longleftrightarrow> (\<forall>i \<in> set ms. node_inv ms c i)
     \<and> (\<forall>m \<in> net c. msg_inv ms c m) \<and> (\<forall>i \<in> set ms. \<forall>m \<in> outbox (nodes c i). msg_inv ms c m)"

lemma ballots_update:
  assumes "votedFor (nodes c i) \<subseteq>\<^sub>m votedFor r" and "ballots c t j = Some x"
  shows "ballots (c\<lparr>nodes := (nodes c)(i := r), net := n\<rparr>) t j = Some x"
  using assms by (force simp: ballots_def map_le_def)

lemma backed_ballot:
  assumes inv: "cl_inv ms c" and i: "i \<in> set ms" and step: "vote_step im (nodes c i) r"
    and im: "\<And>m. im = Some m \<Longrightarrow> grants m t \<Longrightarrow> mTo m = i \<and> msg_inv ms c m"
    and b: "backed im (nodes c i) r j" and t: "currentTerm r = t"
  shows "j \<in> set ms \<and> ballots (c\<lparr>nodes := (nodes c)(i := r), net := n\<rparr>) t j = Some i"
proof -
  have le: "votedFor (nodes c i) \<subseteq>\<^sub>m votedFor r" using step by (simp add: vote_step_def)
  have node: "node_inv ms c i" "ID (nodes c i) = i" using inv i by (auto simp: cl_inv_def node_inv_def)
  from b consider "j = i" "votedFor r t = Some i"
    | "t = currentTerm (nodes c i)" "\<exists>vs. votes (nodes c i) = Some vs \<and> (j, True) \<in> set vs"
    | m where "im = Some m" "mFrom m = j" "grants m t"
    unfolding backed_def t node(2) by auto
  then show ?thesis
  proof cases
    case 1
    then show ?thesis using i by (simp add: ballots_def)
  next
    case 2
    then have "j \<in> set ms \<and> ballots c t j = Some i" using node(1) by (auto simp: node_inv_def)
    then show ?thesis using ballots_update [OF le] by blast
  next
    case 3
    then have "j \<in> set ms \<and> ballots c t j = Some i" using im by (auto simp: msg_inv_def)
    then show ?thesis using ballots_update [OF le] by blast
  qed
qed

lemma node_inv_keep:
  assumes eq: "nodes c' k = nodes c k" and inv: "node_inv ms c k"
    and keep: "\<And>t j x. ballots c t j = Some x \<Longrightarrow> ballots c' t j = Some x"
  shows "node_inv ms c' k"
proof -
  have "\<exists>Q. majority ms Q \<and> (\<forall>j \<in> Q. ballots c' (currentTerm (nodes c k)) j = Some k)"
    if "state (nodes c k) = StateLeader"
  proof -
    from inv that obtain Q where "majority ms Q" "\<forall>j \<in> Q. ballots c (currentTerm (nodes c k)) j = Some k"
      by (auto simp: node_inv_def)
    with keep show ?thesis by blast
  qed
  moreover have "j \<in> set ms \<and> ballots c' (currentTerm (nodes c k)) j = Some k"
    if "votes (nodes c k) = Some vs" "(j, True) \<in> set vs" for vs j
    using inv that keep by (simp add: node_inv_def)
  ultimately show ?thesis using inv by (simp add: node_inv_def eq)
qed

text \<open>A vote step of one node keeps the invariant of the whole cluster.\<close>

lemma cl_inv_step:
  assumes inv: "cl_inv ms c" and dist: "distinct ms" and i: "i \<in> set ms" and step: "vote_step im (nodes c i) r"
    and im: "\<And>m t. im = Some m \<Longrightarrow> grants m t \<Longrightarrow> mTo m = i \<and> msg_inv ms c m"
  shows "cl_inv ms (c\<lparr>nodes := (nodes c)(i := r)\<rparr>)"
proof -
  let ?c = "c\<lparr>nodes := (nodes c)(i := r)\<rparr>"
  have node: "node_inv ms c i" using inv i by (simp add: cl_inv_def)
  have le: "votedFor (nodes c i) \<subseteq>\<^sub>m votedFor r" using step by (simp add: vote_step_def)
  have keep: "ballots ?c t j = Some x" if "ballots c t j = Some x" for t j x
    using ballots_update [OF le that, where n = "net c"] by simp
  have msg: "msg_inv ms ?c m" if "msg_inv ms c m" for m using that keep by (auto simp: msg_inv_def)
  have kept: "same_node (nodes c i) r" using step by (simp add: vote_step_def)
  have own: "j \<in> set ms \<and> ballots ?c (currentTerm r) j = Some i" if "backed im (nodes c i) r j" for j
    using backed_ballot [OF inv i step im that refl, where n = "net c"] by simp
  have "node_inv ms ?c k" if k: "k \<in> set ms" for k
  proof (cases "k = i")
    case False
    then have "nodes ?c k = nodes c k" by simp
    moreover have "node_inv ms c k" using inv k by (simp add: cl_inv_def)
    ultimately show ?thesis by (rule node_inv_keep) (rule keep)
  next
    case True
    have "\<exists>Q. majority ms Q \<and> (\<forall>j \<in> Q. ballots ?c (currentTerm r) j = Some i)" if lead: "state r = StateLeader"
    proof (cases "state (nodes c i) = StateLeader \<and> currentTerm r = currentTerm (nodes c i)")
      case True
      with node obtain Q where "majority ms Q" "\<forall>j \<in> Q. ballots c (currentTerm r) j = Some i"
        by (auto simp: node_inv_def)
      with keep show ?thesis by blast
    next
      case False
      then obtain Q where "quorum (nodes c i) \<le> int (card Q)" "\<forall>j \<in> Q. backed im (nodes c i) r j"
        using step lead by (auto simp: vote_step_def)
      then show ?thesis using own node dist
        by (intro exI [of _ Q]) (auto simp: majority_def quorum_def node_inv_def)
    qed
    then show ?thesis
      using True node kept step own by (auto simp: node_inv_def same_node_def vote_step_def)
  qed
  moreover have "msg_inv ms ?c m" if "m \<in> outbox r" for m
  proof (cases "m \<in> outbox (nodes c i)")
    case True
    then show ?thesis using inv i msg by (simp add: cl_inv_def)
  next
    case False
    then have "grants m t \<Longrightarrow> mFrom m = i \<and> votedFor r t = Some (mTo m)" for t
      using step that node by (auto simp: vote_step_def node_inv_def)
    then show ?thesis using i by (auto simp: msg_inv_def ballots_def)
  qed
  ultimately show ?thesis using inv msg by (auto simp: cl_inv_def)
qed

lemma cl_inv_init:
  assumes "distinct ms"
  shows "cl_inv ms (cl_init ms)"
proof -
  have len: "int (length (filter (\<lambda>j. j \<noteq> i) ms)) + 1 = int (length ms)" if "i \<in> set ms" for i
    using sum_length_filter_compl [of "\<lambda>j. j \<noteq> i" ms] distinct_length_filter [OF assms, of "\<lambda>j. j = i"] that
    by (simp add: Int_insert_left)
  have node: "vote_node (NewRaft i ps)" for i ps
    using NewRaft_ok [of i ps] by (simp add: raft_ok_def vote_node_def) (simp add: NewRaft_def Let_def)
  have fields: "ID (NewRaft i ps) = i" "clusterSize (NewRaft i ps) = int (length ps) + 1" "readyc (NewRaft i ps) = []"
    "votes (NewRaft i ps) = None" "state (NewRaft i ps) = StateFollower" "outbox (NewRaft i ps) = {}" for i ps
    by (simp_all add: NewRaft_def Let_def outbox_def) (simp_all add: becomeFollower_def Let_def)
  show ?thesis
    using node len by (auto simp: cl_inv_def node_inv_def cl_init_def fields)
qed

lemma cl_inv_exchange:
  assumes inv: "cl_inv ms c" and i: "i \<in> set ms" and rdy: "Ready (nodes c i) = Some (Inr r)" "readyc r = [rd]"
  shows "cl_inv ms (c\<lparr>nodes := (nodes c)(i := Advance (r\<lparr>readyc := []\<rparr>)),
       net := net c \<union> set (rdMessages rd) \<union> set (rdMessagesAfterAppend rd)\<rparr>)"
proof -
  let ?r = "Advance (r\<lparr>readyc := []\<rparr>)"
  have r: "msgs r = []" "msgsAfterAppend r = []" "rdMessages rd = msgs (nodes c i)"
    "rdMessagesAfterAppend rd = msgsAfterAppend (nodes c i)"
    "r = (nodes c i)\<lparr>msgs := [], msgsAfterAppend := [], readyc := [rd]\<rparr>"
    using rdy inv i by (auto simp: Ready_def cl_inv_def node_inv_def split: if_splits sum.splits)
      (auto simp: bindr_Inr_iff)
  have eq: "ID ?r = ID (nodes c i)" "clusterSize ?r = clusterSize (nodes c i)" "readyc ?r = []"
    "votedFor ?r = votedFor (nodes c i)" "votes ?r = votes (nodes c i)" "state ?r = state (nodes c i)"
    "currentTerm ?r = currentTerm (nodes c i)" "outbox ?r = {}" "vote_node ?r = vote_node (nodes c i)"
    unfolding r(5)
    by (simp_all add: Advance_def Let_def outbox_def vote_node_def role_ok_def votes_ok_def)
  let ?c = "c\<lparr>nodes := (nodes c)(i := ?r), net := net c \<union> set (rdMessages rd) \<union> set (rdMessagesAfterAppend rd)\<rparr>"
  have b: "ballots ?c = ballots c" using eq(4) by (auto simp: ballots_def fun_eq_iff)
  have "node_inv ms ?c k" if "k \<in> set ms" for k
    using inv that eq unfolding cl_inv_def node_inv_def b by (cases "k = i") auto
  moreover have "msg_inv ms ?c m" if "m \<in> net ?c" for m
    using inv that i r(3,4) unfolding cl_inv_def msg_inv_def b by (auto simp: outbox_def)
  moreover have "msg_inv ms ?c m" if "k \<in> set ms" "m \<in> outbox (nodes ?c k)" for k m
    using inv that eq(8) unfolding cl_inv_def msg_inv_def b by (cases "k = i") auto
  ultimately show ?thesis by (auto simp: cl_inv_def)
qed

lemma cl_reach_inv:
  assumes "cl_reach ms c" and dist: "distinct ms"
  shows "cl_inv ms c"
  using assms(1)
proof induction
  case start
  show ?case by (rule cl_inv_init [OF dist])
next
  case (next_step c c')
  have node: "vote_node (nodes c i)" if "i \<in> set ms" for i
    using next_step.IH that by (simp add: cl_inv_def node_inv_def)
  from next_step.hyps(2) show ?case
  proof (cases rule: cl_step.cases)
    case (tick i r)
    then obtain m where m: "mVoteResp m = None" "vote_step (Some m) (nodes c i) r"
      using Tick_vote [OF node] by blast
    show ?thesis
      unfolding tick(1) by (rule cl_inv_step [OF next_step.IH dist tick(2) m(2)]) (use m(1) in \<open>auto simp: grants_def\<close>)
  next
    case (deliver m i r e)
    show ?thesis
      unfolding deliver(1)
      by (rule cl_inv_step [OF next_step.IH dist _ Step_vote]) (use deliver node next_step.IH in \<open>auto simp: cl_inv_def\<close>)
  next
    case (outside m i r e)
    show ?thesis
      unfolding outside(1)
      by (rule cl_inv_step [OF next_step.IH dist _ Step_vote]) (use outside node in \<open>auto simp: grants_def\<close>)
  next
    case (exchange i r rd)
    show ?thesis
      unfolding exchange(1) by (rule cl_inv_exchange [OF next_step.IH exchange(2-4)])
  qed
qed

section \<open>Runs of a cluster\<close>

text \<open>
  The steps as a function, to evaluate concrete runs: an action that is not possible gives \<open>None\<close>.
\<close>

datatype act = ATick int | ADeliver message | AOutside int message | AExchange int

definition put_node :: "cluster \<Rightarrow> int \<Rightarrow> raft \<Rightarrow> cluster" where
  "put_node c i r = c\<lparr>nodes := (nodes c)(i := r)\<rparr>"

fun cl_do :: "int list \<Rightarrow> cluster \<Rightarrow> act \<Rightarrow> cluster option" where
  "cl_do ms c (ATick i) = (if i \<in> set ms \<and> currentTerm (nodes c i) < 2 ^ 63 - 1
     then (case Tick (nodes c i) of Inr r \<Rightarrow> Some (put_node c i r) | Inl _ \<Rightarrow> None) else None)"
| "cl_do ms c (ADeliver m) = (if m \<in> net c \<and> mTo m \<in> set ms \<and> currentTerm (nodes c (mTo m)) < 2 ^ 63 - 1
     then (case Step (nodes c (mTo m)) m of Inr (r, e) \<Rightarrow> Some (put_node c (mTo m) r) | Inl _ \<Rightarrow> None) else None)"
| "cl_do ms c (AOutside i m) = (if mType m \<noteq> MSG_VOTE \<and> mType m \<noteq> MSG_VOTE_RESP \<and> i \<in> set ms
       \<and> currentTerm (nodes c i) < 2 ^ 63 - 1
     then (case Step (nodes c i) m of Inr (r, e) \<Rightarrow> Some (put_node c i r) | Inl _ \<Rightarrow> None) else None)"
| "cl_do ms c (AExchange i) = (if i \<in> set ms then
     (case Ready (nodes c i) of
        Some (Inr r) \<Rightarrow> (case readyc r of
           [rd] \<Rightarrow> Some ((put_node c i (Advance (r\<lparr>readyc := []\<rparr>)))\<lparr>net := net c \<union> set (rdMessages rd)
                     \<union> set (rdMessagesAfterAppend rd)\<rparr>)
         | _ \<Rightarrow> None)
      | _ \<Rightarrow> None) else None)"

fun cl_run :: "int list \<Rightarrow> cluster \<Rightarrow> act list \<Rightarrow> cluster option" where
  "cl_run ms c [] = Some c"
| "cl_run ms c (a # as) = (case cl_do ms c a of None \<Rightarrow> None | Some c' \<Rightarrow> cl_run ms c' as)"

lemma cl_do_step: "cl_do ms c a = Some c' \<Longrightarrow> cl_step ms c c'"
proof (induction ms c a rule: cl_do.induct)
  case (1 ms c i)
  then show ?case by (auto simp: put_node_def split: if_splits sum.splits intro: cl_step.tick)
next
  case (2 ms c m)
  then show ?case by (auto simp: put_node_def split: if_splits sum.splits intro: cl_step.deliver)
next
  case (3 ms c i m)
  then show ?case by (auto simp: put_node_def split: if_splits sum.splits intro: cl_step.outside)
next
  case (4 ms c i)
  then show ?case
    by (auto simp: put_node_def split: if_splits sum.splits option.splits list.splits intro: cl_step.exchange)
qed

lemma cl_run_reach: "cl_reach ms c \<Longrightarrow> cl_run ms c as = Some c' \<Longrightarrow> cl_reach ms c'"
proof (induction as arbitrary: c)
  case (Cons a as)
  then obtain c1 where "cl_do ms c a = Some c1" "cl_run ms c1 as = Some c'" by (auto split: option.splits)
  with Cons show ?case using cl_reach.next_step [OF Cons.prems(1) cl_do_step] by blast
qed simp

declare put_node_def [go_eval] cl_init_def [go_eval]

text \<open>Node 1 of three times out first, asks for votes, and node 2 grants it one.\<close>

definition vote_run :: "act list" where
  "vote_run = replicate 9 (ATick 1) @ [AExchange 1,
     ADeliver (no_message\<lparr>mType := MSG_VOTE, mTo := 2, mFrom := 1,
       mVote := Some \<lparr>vTerm = Some 1, CandidateId = 1, LastLogIndex = 0, LastLogTerm = 0\<rparr>\<rparr>),
     AExchange 2,
     ADeliver (no_message\<lparr>mType := MSG_VOTE_RESP, mTo := 1, mFrom := 2,
       mVoteResp := Some \<lparr>rTerm = 1, VoteGranted = True\<rparr>\<rparr>)]"

lemma vote_run_leader:
  obtains c where "cl_run [1, 2, 3] (cl_init [1, 2, 3]) vote_run = Some c" and "state (nodes c 1) = StateLeader"
    and "currentTerm (nodes c 1) = 1"
proof -
  have "\<exists>c. cl_run [1, 2, 3] (cl_init [1, 2, 3]) vote_run = Some c \<and> state (nodes c 1) = StateLeader
    \<and> currentTerm (nodes c 1) = 1"
    by (simp add: go_eval vote_run_def numeral_eq_Suc replicate_empty cong: eval_congs)
  then show ?thesis using that by blast
qed

section \<open>Election safety\<close>

text \<open>
  C1: in any run of a cluster without crashes, over a network that may lose, duplicate, delay and
  reorder messages and with arbitrary foreign append messages, two nodes that are leader in the
  same term are the same node.
\<close>

theorem election_safety:
  assumes "cl_reach ms c" and "distinct ms" and "i \<in> set ms" and "j \<in> set ms"
    and "state (nodes c i) = StateLeader" and "state (nodes c j) = StateLeader"
    and "currentTerm (nodes c i) = currentTerm (nodes c j)"
  shows "i = j"
proof -
  have inv: "cl_inv ms c" by (rule cl_reach_inv [OF assms(1,2)])
  obtain P where P: "majority ms P" "\<forall>k \<in> P. ballots c (currentTerm (nodes c i)) k = Some i"
    using inv assms(3,5) by (auto simp: cl_inv_def node_inv_def)
  obtain Q where Q: "majority ms Q" "\<forall>k \<in> Q. ballots c (currentTerm (nodes c i)) k = Some j"
    using inv assms(4,6,7) by (auto simp: cl_inv_def node_inv_def)
  show ?thesis by (rule majorities.one_winner [OF P(1) Q(1) P(2) Q(2)])
qed

theorem election_safety_witness:
  "\<exists>c i j. cl_reach [1, 2, 3] c \<and> state (nodes c i) = StateLeader \<and> state (nodes c j) = StateLeader
     \<and> currentTerm (nodes c i) = 1 \<and> currentTerm (nodes c j) = 1 \<and> i = j"
proof -
  obtain c where c: "cl_run [1, 2, 3] (cl_init [1, 2, 3]) vote_run = Some c" "state (nodes c 1) = StateLeader"
    "currentTerm (nodes c 1) = 1"
    by (rule vote_run_leader)
  have "cl_reach [1, 2, 3] c" by (rule cl_run_reach [OF cl_reach.start c(1)])
  from election_safety [OF this, of 1 1] this c show ?thesis by auto
qed

text \<open>
  A node votes once per term. Whatever message it steps with, a vote it has recorded stays as
  it is, its term does not decrease, and every grant it sends names the recorded vote.
\<close>

theorem vote_once:
  assumes "vote_node r" and "currentTerm r < 2 ^ 63 - 1" and "Step r m = Inr (r', e)"
  shows "currentTerm r \<le> currentTerm r' \<and> vote_node r' \<and> votedFor r \<subseteq>\<^sub>m votedFor r'
    \<and> (\<forall>t. \<forall>m \<in> outbox r' - outbox r. grants m t \<longrightarrow> mFrom m = ID r \<and> votedFor r' t = Some (mTo m))"
  using Step_vote [OF assms] by (auto simp: vote_step_def)

definition ask_vote :: "int \<Rightarrow> message" where
  "ask_vote i = no_message\<lparr>mType := MSG_VOTE, mFrom := i,
     mVote := Some \<lparr>vTerm = Some 1, CandidateId = i, LastLogIndex = 0, LastLogTerm = 0\<rparr>\<rparr>"

theorem vote_once_witness:
  "\<exists>r1 r2. Step (NewRaft 3 [1, 2]) (ask_vote 1) = Inr (r1, None) \<and> Step r1 (ask_vote 2) = Inr (r2, None)
     \<and> votedFor r1 1 = Some 1 \<and> votedFor r2 1 = Some 1"
proof -
  have ok: "vote_node (NewRaft 3 [1, 2])" "currentTerm (NewRaft 3 [1, 2]) < 2 ^ 63 - 1"
    using NewRaft_ok [of 3 "[1, 2]"]
    by (simp_all add: raft_ok_def vote_node_def) (simp_all add: NewRaft_def Let_def becomeFollower_def)
  have "\<exists>r1 r2. Step (NewRaft 3 [1, 2]) (ask_vote 1) = Inr (r1, None) \<and> votedFor r1 1 = Some 1
      \<and> currentTerm r1 = 1 \<and> Step r1 (ask_vote 2) = Inr (r2, None)"
    by (simp add: go_eval ask_vote_def cong: eval_congs)
  then obtain r1 r2 where r1: "Step (NewRaft 3 [1, 2]) (ask_vote 1) = Inr (r1, None)" "votedFor r1 1 = Some 1"
    "currentTerm r1 = 1" and r2: "Step r1 (ask_vote 2) = Inr (r2, None)" by blast
  have node: "vote_node r1" using vote_once [OF ok r1(1)] by simp
  have "votedFor r1 \<subseteq>\<^sub>m votedFor r2" using vote_once [OF node _ r2] r1(3) by simp
  then have "votedFor r2 1 = Some 1" using r1(2) by (force simp: map_le_def)
  then show ?thesis using r1 r2 by blast
qed

end
