(* ===== verification/Raft_Props.thy ===== *)
theory Raft_Props
  imports Raft_Inv
begin

text \<open>
  One Raft node driven by its environment: any sequence of ticks, messages and exchanges of a
  \<^verbatim>\<open>Ready\<close>. The log only grows, and the committed entries handed out over such a run are exactly
  the applied prefix of the log, each entry once and in order. Further, what a step does on its
  main paths: the commit rule, replication of a proposal, election timeouts.
\<close>

section \<open>The log only grows\<close>

definition grows :: "raft \<Rightarrow> raft \<Rightarrow> bool" where
  "grows r r' \<longleftrightarrow> (\<exists>xs. entries (raftlog r') = entries (raftlog r) @ xs)
     \<and> commitIndex (raftlog r) \<le> commitIndex (raftlog r') \<and> lastApplied (raftlog r') = lastApplied (raftlog r)
     \<and> stableIndex (raftlog r') = stableIndex (raftlog r) \<and> readyc r' = readyc r"

lemma grows_refl [simp]: "grows r r" by (simp add: grows_def)

lemma grows_trans: "grows a b \<Longrightarrow> grows b c \<Longrightarrow> grows a c"
  by (force simp: grows_def)

lemma grows_same: "raftlog r' = raftlog r \<Longrightarrow> readyc r' = readyc r \<Longrightarrow> grows r r'"
  by (simp add: grows_def)

lemma grows_commit: "grows r (r\<lparr>raftlog := log_maybeCommit (raftlog r) i\<rparr>)"
  by (simp add: grows_def log_maybeCommit_def)

lemma grows_append: "grows r (r\<lparr>raftlog := log_append (raftlog r) es\<rparr>)"
  by (simp add: grows_def log_append_def)

lemma same_node_readyc: "same_node r r' \<Longrightarrow> readyc r' = readyc r"
  by (simp add: same_node_def)

lemma readyc_roles [simp]:
  "readyc (becomeFollower r t) = readyc r" "readyc (becomeLeader r) = readyc r"
  "readyc (becomeCandidate r) = readyc r" "readyc (candidate r) = readyc r" "raftlog (candidate r) = raftlog r"
  by (simp_all add: same_node_readyc candidate_def)

lemma handleVoteRequest_grows: "grows r (handleVoteRequest r m)"
  by (rule grows_same) (simp_all add: handleVoteRequest_def sendVoteResponse_def Let_def split: option.split)

lemma handleVoteResponse_grows: "handleVoteResponse r m = Inr r' \<Longrightarrow> grows r r'"
  by (rule grows_same) (auto simp: handleVoteResponse_def Let_def split: option.splits if_splits)

lemma handleAppendEntries_grows:
  assumes "handleAppendEntries r m = Inr r'"
  shows "grows r r'"
proof (cases "mEntries m")
  case (Some ae)
  show ?thesis
  proof (cases "aTerm ae < currentTerm r")
    case True
    with Some assms show ?thesis
      by (auto simp: handleAppendEntries_def sendAppendResponse_def intro!: grows_same)
  next
    case False
    define r1 where "r1 = (if aTerm ae > currentTerm r then becomeFollower r (aTerm ae) else r)"
    define r2 where "r2 = (if Entries ae \<noteq> [] then r1\<lparr>raftlog := log_append (raftlog r1) (Entries ae)\<rparr> else r1)"
    define r3 where "r3 = (if LeaderCommitIdx ae > commitIndex (raftlog r2)
      then r2\<lparr>raftlog := log_maybeCommit (raftlog r2) (min (LeaderCommitIdx ae) (lastIndex (raftlog r2)))\<rparr> else r2)"
    have "bindr (prev_mismatch (raftlog r1) (PrevLogIdx ae) (PrevLogTerm ae)) (\<lambda>bad.
        if bad then Inr (sendAppendResponse r1 (mFrom m) False)
        else Inr (if Entries ae \<noteq> [] then sendAppendResponseAfterPersist r3 (mFrom m) True else r3)) = Inr r'"
      using assms by (simp only: handleAppendEntries_def Some option.case False if_False Let_def
        r1_def [symmetric] r2_def [symmetric] r3_def [symmetric])
    then have r': "r' = sendAppendResponse r1 (mFrom m) False \<or> r' = sendAppendResponseAfterPersist r3 (mFrom m) True \<or> r' = r3"
      by (auto simp: bindr_Inr_iff split: if_splits)
    have "grows r r1" by (simp add: r1_def grows_def)
    moreover have "grows r1 r2" by (simp add: r2_def grows_append)
    moreover have "grows r2 r3" by (simp add: r3_def grows_commit)
    ultimately have "grows r r1" "grows r r3" using grows_trans by blast+
    moreover have "grows r1 (sendAppendResponse r1 (mFrom m) False)"
      "grows r3 (sendAppendResponseAfterPersist r3 (mFrom m) True)"
      by (simp_all add: grows_def sendAppendResponse_def sendAppendResponseAfterPersist_def)
    ultimately show ?thesis using r' grows_trans by blast
  qed
qed (use assms in \<open>simp add: handleAppendEntries_def\<close>)

lemma commit_loop_grows: "commit_loop r ks = Inr r' \<Longrightarrow> grows r r'"
proof (induction ks arbitrary: r)
  case (Cons i ks)
  then consider "commit_loop r ks = Inr r'" | "commit_loop (r\<lparr>raftlog := log_maybeCommit (raftlog r) i\<rparr>) ks = Inr r'"
    by (auto simp: bindr_Inr_iff split: if_splits)
  then show ?case using Cons.IH grows_trans [OF grows_commit] by cases blast+
qed simp

lemma handleAppendResponse_grows:
  assumes "handleAppendResponse r m = Inr r'"
  shows "grows r r'"
proof -
  from assms consider "raftlog r' = raftlog r" "readyc r' = readyc r"
    | q where "maybeCommit (r\<lparr>progress := q\<rparr>) = Inr r'"
    by (auto simp: handleAppendResponse_def Let_def split: option.splits if_splits)
  then show ?thesis
  proof cases
    case 2
    then have "grows (r\<lparr>progress := q\<rparr>) r'" by (auto simp: maybeCommit_def intro: commit_loop_grows)
    then show ?thesis by (simp add: grows_def)
  qed (rule grows_same)
qed

lemma raft_replicate_grows: "raft_replicate r m = Inr (r', e) \<Longrightarrow> grows r r'"
  by (auto simp: raft_replicate_def Let_def bindr_Inr_iff log_append_def grows_def split: if_splits)

lemma Step_grows:
  assumes "Step r m = Inr (r', e)"
  shows "grows r r'"
proof -
  have vote: "grows r (vote_or_campaign r m)"
    by (auto simp: vote_or_campaign_def campaign_eq handleVoteRequest_grows split: option.split intro!: grows_same)
  have tick: "grows r (r\<lparr>electionTick := 0\<rparr>)" by (rule grows_same) simp_all
  have app: "grows r r'" if "handleAppendEntries (r\<lparr>electionTick := 0\<rparr>) m = Inr r'"
    using grows_trans [OF tick handleAppendEntries_grows [OF that]] .
  have beat: "grows r r'" if "broadcastHeartbeat r = Inr r'"
    using that by (auto simp: broadcastHeartbeat_def bindr_Inr_iff intro: grows_same)
  show ?thesis
    using assms vote app beat handleVoteResponse_grows [of r m r'] handleAppendResponse_grows [of r m r']
      raft_replicate_grows [of r m r' e]
    by (auto simp: Step_def stepFollower_def stepCandidate_def stepLeader_def done_step_def bindr_Inr_iff
          split: option.splits role.splits message_type.splits)
qed

lemma Tick_grows:
  assumes "Tick r = Inr r'"
  shows "grows r r'"
proof -
  have stepped: "grows r r'" if "bindr (Step r1 m) (\<lambda>(r2, e). Inr r2) = Inr r'" "raftlog r1 = raftlog r" "readyc r1 = readyc r"
    for r1 m
  proof -
    from that(1) obtain e where "Step r1 m = Inr (r', e)" by (auto simp: bindr_Inr_iff)
    then have "grows r1 r'" by (rule Step_grows)
    then show ?thesis using that(2,3) by (simp add: grows_def)
  qed
  show ?thesis
    using assms
    by (auto simp: Tick_def tickFollower_def tickCandidate_def tickLeader_def Let_def
        split: option.splits role.splits if_splits intro: grows_same dest: stepped)
qed

section \<open>Runs of one node\<close>

text \<open>
  What the environment does to a node. An exchange takes a \<^verbatim>\<open>Ready\<close> from the channel, if there is
  one, and calls \<^verbatim>\<open>Advance\<close>; its result is what was handed out for application. \<open>None\<close> is a node
  that blocks for ever.
\<close>

datatype sm_event = ETick | EStep message | EExchange

fun sm_do :: "raft \<Rightarrow> sm_event \<Rightarrow> (raft \<times> log list) res option" where
  "sm_do r ETick = Some (bindr (Tick r) (\<lambda>r'. Inr (r', [])))"
| "sm_do r (EStep m) = Some (bindr (Step r m) (\<lambda>(r', e). Inr (r', [])))"
| "sm_do r EExchange =
     (case Ready r of
        None \<Rightarrow> None
      | Some (Inl e) \<Rightarrow> Some (Inl e)
      | Some (Inr r1) \<Rightarrow>
          (case readyc r1 of
             [] \<Rightarrow> Some (Inr (r1, []))
           | rd # rest \<Rightarrow> Some (Inr (Advance (r1\<lparr>readyc := rest\<rparr>), rdCommittedEntries rd))))"

fun sm_run :: "raft \<Rightarrow> sm_event list \<Rightarrow> (raft \<times> log list) res option" where
  "sm_run r [] = Some (Inr (r, []))"
| "sm_run r (e # es) =
     (case sm_do r e of
        None \<Rightarrow> None
      | Some (Inl f) \<Rightarrow> Some (Inl f)
      | Some (Inr (r1, out1)) \<Rightarrow>
          (case sm_run r1 es of
             None \<Rightarrow> None
           | Some (Inl f) \<Rightarrow> Some (Inl f)
           | Some (Inr (r2, out2)) \<Rightarrow> Some (Inr (r2, out1 @ out2))))"

text \<open>
  The runs considered: the entries of an append continue the log of a follower, and the term has
  not reached the end of \<^verbatim>\<open>int64\<close>.
\<close>

fun run_fits :: "raft \<Rightarrow> sm_event list \<Rightarrow> bool" where
  "run_fits r [] = True"
| "run_fits r (e # es) = (currentTerm r < 2 ^ 63 - 1 \<and> (case e of EStep m \<Rightarrow> msg_fits r m | _ \<Rightarrow> True)
     \<and> (case sm_do r e of Some (Inr (r1, out)) \<Rightarrow> run_fits r1 es | _ \<Rightarrow> True))"

definition applied :: "raft \<Rightarrow> log list" where
  "applied r = take (nat (lastApplied (raftlog r))) (entries (raftlog r))"

lemma applied_grows:
  assumes "grows r r'" and "log_wf (raftlog r)"
  shows "applied r' = applied r"
proof -
  have "nat (lastApplied (raftlog r)) \<le> length (entries (raftlog r))" using assms(2) by (auto simp: log_wf_def)
  then show ?thesis using assms(1) by (auto simp: applied_def grows_def)
qed

lemma exchange_spec:
  assumes ok: "raft_ok r" and c: "readyc r = []"
  shows "\<exists>r' out. sm_do r EExchange = Some (Inr (r', out)) \<and> raft_ok r' \<and> readyc r' = []
    \<and> applied r' = applied r @ out"
proof (cases "has_ready r")
  case True
  have wf: "log_wf (raftlog r)" using ok by (simp add: raft_ok_def)
  let ?l = "raftlog r"
  let ?r = "r\<lparr>msgs := [], msgsAfterAppend := [], readyc := []\<rparr>"
  have r: "raft_ok ?r" using ok by (simp add: raft_ok_def role_ok_def votes_ok_def prog_ok_def prog_of_def)
  have "sm_do r EExchange = Some (Inr (Advance ?r, range_of ?l (lastApplied ?l) (commitIndex ?l)))"
    using Ready_eq [OF wf c] True by simp
  moreover have "applied (Advance ?r) = applied r @ range_of ?l (lastApplied ?l) (commitIndex ?l)"
  proof -
    have "applied (Advance ?r) = range_of ?l 0 (commitIndex ?l)"
      using Advance_log [of ?r] wf by (simp add: applied_def range_of_def)
    also have "\<dots> = range_of ?l 0 (lastApplied ?l) @ range_of ?l (lastApplied ?l) (commitIndex ?l)"
      using wf by (intro range_of_append [symmetric]) (simp_all add: log_wf_def)
    finally show ?thesis by (simp add: applied_def range_of_def)
  qed
  moreover have "readyc (Advance ?r) = []" by (simp add: Advance_def Let_def)
  ultimately show ?thesis using Advance_ok [OF r] by blast
next
  case False
  then show ?thesis using ok c by (simp add: Ready_def)
qed

lemma sm_do_spec:
  assumes ok: "raft_ok r" and c: "readyc r = []" and small: "currentTerm r < 2 ^ 63 - 1"
    and fits: "\<And>m. e = EStep m \<Longrightarrow> msg_fits r m"
  shows "\<exists>r' out. sm_do r e = Some (Inr (r', out)) \<and> raft_ok r' \<and> readyc r' = [] \<and> applied r' = applied r @ out"
proof -
  have wf: "log_wf (raftlog r)" using ok by (simp add: raft_ok_def)
  have kept: "readyc r' = [] \<and> applied r' = applied r" if "grows r r'" for r'
    using applied_grows [OF that wf] that c by (simp add: grows_def)
  show ?thesis
  proof (cases e)
    case ETick
    obtain r' where r': "Tick r = Inr r'" "raft_ok r'" using Tick_ok [OF ok small] by blast
    then show ?thesis using kept [OF Tick_grows [OF r'(1)]] by (simp add: ETick)
  next
    case (EStep m)
    obtain r' f where r': "Step r m = Inr (r', f)" "raft_ok r'" using Step_ok [OF ok fits [OF EStep] small] by blast
    then show ?thesis using kept [OF Step_grows [OF r'(1)]] by (simp add: EStep)
  next
    case EExchange
    then show ?thesis using exchange_spec [OF ok c] by simp
  qed
qed

lemma sm_run_spec:
  assumes "raft_ok r" and "readyc r = []" and "run_fits r es"
  shows "\<exists>r' out. sm_run r es = Some (Inr (r', out)) \<and> raft_ok r' \<and> readyc r' = [] \<and> applied r' = applied r @ out"
  using assms
proof (induction es arbitrary: r)
  case (Cons e es)
  obtain r1 out1 where 1: "sm_do r e = Some (Inr (r1, out1))" "raft_ok r1" "readyc r1 = []" "applied r1 = applied r @ out1"
    using sm_do_spec [OF Cons.prems(1,2), of e] Cons.prems(3) by (auto split: sm_event.splits)
  moreover have "run_fits r1 es" using Cons.prems(3) 1(1) by simp
  ultimately obtain r2 out2 where "sm_run r1 es = Some (Inr (r2, out2))" "raft_ok r2" "readyc r2 = []"
    "applied r2 = applied r1 @ out2" using Cons.IH by blast
  then show ?case using 1 by simp
qed simp

lemma NewRaft_fields:
  "readyc (NewRaft i ps) = []" "raftlog (NewRaft i ps) = newRaftLog" "currentTerm (NewRaft i ps) = 0"
  "state (NewRaft i ps) = StateFollower" "peers (NewRaft i ps) = remdups ps"
  "electionTimeout (NewRaft i ps) = 10" "electionTick (NewRaft i ps) = go_rem i 10"
  "clusterSize (NewRaft i ps) = int (length ps) + 1" "ID (NewRaft i ps) = i"
  by (simp_all add: NewRaft_def becomeFollower_def Let_def)

lemma applied_new [simp]: "applied (NewRaft i ps) = []"
  by (simp add: applied_def NewRaft_fields newRaftLog_def)

declare sm_do.simps [go_eval]

section \<open>The commit rule\<close>

lemma handleAppendResponse_success:
  assumes ok: "raft_ok r" and m: "mEntriesResp m = Some \<lparr>CurrentTerm = currentTerm r, Success = True\<rparr>"
  defines "r1 \<equiv> r\<lparr>progress := AList.update (mFrom m)
    \<lparr>matchIndex = lastIndex (raftlog r), nextIndex = lastIndex (raftlog r) + 1\<rparr> (progress r)\<rparr>"
  shows "handleAppendResponse r m = Inr (r1\<lparr>raftlog := (raftlog r)\<lparr>commitIndex :=
    Max (insert (commitIndex (raftlog r)) {i. commitIndex (raftlog r) < i \<and> committable r1 i})\<rparr>\<rparr>)"
proof -
  have "log_wf (raftlog r1)" using ok by (simp add: r1_def raft_ok_def)
  from maybeCommit_spec [OF this] show ?thesis
    using m by (simp add: handleAppendResponse_def Let_def r1_def)
qed

section \<open>Election timeouts\<close>

fun ticks :: "nat \<Rightarrow> raft \<Rightarrow> raft res" where
  "ticks 0 r = Inr r"
| "ticks (Suc n) r = bindr (Tick r) (ticks n)"

lemma ticks_snoc: "ticks (Suc n) r = bindr (ticks n r) Tick"
proof (induction n arbitrary: r)
  case 0
  show ?case by (cases "Tick r") simp_all
next
  case (Suc n)
  have "ticks (Suc (Suc n)) r = bindr (Tick r) (ticks (Suc n))" by simp
  also have "\<dots> = bindr (Tick r) (\<lambda>r'. bindr (ticks n r') Tick)" using Suc by (cases "Tick r") simp_all
  finally show ?case by (cases "Tick r") simp_all
qed

lemma Tick_waits:
  assumes "role_ok r" and "state r \<noteq> StateLeader" and "electionTick r + 1 < electionTimeout r"
  shows "Tick r = Inr (r\<lparr>electionTick := electionTick r + 1\<rparr>)"
  using assms
  by (cases "state r") (simp_all add: role_ok_def Tick_def tickFollower_def tickCandidate_def Let_def)

lemma Tick_campaigns:
  assumes "role_ok r" and "state r \<noteq> StateLeader" and "electionTick r + 1 \<ge> electionTimeout r"
  shows "Tick r = Inr (campaign (r\<lparr>electionTick := 0\<rparr>))"
  using assms
  by (cases "state r")
    (simp_all add: role_ok_def Tick_def tickFollower_def tickCandidate_def Let_def Step_def stepFollower_def
      stepCandidate_def vote_or_campaign_def no_message_def)

lemma ticks_wait:
  assumes "role_ok r" and "state r \<noteq> StateLeader" and "electionTick r + int k < electionTimeout r"
  shows "ticks k r = Inr (r\<lparr>electionTick := electionTick r + int k\<rparr>)"
  using assms(3)
proof (induction k)
  case (Suc k)
  let ?r = "r\<lparr>electionTick := electionTick r + int k\<rparr>"
  have "role_ok ?r" using assms(1) by (simp add: role_ok_def)
  then have "Tick ?r = Inr (r\<lparr>electionTick := electionTick r + int (Suc k)\<rparr>)"
    using Tick_waits [of ?r] assms(2) Suc.prems by (simp add: algebra_simps)
  then show ?case using Suc by (simp only: ticks_snoc) simp
qed simp

section \<open>Proposals\<close>

lemma raft_replicate_spec:
  assumes ok: "raft_ok r" and lead: "state r = StateLeader"
    and m: "mEntries m = Some ae" "Entries ae \<noteq> []"
  defines "es \<equiv> entries (raftlog r) @ number_entries (currentTerm r) (lastIndex (raftlog r) + 1) (Entries ae)"
  shows "\<exists>ms. raft_replicate r m = Inr (r\<lparr>raftlog := (raftlog r)\<lparr>entries := es\<rparr>,
      msgsAfterAppend := msgsAfterAppend r @ ms\<rparr>, None) \<and> map mTo ms = peers r
    \<and> (\<forall>a \<in> set ms. append_msg (r\<lparr>raftlog := (raftlog r)\<lparr>entries := es\<rparr>\<rparr>) (mTo a) = Inr a)
    \<and> raft_ok (r\<lparr>raftlog := (raftlog r)\<lparr>entries := es\<rparr>\<rparr>)"
proof -
  let ?l = "raftlog r"
  let ?new = "number_entries (currentTerm r) (lastIndex ?l + 1) (Entries ae)"
  let ?r = "r\<lparr>raftlog := log_append ?l ?new\<rparr>"
  have eq: "?r = r\<lparr>raftlog := ?l\<lparr>entries := es\<rparr>\<rparr>" by (simp add: log_append_def es_def)
  have wf: "log_wf ?l" using ok by (simp add: raft_ok_def)
  then have "\<forall>i < length ?new. Id (?new ! i) = int (length (entries ?l) + i) + 1"
    by (simp add: number_entries_nth log_wf_def lastIndex_wf)
  from lastIndex_append_le [OF wf this] have r: "raft_ok ?r" by (intro raft_ok_log [OF ok])
  obtain ms where ms: "append_msgs ?r (peers ?r) = Inr ms" "map mTo ms = peers ?r"
    "\<forall>a \<in> set ms. append_msg ?r (mTo a) = Inr a"
    using append_msgs_map [OF r, of "peers ?r"] lead by auto
  have "raft_replicate r m = Inr (?r\<lparr>msgsAfterAppend := msgsAfterAppend r @ ms\<rparr>, None)"
    using m lead ms(1) by (simp add: raft_replicate_def isLead_def Let_def)
  then show ?thesis using ms r unfolding eq by auto
qed

text \<open>The append for a peer of a leader whose log holds \<open>es\<close>.\<close>

definition append_for :: "raft \<Rightarrow> log list \<Rightarrow> int \<Rightarrow> message" where
  "append_for r es p = (let k = nextIndex (prog_of r p) - 1 in
     no_message\<lparr>mType := MSG_APP, mTo := p, mFrom := ID r,
       mEntries := Some \<lparr>aTerm = currentTerm r, LeaderId = ID r, PrevLogIdx = k,
         PrevLogTerm = (if k = 0 then 0 else Term (es ! nat (k - 1))),
         Entries = drop (nat k) es, LeaderCommitIdx = commitIndex (raftlog r)\<rparr>\<rparr>)"

lemma Step_proposes:
  assumes "raft_ok r" and "state r = StateLeader" and "mType m = MSG_APP" and "mEntries m = Some ae" and "Entries ae \<noteq> []"
  defines "es \<equiv> entries (raftlog r) @ number_entries (currentTerm r) (int (length (entries (raftlog r))) + 1) (Entries ae)"
  defines "r' \<equiv> r\<lparr>raftlog := (raftlog r)\<lparr>entries := es\<rparr>, msgsAfterAppend := msgsAfterAppend r @ map (append_for r es) (peers r)\<rparr>"
  shows "Step r m = Inr (r', None)" and "raft_ok r'"
proof -
  have pos: "lastIndex (raftlog r) = int (length (entries (raftlog r)))"
    using assms(1) by (simp add: raft_ok_def log_wf_def lastIndex_wf)
  let ?r = "r\<lparr>raftlog := (raftlog r)\<lparr>entries := es\<rparr>\<rparr>"
  obtain ms where ms: "raft_replicate r m = Inr (?r\<lparr>msgsAfterAppend := msgsAfterAppend r @ ms\<rparr>, None)"
    "map mTo ms = peers r" "\<forall>a \<in> set ms. append_msg ?r (mTo a) = Inr a" "raft_ok ?r"
    using raft_replicate_spec [OF assms(1,2,4,5)] unfolding pos es_def by auto
  have "append_for r es (mTo a) = a" if a: "a \<in> set ms" for a
  proof -
    have "mTo a \<in> set (peers ?r)" using ms(2) a by (auto simp flip: ms(2))
    then have "append_msg ?r (mTo a) = Inr (append_for r es (mTo a))"
      using append_msg_eq [OF ms(4)] assms(2) by (simp add: append_for_def Let_def prog_of_def)
    then show ?thesis using ms(3) a by simp
  qed
  then have "ms = map (append_for r es) (peers r)" using ms(2) [symmetric] by (simp add: map_idI)
  moreover have "Step r m = Inr (?r\<lparr>msgsAfterAppend := msgsAfterAppend r @ ms\<rparr>, None)"
    using assms(1-3) ms(1) by (simp add: Step_def stepLeader_def raft_ok_def role_ok_def)
  ultimately show "Step r m = Inr (r', None)" by (simp add: r'_def)
  show "raft_ok r'" using ms(4) raft_ok_msgs(2) [where r = ?r] by (simp add: r'_def)
qed

text \<open>The message a client's \<^verbatim>\<open>Put\<close> sends to its own node.\<close>

definition proposal :: "bytes \<Rightarrow> bytes \<Rightarrow> nat \<Rightarrow> message" where
  "proposal k v i = no_message\<lparr>mType := MSG_APP, mEntries := Some \<lparr>aTerm = 0, LeaderId = 0, PrevLogIdx = 0,
     PrevLogTerm = 0, Entries = [\<lparr>Term = 0, Id = 0, Data = Some \<lparr>Op = ''PUT'', Key = k, Val = v, RequestId = i\<rparr>\<rparr>],
     LeaderCommitIdx = 0\<rparr>\<rparr>"

lemma proposal_fields [simp]:
  "mType (proposal k v i) = MSG_APP" "mFrom (proposal k v i) = 0" "mTo (proposal k v i) = 0"
  by (simp_all add: proposal_def no_message_def)

definition local_event :: "sm_event \<Rightarrow> bool" where
  "local_event e = (case e of EStep m \<Rightarrow> (\<exists>k v i. m = proposal k v i) | _ \<Rightarrow> True)"

text \<open>A node that only hears from its own clients commits nothing.\<close>

definition uncommitted :: "raft \<Rightarrow> bool" where
  "uncommitted r \<longleftrightarrow> commitIndex (raftlog r) = 0 \<and> lastApplied (raftlog r) = 0
     \<and> (\<forall>rd \<in> set (readyc r). rdCommittedEntries rd = [])"

lemma uncommitted_keep:
  "grows r r' \<Longrightarrow> uncommitted r \<Longrightarrow> commitIndex (raftlog r') = commitIndex (raftlog r) \<Longrightarrow> uncommitted r'"
  by (simp add: uncommitted_def grows_def)

lemma Step_proposal_commit:
  assumes "Step r (proposal k v i) = Inr (r', e)" and "uncommitted r"
  shows "commitIndex (raftlog r') = commitIndex (raftlog r)"
proof -
  have app: "commitIndex (raftlog r') = 0"
    if "handleAppendEntries (r\<lparr>electionTick := 0\<rparr>) (proposal k v i) = Inr r'"
  proof -
    have "commitIndex (raftlog r) = 0" using assms(2) by (simp add: uncommitted_def)
    then show ?thesis
      using that
      by (auto simp: handleAppendEntries_def proposal_def no_message_def prev_mismatch_def Let_def sendAppendResponse_def
          sendAppendResponseAfterPersist_def log_append_def split: if_splits)
  qed
  have rep: "commitIndex (raftlog r') = commitIndex (raftlog r)" if "raft_replicate r (proposal k v i) = Inr (r', e)"
    using that by (auto simp: raft_replicate_def Let_def bindr_Inr_iff log_append_def split: if_splits)
  show ?thesis
    using assms app rep
    by (auto simp: Step_def stepFollower_def stepCandidate_def stepLeader_def done_step_def bindr_Inr_iff uncommitted_def
          split: option.splits role.splits)
qed

lemma Tick_commit: "Tick r = Inr r' \<Longrightarrow> commitIndex (raftlog r') = commitIndex (raftlog r)"
  by (auto simp: Tick_def tickFollower_def tickCandidate_def tickLeader_def Let_def Step_def stepFollower_def
      stepCandidate_def stepLeader_def no_message_def vote_or_campaign_def campaign_eq done_step_def bindr_Inr_iff
      broadcastHeartbeat_def handleAppendEntries_def raft_replicate_def
      split: option.splits role.splits if_splits)

lemma exchange_uncommitted:
  assumes "sm_do r EExchange = Some (Inr (r', out))" and "uncommitted r"
  shows "uncommitted r' \<and> out = []"
proof -
  from assms(1) obtain r1 where r1: "Ready r = Some (Inr r1)" by (auto split: option.splits sum.splits)
  have u: "uncommitted r1"
    using r1 assms(2)
    by (auto simp: Ready_def uncommitted_def committedEntries_def bindr_Inr_iff split: if_splits sum.splits)
  show ?thesis
  proof (cases "readyc r1")
    case Nil
    then show ?thesis using assms(1) r1 u by simp
  next
    case (Cons rd rest)
    then have "r' = Advance (r1\<lparr>readyc := rest\<rparr>)" "out = rdCommittedEntries rd" using assms(1) r1 by simp_all
    then show ?thesis
      using u Cons by (auto simp: uncommitted_def Advance_def Let_def markStableTill_def markAppliedTill_def)
  qed
qed

lemma sm_run_uncommitted:
  assumes "sm_run r es = Some (Inr (r', out))" and "\<forall>e \<in> set es. local_event e" and "uncommitted r"
  shows "uncommitted r' \<and> out = []"
  using assms
proof (induction es arbitrary: r out)
  case (Cons e es)
  from Cons.prems(1) obtain r1 out1 out2 where 1: "sm_do r e = Some (Inr (r1, out1))"
    "sm_run r1 es = Some (Inr (r', out2))" "out = out1 @ out2"
    by (auto split: option.splits sum.splits)
  have "uncommitted r1 \<and> out1 = []"
  proof (cases e)
    case ETick
    then have "Tick r = Inr r1" "out1 = []" using 1(1) by (auto simp: bindr_Inr_iff)
    then show ?thesis using uncommitted_keep [OF Tick_grows Cons.prems(3) Tick_commit] by blast
  next
    case (EStep m)
    then obtain k v i f where "Step r (proposal k v i) = Inr (r1, f)" "out1 = []"
      using 1(1) Cons.prems(2) by (auto simp: local_event_def bindr_Inr_iff)
    then show ?thesis using uncommitted_keep [OF Step_grows Cons.prems(3) Step_proposal_commit] Cons.prems(3) by blast
  next
    case EExchange
    then show ?thesis using exchange_uncommitted 1(1) Cons.prems(3) by blast
  qed
  then show ?case using Cons.IH [OF 1(2)] Cons.prems(2) 1(3) by simp
qed simp

section \<open>Properties\<close>

text \<open>
  C15: a node never gets stuck. Whatever sequence of ticks, messages and \<^verbatim>\<open>Ready\<close> exchanges drives a new
  node, as long as appended entries continue its log, no call panics or blocks, and afterwards role,
  step function, tick function and vote table agree, votes belong to terms reached, the log carries
  its positions and the progress table stays inside the log.
\<close>

theorem raft_run_ok:
  assumes "run_fits (NewRaft i ps) es"
  shows "\<exists>r out. sm_run (NewRaft i ps) es = Some (Inr (r, out)) \<and> raft_ok r"
  using sm_run_spec [OF NewRaft_ok _ assms] by (auto simp: NewRaft_fields)

text \<open>An append of one entry, a second one, and the commit of the first, as a follower sees them.\<close>

definition app_msg :: "int \<Rightarrow> int \<Rightarrow> log list \<Rightarrow> int \<Rightarrow> message" where
  "app_msg prev prevTerm es c = no_message\<lparr>mType := MSG_APP, mTo := 2, mFrom := 1, mEntries := Some
     \<lparr>aTerm = 1, LeaderId = 1, PrevLogIdx = prev, PrevLogTerm = prevTerm, Entries = es, LeaderCommitIdx = c\<rparr>\<rparr>"

definition log_entry :: "int \<Rightarrow> int \<Rightarrow> bytes \<Rightarrow> log" where
  "log_entry t i k = \<lparr>Term = t, Id = i, Data = Some \<lparr>Op = ''PUT'', Key = k, Val = ''v'', RequestId = 0\<rparr>\<rparr>"

definition follower_run :: "sm_event list" where
  "follower_run = [EStep (app_msg 0 0 [log_entry 1 1 ''a''] 0), EExchange, EStep (app_msg 1 1 [log_entry 1 2 ''b''] 1),
     EExchange, ETick, EStep (app_msg 2 1 [] 2), EExchange]"

lemma follower_run_fits: "run_fits (NewRaft 2 [1, 3]) follower_run"
  by (simp add: follower_run_def app_msg_def log_entry_def msg_fits_def go_eval cong: eval_congs)

theorem raft_run_ok_witness:
  "\<exists>r out. sm_run (NewRaft 2 [1, 3]) follower_run = Some (Inr (r, out)) \<and> raft_ok r"
  using raft_run_ok [OF follower_run_fits] .

text \<open>
  C11: committed entries are applied exactly once and in order. Over any run of a new node in which the
  appends continue its log and the terms stay below the end of \<^verbatim>\<open>int64\<close>, the entries handed out in
  \<^verbatim>\<open>CommittedEntries\<close>, one exchange after the other, are the first \<^verbatim>\<open>lastApplied\<close> entries of the node's
  log.
\<close>

theorem raft_applied_once:
  assumes "run_fits (NewRaft i ps) es" and "sm_run (NewRaft i ps) es = Some (Inr (r, out))"
  shows "out = take (nat (lastApplied (raftlog r))) (entries (raftlog r))"
  using sm_run_spec [OF NewRaft_ok _ assms(1)] assms(2) by (auto simp: NewRaft_fields(1) applied_def [of r])

theorem raft_applied_once_witness:
  "\<exists>r out. sm_run (NewRaft 2 [1, 3]) follower_run = Some (Inr (r, out))
     \<and> out = [log_entry 1 1 ''a'', log_entry 1 2 ''b''] \<and> lastApplied (raftlog r) = 2"
proof -
  have "\<exists>r out. sm_run (NewRaft 2 [1, 3]) follower_run = Some (Inr (r, out))
    \<and> entries (raftlog r) = [log_entry 1 1 ''a'', log_entry 1 2 ''b''] \<and> lastApplied (raftlog r) = 2"
    by (simp add: follower_run_def app_msg_def log_entry_def go_eval cong: eval_congs)
  then obtain r out where r: "sm_run (NewRaft 2 [1, 3]) follower_run = Some (Inr (r, out))"
    "entries (raftlog r) = [log_entry 1 1 ''a'', log_entry 1 2 ''b'']" "lastApplied (raftlog r) = 2" by blast
  then show ?thesis using raft_applied_once [OF follower_run_fits r(1)] by simp
qed

text \<open>
  C16: the commit rule, as the leader computes it from its own table. When a leader receives a successful
  append response of its term, it records its own last index as the match index of the peer, whatever the
  peer holds, and sets its commit index to the largest index beyond the old one whose entry is of the
  current term and which, by the match indices now in its table and itself, more than half of the cluster
  has; without such an index it stays. The log is not changed.
\<close>

theorem raft_commit_rule:
  assumes "raft_ok r" and "state r = StateLeader" and "mType m = MSG_APP_RESP"
    and "mEntriesResp m = Some \<lparr>CurrentTerm = currentTerm r, Success = True\<rparr>"
  shows "\<exists>r'. Step r m = Inr (r', None) \<and> entries (raftlog r') = entries (raftlog r)
    \<and> prog_of r' (mFrom m) = \<lparr>matchIndex = lastIndex (raftlog r), nextIndex = lastIndex (raftlog r) + 1\<rparr>
    \<and> commitIndex (raftlog r') = Max (insert (commitIndex (raftlog r))
        {i. commitIndex (raftlog r) < i \<and> i \<le> lastIndex (raftlog r)
          \<and> Term (entries (raftlog r) ! nat (i - 1)) = currentTerm r
          \<and> clusterSize r < 2 * replicatedCount r' i})"
proof -
  let ?r1 = "r\<lparr>progress := AList.update (mFrom m)
    \<lparr>matchIndex = lastIndex (raftlog r), nextIndex = lastIndex (raftlog r) + 1\<rparr> (progress r)\<rparr>"
  let ?c = "commitIndex (raftlog r)"
  let ?r' = "?r1\<lparr>raftlog := (raftlog r)\<lparr>commitIndex := Max (insert ?c {i. ?c < i \<and> committable ?r1 i})\<rparr>\<rparr>"
  have "Step r m = Inr (?r', None)"
    using handleAppendResponse_success [OF assms(1,4)] assms(1-3)
    by (simp add: Step_def stepLeader_def done_step_def raft_ok_def role_ok_def)
  moreover have "prog_of ?r' (mFrom m) = \<lparr>matchIndex = lastIndex (raftlog r), nextIndex = lastIndex (raftlog r) + 1\<rparr>"
    by (simp add: prog_of_def update_conv')
  moreover have "replicatedCount ?r' i = replicatedCount ?r1 i" for i by (simp add: replicatedCount_def)
  moreover have "{i. ?c < i \<and> committable ?r1 i} = {i. ?c < i \<and> i \<le> lastIndex (raftlog r)
      \<and> Term (entries (raftlog r) ! nat (i - 1)) = currentTerm r \<and> clusterSize r < 2 * replicatedCount ?r1 i}"
  proof -
    have c: "0 \<le> ?c" using assms(1) by (simp add: raft_ok_def log_wf_def)
    have q: "quorum ?r1 \<le> n \<longleftrightarrow> clusterSize r < 2 * n" for n
      unfolding quorum_def by simp presburger
    show ?thesis using c unfolding committable_def q by auto
  qed
  ultimately show ?thesis by (intro exI [of _ ?r']) simp
qed

definition leader_run :: "sm_event list" where
  "leader_run = replicate 9 ETick @ [EStep (no_message\<lparr>mType := MSG_VOTE_RESP, mTo := 1, mFrom := 2,
     mVoteResp := Some \<lparr>rTerm = 1, VoteGranted = True\<rparr>\<rparr>), EStep (proposal ''k'' ''v'' 7)]"

definition ack :: "int \<Rightarrow> message" where
  "ack p = no_message\<lparr>mType := MSG_APP_RESP, mTo := 1, mFrom := p,
     mEntriesResp := Some \<lparr>CurrentTerm = 1, Success = True\<rparr>\<rparr>"

lemma leader_run_fits: "run_fits (NewRaft 1 [2, 3]) leader_run"
  by (simp add: leader_run_def proposal_def msg_fits_def go_eval numeral_eq_Suc replicate_empty cong: eval_congs)

lemma leader_run_eval:
  obtains r where "sm_run (NewRaft 1 [2, 3]) leader_run = Some (Inr (r, []))" and "raft_ok r"
    and "state r = StateLeader" and "currentTerm r = 1" and "commitIndex (raftlog r) = 0"
    and "entries (raftlog r) = [\<lparr>Term = 1, Id = 1, Data = Some \<lparr>Op = ''PUT'', Key = ''k'', Val = ''v'', RequestId = 7\<rparr>\<rparr>]"
    and "clusterSize r = 3" and "progress r = [(2, \<lparr>matchIndex = 0, nextIndex = 1\<rparr>), (3, \<lparr>matchIndex = 0, nextIndex = 1\<rparr>)]"
proof -
  have "\<exists>r. sm_run (NewRaft 1 [2, 3]) leader_run = Some (Inr (r, [])) \<and> state r = StateLeader \<and> currentTerm r = 1
    \<and> commitIndex (raftlog r) = 0
    \<and> entries (raftlog r) = [\<lparr>Term = 1, Id = 1, Data = Some \<lparr>Op = ''PUT'', Key = ''k'', Val = ''v'', RequestId = 7\<rparr>\<rparr>]
    \<and> clusterSize r = 3 \<and> progress r = [(2, \<lparr>matchIndex = 0, nextIndex = 1\<rparr>), (3, \<lparr>matchIndex = 0, nextIndex = 1\<rparr>)]"
    by (simp add: leader_run_def proposal_def go_eval numeral_eq_Suc replicate_empty cong: eval_congs)
  moreover have "raft_ok r" if "sm_run (NewRaft 1 [2, 3]) leader_run = Some (Inr (r, []))" for r
    using sm_run_spec [OF NewRaft_ok _ leader_run_fits] that by (auto simp: NewRaft_fields)
  ultimately show ?thesis using that by blast
qed

theorem raft_commit_rule_witness:
  "\<exists>r r'. sm_run (NewRaft 1 [2, 3]) leader_run = Some (Inr (r, [])) \<and> commitIndex (raftlog r) = 0
     \<and> Step r (ack 2) = Inr (r', None) \<and> commitIndex (raftlog r') = 1"
proof -
  obtain r where r: "sm_run (NewRaft 1 [2, 3]) leader_run = Some (Inr (r, []))" "raft_ok r" "state r = StateLeader"
    "currentTerm r = 1" "commitIndex (raftlog r) = 0" "clusterSize r = 3"
    "entries (raftlog r) = [\<lparr>Term = 1, Id = 1, Data = Some \<lparr>Op = ''PUT'', Key = ''k'', Val = ''v'', RequestId = 7\<rparr>\<rparr>]"
    by (rule leader_run_eval)
  have last: "lastIndex (raftlog r) = 1" by (simp add: lastIndex_def r)
  obtain r' where r': "Step r (ack 2) = Inr (r', None)" "prog_of r' 2 = \<lparr>matchIndex = 1, nextIndex = 2\<rparr>"
    "commitIndex (raftlog r') = Max (insert 0 {i. 0 < i \<and> i \<le> 1 \<and> Term (entries (raftlog r) ! nat (i - 1)) = 1
       \<and> 3 < 2 * replicatedCount r' i})"
    using raft_commit_rule [of r "ack 2"] r last by (auto simp: ack_def no_message_def)
  have "(2, \<lparr>matchIndex = 1, nextIndex = 2\<rparr>) \<in> set (progress r')"
    using r'(2) by (auto simp: prog_of_def split: option.splits dest: map_of_SomeD)
  then have "filter (\<lambda>(p, q). matchIndex q \<ge> 1) (progress r') \<noteq> []" by (force simp: filter_empty_conv)
  then have "3 < 2 * replicatedCount r' 1" by (cases "filter (\<lambda>(p, q). matchIndex q \<ge> 1) (progress r')") (simp_all add: replicatedCount_def)
  then have "{i. 0 < i \<and> i \<le> 1 \<and> Term (entries (raftlog r) ! nat (i - 1)) = 1 \<and> 3 < 2 * replicatedCount r' i} = {1}"
    using r(7) by (auto simp: order_antisym_conv)
  then show ?thesis using r r' by auto
qed

text \<open>
  C21: a node that hears nothing starts an election, and not earlier. A follower or candidate whose
  election clock stands at \<open>t\<close> waits for \<open>electionTimeout - t - 1\<close> ticks without sending anything; the
  next tick raises its term by one, votes for itself and either makes it leader of a one-node
  cluster or a candidate that asks every peer for its vote. The timeout is never randomized.
\<close>

theorem raft_election_timeout:
  assumes "raft_ok r" and "state r \<noteq> StateLeader" and "electionTick r < electionTimeout r"
    and "currentTerm r < 2 ^ 63 - 1" and "n = nat (electionTimeout r - electionTick r - 1)"
  shows "ticks n r = Inr (r\<lparr>electionTick := electionTimeout r - 1\<rparr>)
    \<and> (\<exists>r'. ticks (Suc n) r = Inr r' \<and> currentTerm r' = currentTerm r + 1
        \<and> votedFor r' = (votedFor r)(currentTerm r + 1 \<mapsto> ID r) \<and> raftlog r' = raftlog r
        \<and> (if clusterSize r = 1 then state r' = StateLeader
           else state r' = StateCandidate \<and> msgs r' = msgs r @ map (\<lambda>p. no_message\<lparr>mType := MSG_VOTE, mTo := p,
             mFrom := ID r, mVote := Some \<lparr>vTerm = Some (nat (currentTerm r + 1)), CandidateId = ID r,
               LastLogIndex = lastIndex (raftlog r), LastLogTerm = lastTerm (raftlog r)\<rparr>\<rparr>) (peers r)))"
proof -
  have role: "role_ok r" using assms(1) by (simp add: raft_ok_def)
  have w: "ticks n r = Inr (r\<lparr>electionTick := electionTimeout r - 1\<rparr>)"
    using ticks_wait [OF role assms(2), of n] assms(3,5) by simp
  let ?r = "r\<lparr>electionTick := electionTimeout r - 1\<rparr>"
  let ?z = "r\<lparr>electionTick := 0\<rparr>"
  have "role_ok ?r" using role by (simp add: role_ok_def)
  then have "Tick ?r = Inr (campaign ?z)" using Tick_campaigns [of ?r] assms(2) by simp
  then have "ticks (Suc n) r = Inr (campaign ?z)" using w by (simp only: ticks_snoc bindr.simps)
  moreover have c: "currentTerm (candidate ?z) = currentTerm r + 1"
    using candidate_ok(2) [of ?z] assms(1,4) by simp
  moreover have "votedFor (candidate ?z) = (votedFor r)(currentTerm r + 1 \<mapsto> ID r)"
    using c by (simp add: candidate_def)
  moreover have "i64_bits (currentTerm r + 1) = nat (currentTerm r + 1)"
    using assms(1,4) by (simp add: i64_bits_def raft_ok_def votes_ok_def)
  moreover have "ID (candidate ?z) = ID r" "state (candidate ?z) = StateCandidate"
    by (simp_all add: candidate_def)
  ultimately show ?thesis using w by (simp add: campaign_eq vote_msg_def)
qed

theorem raft_election_timeout_witness:
  "ticks 8 (NewRaft 1 [2, 3]) = Inr ((NewRaft 1 [2, 3])\<lparr>electionTick := 9\<rparr>)
     \<and> (\<exists>r. ticks 9 (NewRaft 1 [2, 3]) = Inr r \<and> state r = StateCandidate \<and> currentTerm r = 1 \<and> map mTo (msgs r) = [2, 3])"
proof -
  let ?r = "NewRaft 1 [2, 3]"
  have f: "electionTick ?r = 1" "msgs ?r = []" by (simp_all add: NewRaft_def becomeFollower_def Let_def go_rem_def)
  have n: "(8::nat) = nat (electionTimeout ?r - electionTick ?r - 1)" by (simp add: NewRaft_fields go_rem_def)
  have nine: "(9::nat) = Suc 8" by simp
  show ?thesis unfolding nine
    using raft_election_timeout [OF NewRaft_ok _ _ _ n] by (auto simp: NewRaft_fields f go_rem_def no_message_def)
qed

text \<open>
  C20: a leader replicates a proposal. It appends the entries with its own term and the next indices,
  keeps its role and term whatever term the message claims, and queues for every peer, to be sent
  after the entries are persisted, an append that carries everything from the peer's next index on
  together with the index and the term of the entry before.
\<close>

theorem raft_replicate_correct:
  assumes "raft_ok r" and "state r = StateLeader" and "mType m = MSG_APP" and "mEntries m = Some ae" and "Entries ae \<noteq> []"
  shows "\<exists>r'. Step r m = Inr (r', None) \<and> state r' = StateLeader \<and> currentTerm r' = currentTerm r
    \<and> entries (raftlog r') = entries (raftlog r)
        @ number_entries (currentTerm r) (int (length (entries (raftlog r))) + 1) (Entries ae)
    \<and> msgs r' = msgs r
    \<and> msgsAfterAppend r' = msgsAfterAppend r @ map (append_for r (entries (raftlog r'))) (peers r)"
  using Step_proposes(1) [OF assms] assms(2) by simp

theorem raft_replicate_correct_witness:
  "\<exists>r r'. sm_run (NewRaft 1 [2, 3]) leader_run = Some (Inr (r, [])) \<and> Step r (proposal ''k2'' ''v2'' 8) = Inr (r', None)
     \<and> map Id (entries (raftlog r')) = [1, 2] \<and> currentTerm r' = 1"
proof -
  obtain r where r: "sm_run (NewRaft 1 [2, 3]) leader_run = Some (Inr (r, []))" "raft_ok r" "state r = StateLeader"
    "currentTerm r = 1"
    "entries (raftlog r) = [\<lparr>Term = 1, Id = 1, Data = Some \<lparr>Op = ''PUT'', Key = ''k'', Val = ''v'', RequestId = 7\<rparr>\<rparr>]"
    by (rule leader_run_eval)
  obtain ae where ae: "mEntries (proposal ''k2'' ''v2'' 8) = Some ae" "Entries ae
      = [\<lparr>Term = 0, Id = 0, Data = Some \<lparr>Op = ''PUT'', Key = ''k2'', Val = ''v2'', RequestId = 8\<rparr>\<rparr>]"
    by (simp add: proposal_def no_message_def)
  then show ?thesis
    using raft_replicate_correct [OF r(2,3) _ ae(1)] r by auto
qed

text \<open>
  A proposal on a node that does not lead. In term 0 a follower takes it for an append and adds
  it to its own log as it is, with index 0; in any later term it refuses and addresses the refusal to
  node 0, which does not exist. In no case is the proposal passed on to the leader.
\<close>

theorem raft_follower_proposal:
  assumes "raft_ok r" and "state r \<noteq> StateLeader"
  shows "Step r (proposal k v i) = Inr (if currentTerm r = 0
      then r\<lparr>electionTick := 0,
             raftlog := (raftlog r)\<lparr>entries := entries (raftlog r)
               @ [\<lparr>Term = 0, Id = 0, Data = Some \<lparr>Op = ''PUT'', Key = k, Val = v, RequestId = i\<rparr>\<rparr>]\<rparr>,
             msgsAfterAppend := msgsAfterAppend r @ [append_resp r 0 True]\<rparr>
      else r\<lparr>electionTick := 0, msgs := msgs r @ [append_resp r 0 False]\<rparr>, None)"
proof -
  let ?r = "r\<lparr>electionTick := 0\<rparr>"
  have t: "0 \<le> currentTerm r" "0 \<le> commitIndex (raftlog r)"
    using assms(1) by (simp_all add: raft_ok_def votes_ok_def log_wf_def)
  have "Step r (proposal k v i) = done_step (handleAppendEntries ?r (proposal k v i))"
    using assms by (cases "state r") (simp_all add: Step_def stepFollower_def stepCandidate_def raft_ok_def role_ok_def)
  then show ?thesis
    using t by (simp add: handleAppendEntries_def proposal_def no_message_def prev_mismatch_def Let_def done_step_def
        sendAppendResponse_def sendAppendResponseAfterPersist_def append_resp_def log_append_def)
qed

theorem raft_follower_proposal_witness:
  "\<exists>r. Step (NewRaft 2 [1, 3]) (proposal ''k'' ''v'' 7) = Inr (r, None) \<and> map Id (entries (raftlog r)) = [0]
     \<and> map mTo (msgsAfterAppend r) = [0]"
  using raft_follower_proposal [OF NewRaft_ok, of 2 "[1, 3]" "''k''" "''v''" 7]
  by (simp add: NewRaft_fields newRaftLog_def append_resp_def no_message_def) (simp add: NewRaft_def becomeFollower_def Let_def)

text \<open>
  A one-node cluster never commits. Whatever its client proposes and however the clock runs, a
  node without peers keeps commit index 0 and hands out nothing for application: only an append
  response moves the commit index, and there is nobody to send one.
\<close>

theorem raft_single_never_commits:
  assumes "sm_run (NewRaft i []) es = Some (Inr (r, out))" and "\<forall>e \<in> set es. local_event e"
  shows "commitIndex (raftlog r) = 0 \<and> out = []"
proof -
  have "uncommitted (NewRaft i [])" by (simp add: uncommitted_def NewRaft_fields newRaftLog_def)
  from sm_run_uncommitted [OF assms this] show ?thesis by (simp add: uncommitted_def)
qed

definition lone_run :: "sm_event list" where
  "lone_run = replicate 9 ETick @ [EStep (proposal ''k'' ''v'' 7), EExchange, ETick, EExchange]"

theorem raft_single_never_commits_witness:
  "\<exists>r. sm_run (NewRaft 1 []) lone_run = Some (Inr (r, [])) \<and> state r = StateLeader
     \<and> stableIndex (raftlog r) = 1 \<and> commitIndex (raftlog r) = 0"
proof -
  have "\<exists>r out. sm_run (NewRaft 1 []) lone_run = Some (Inr (r, out)) \<and> state r = StateLeader \<and> stableIndex (raftlog r) = 1"
    by (simp add: lone_run_def proposal_def go_eval numeral_eq_Suc replicate_empty cong: eval_congs)
  moreover have "\<forall>e \<in> set lone_run. local_event e" by (auto simp: lone_run_def local_event_def)
  ultimately show ?thesis using raft_single_never_commits by blast
qed

end
