(* ===== verification/Raft_Anomalies.thy ===== *)
theory Raft_Anomalies
  imports Raft_Cluster Raft_Props
begin

text \<open>
  Runs of a three-node cluster that end with two nodes having committed different entries at the
  same index, or with a committed entry that only the leader holds. Every message in them is sent
  by a node of the cluster or is a client's proposal, and is delivered once; only the last run, which
  elects two leaders of one term, has a restart.
\<close>

definition cl_commit :: "cluster \<Rightarrow> int \<Rightarrow> int" where
  "cl_commit c i = commitIndex (raftlog (nodes c i))"

definition cl_log :: "cluster \<Rightarrow> int \<Rightarrow> log list" where
  "cl_log c i = entries (raftlog (nodes c i))"

definition put_cmd :: "int \<Rightarrow> int \<Rightarrow> bytes \<Rightarrow> log" where
  "put_cmd t i k = \<lparr>Term = t, Id = i, Data = Some \<lparr>Op = ''PUT'', Key = k, Val = ''v'', RequestId = 0\<rparr>\<rparr>"

definition app :: "int \<Rightarrow> int \<Rightarrow> int \<Rightarrow> int \<Rightarrow> log list \<Rightarrow> int \<Rightarrow> message" where
  "app t from to prev es c = no_message\<lparr>mType := MSG_APP, mTo := to, mFrom := from, mEntries := Some
     \<lparr>aTerm = t, LeaderId = from, PrevLogIdx = prev, PrevLogTerm = (if prev = 0 then 0 else t), Entries = es,
      LeaderCommitIdx = c\<rparr>\<rparr>"

definition acks :: "int \<Rightarrow> int \<Rightarrow> int \<Rightarrow> message" where
  "acks t from to = no_message\<lparr>mType := MSG_APP_RESP, mTo := to, mFrom := from,
     mEntriesResp := Some \<lparr>CurrentTerm = t, Success = True\<rparr>\<rparr>"

lemmas run_defs = put_cmd_def app_def acks_def proposal_def cl_commit_def cl_log_def

lemma upto_one: "[1..numeral n :: int] = 1 # [2..numeral n]"
  by (simp add: upto_rec1)

section \<open>Two proposals in flight\<close>

definition pipeline_run :: "act list" where
  "pipeline_run = vote_run @ [AOutside 1 (proposal ''a'' ''v'' 0), AExchange 1, AOutside 1 (proposal ''b'' ''v'' 0), AExchange 1,
     ADeliver (app 1 1 2 0 [put_cmd 1 1 ''a''] 0), ADeliver (app 1 1 2 0 [put_cmd 1 1 ''a'', put_cmd 1 2 ''b''] 0),
     AExchange 2, ADeliver (acks 1 2 1), ATick 1, AExchange 1, ADeliver (app 1 1 2 2 [] 2)]"

text \<open>
  Two proposals in flight make the replicas diverge. There is a run without loss, duplication,
  reordering or crash in which the leader sends the second proposal before the first is acknowledged;
  the follower appends the first entry twice, and both nodes then have commit index 2 with different
  entries at index 2.
\<close>

theorem pipelined_proposals_diverge:
  "\<exists>c. cl_run [1, 2, 3] (cl_init [1, 2, 3]) pipeline_run = Some c \<and> cl_reach [1, 2, 3] c
     \<and> cl_commit c 1 = 2 \<and> cl_commit c 2 = 2
     \<and> take 2 (cl_log c 1) = [put_cmd 1 1 ''a'', put_cmd 1 2 ''b'']
     \<and> take 2 (cl_log c 2) = [put_cmd 1 1 ''a'', put_cmd 1 1 ''a'']"
proof -
  have "\<exists>c. cl_run [1, 2, 3] (cl_init [1, 2, 3]) pipeline_run = Some c
     \<and> cl_commit c 1 = 2 \<and> cl_commit c 2 = 2
     \<and> take 2 (cl_log c 1) = [put_cmd 1 1 ''a'', put_cmd 1 2 ''b'']
     \<and> take 2 (cl_log c 2) = [put_cmd 1 1 ''a'', put_cmd 1 1 ''a'']"
    by (simp add: go_eval pipeline_run_def vote_run_def run_defs upto_one numeral_eq_Suc replicate_empty cong: eval_congs)
  then show ?thesis using cl_run_reach [OF cl_reach.start] by blast
qed

section \<open>A late acknowledgement\<close>

definition late_ack_run :: "act list" where
  "late_ack_run = vote_run @ [AOutside 1 (proposal ''a'' ''v'' 0), AExchange 1, ADeliver (app 1 1 2 0 [put_cmd 1 1 ''a''] 0),
     AExchange 2, AOutside 1 (proposal ''b'' ''v'' 0), ADeliver (acks 1 2 1)]"

text \<open>
  A leader commits an entry nobody else has. There is a run in which the acknowledgement of the
  first entry reaches the leader after it appended a second one; the leader takes it for an
  acknowledgement of its whole log and commits the second entry, which it has not even sent.
\<close>

theorem unreplicated_entry_committed:
  "\<exists>c. cl_run [1, 2, 3] (cl_init [1, 2, 3]) late_ack_run = Some c \<and> cl_reach [1, 2, 3] c
     \<and> state (nodes c 1) = StateLeader \<and> cl_commit c 1 = 2
     \<and> cl_log c 1 = [put_cmd 1 1 ''a'', put_cmd 1 2 ''b''] \<and> cl_log c 2 = [put_cmd 1 1 ''a''] \<and> cl_log c 3 = []"
proof -
  have "\<exists>c. cl_run [1, 2, 3] (cl_init [1, 2, 3]) late_ack_run = Some c
     \<and> state (nodes c 1) = StateLeader \<and> cl_commit c 1 = 2
     \<and> cl_log c 1 = [put_cmd 1 1 ''a'', put_cmd 1 2 ''b''] \<and> cl_log c 2 = [put_cmd 1 1 ''a''] \<and> cl_log c 3 = []"
    by (simp add: go_eval late_ack_run_def vote_run_def run_defs upto_one numeral_eq_Suc replicate_empty cong: eval_congs)
  then show ?thesis using cl_run_reach [OF cl_reach.start] by blast
qed

section \<open>A leader without the committed entries\<close>

definition stale_leader_run :: "act list" where
  "stale_leader_run = vote_run @ [AOutside 1 (proposal ''a'' ''v'' 0), AExchange 1, ADeliver (app 1 1 2 0 [put_cmd 1 1 ''a''] 0),
     AExchange 2, ADeliver (acks 1 2 1)]
     @ replicate 17 (ATick 3) @ [AExchange 3,
     ADeliver (no_message\<lparr>mType := MSG_VOTE, mTo := 2, mFrom := 3,
       mVote := Some \<lparr>vTerm = Some 2, CandidateId = 3, LastLogIndex = 0, LastLogTerm = 0\<rparr>\<rparr>),
     AExchange 2,
     ADeliver (no_message\<lparr>mType := MSG_VOTE_RESP, mTo := 3, mFrom := 2,
       mVoteResp := Some \<lparr>rTerm = 2, VoteGranted = True\<rparr>\<rparr>),
     AOutside 3 (proposal ''b'' ''v'' 0), AExchange 3, ADeliver (app 2 3 2 0 [put_cmd 2 1 ''b''] 0), AExchange 2,
     ADeliver (acks 2 2 3)]"

text \<open>
  A node without the committed entries can become leader. Votes are granted whatever the
  candidate's log holds. There is a run in which node 1 commits an entry that node 2 holds, node 3
  then wins an election with an empty log by the vote of node 2, and commits another entry at the
  same index.
\<close>

theorem stale_leader_overrides_commit:
  "\<exists>c. cl_run [1, 2, 3] (cl_init [1, 2, 3]) stale_leader_run = Some c \<and> cl_reach [1, 2, 3] c
     \<and> cl_commit c 1 = 1 \<and> cl_commit c 3 = 1 \<and> cl_log c 1 = [put_cmd 1 1 ''a''] \<and> cl_log c 3 = [put_cmd 2 1 ''b'']"
proof -
  have "\<exists>c. cl_run [1, 2, 3] (cl_init [1, 2, 3]) stale_leader_run = Some c
     \<and> cl_commit c 1 = 1 \<and> cl_commit c 3 = 1 \<and> cl_log c 1 = [put_cmd 1 1 ''a''] \<and> cl_log c 3 = [put_cmd 2 1 ''b'']"
    by (simp add: go_eval stale_leader_run_def vote_run_def run_defs upto_one numeral_eq_Suc replicate_empty cong: eval_congs)
  then show ?thesis using cl_run_reach [OF cl_reach.start] by blast
qed

section \<open>A restart\<close>

text \<open>
  A node that starts again calls \<^verbatim>\<open>NewRaft\<close> with its peers, whatever it had voted (\<^verbatim>\<open>bootstrapRaftNode\<close>).
\<close>

definition restart_node :: "int list \<Rightarrow> cluster \<Rightarrow> int \<Rightarrow> cluster" where
  "restart_node ms c i = c\<lparr>nodes := (nodes c)(i := NewRaft i (filter (\<lambda>j. j \<noteq> i) ms))\<rparr>"

definition second_vote_run :: "act list" where
  "second_vote_run = replicate 7 (ATick 3) @ [AExchange 3,
     ADeliver (no_message\<lparr>mType := MSG_VOTE, mTo := 2, mFrom := 3,
       mVote := Some \<lparr>vTerm = Some 1, CandidateId = 3, LastLogIndex = 0, LastLogTerm = 0\<rparr>\<rparr>),
     AExchange 2,
     ADeliver (no_message\<lparr>mType := MSG_VOTE_RESP, mTo := 3, mFrom := 2,
       mVoteResp := Some \<lparr>rTerm = 1, VoteGranted = True\<rparr>\<rparr>)]"

text \<open>
  A restart breaks election safety. Votes are not stored, so there is a run in which node 2 votes
  for node 1, is started again and votes for node 3 in the same term; nodes 1 and 3 are then both
  leader of term 1.
\<close>

theorem restart_two_leaders:
  "\<exists>c c'. cl_run [1, 2, 3] (cl_init [1, 2, 3]) vote_run = Some c
     \<and> cl_run [1, 2, 3] (restart_node [1, 2, 3] c 2) second_vote_run = Some c'
     \<and> state (nodes c' 1) = StateLeader \<and> state (nodes c' 3) = StateLeader
     \<and> currentTerm (nodes c' 1) = 1 \<and> currentTerm (nodes c' 3) = 1"
  by (simp add: go_eval restart_node_def vote_run_def second_vote_run_def upto_one numeral_eq_Suc replicate_empty cong: eval_congs)

end
