(* ===== verification/Wal_Log.thy ===== *)
theory Wal_Log
  imports Raft_Log Node_Codec
begin

text \<open>
  The write-ahead log, \<^verbatim>\<open>wal/wal.go\<close>: the record format, recovery, and the in-memory copy that
  answers queries. The file is opened for appending; \<open>synced\<close> counts the bytes a \<^verbatim>\<open>Sync\<close> has made
  durable. Errors of the operating system are not modelled.
\<close>

section \<open>The record format\<close>

definition cmd_key :: "log \<Rightarrow> bytes" where "cmd_key e = (case Data e of None \<Rightarrow> [] | Some d \<Rightarrow> Key d)"
definition cmd_val :: "log \<Rightarrow> bytes" where "cmd_val e = (case Data e of None \<Rightarrow> [] | Some d \<Rightarrow> Val d)"
definition cmd_op :: "log \<Rightarrow> bytes" where "cmd_op e = (case Data e of None \<Rightarrow> [] | Some d \<Rightarrow> Op d)"

definition encode_entry :: "log \<Rightarrow> bytes" where
  "encode_entry e = put_i64 (Term e) @ put_i64 (Id e)
     @ put_u32 (u32 (length (cmd_key e))) @ put_u32 (u32 (length (cmd_val e))) @ put_u32 (u32 (length (cmd_op e)))
     @ cmd_key e @ cmd_val e @ cmd_op e"

fun encodeLog :: "log list \<Rightarrow> bytes" where
  "encodeLog [] = []"
| "encodeLog (e # es) = encode_entry e @ encodeLog es"

text \<open>One round of the decoding loop after the term was read.\<close>

definition decode_rest :: "int \<Rightarrow> bytes \<Rightarrow> (log \<times> bytes) res" where
  "decode_rest term b0 =
     bindr (read_i64 b0) (\<lambda>(i, b1).
     bindr (read_uint 4 b1) (\<lambda>(keyLen, b2).
     bindr (read_uint 4 b2) (\<lambda>(valueLen, b3).
     bindr (read_uint 4 b3) (\<lambda>(opLen, b4).
     bindr (read_full keyLen b4) (\<lambda>(k, b5).
     bindr (read_full valueLen b5) (\<lambda>(v, b6).
     bindr (read_full opLen b6) (\<lambda>(oper, b7).
       Inr (\<lparr>Term = term, Id = i, Data = Some \<lparr>Op = oper, Key = k, Val = v, RequestId = 0\<rparr>\<rparr>, b7))))))))"

lemma read_full_length: "read_full k bs = Inr (x, rest) \<Longrightarrow> length rest \<le> length bs"
  by (auto simp: read_full_def split: if_splits)

lemma read_uint_length: "read_uint k bs = Inr (x, rest) \<Longrightarrow> length rest \<le> length bs"
  by (auto simp: read_uint_def bindr_Inr_iff dest: read_full_length)

lemma read_i64_length: "read_i64 bs = Inr (x, rest) \<Longrightarrow> length rest + 8 = length bs"
  by (auto simp: read_i64_def read_uint_def bindr_Inr_iff read_full_def split: if_splits)

lemma decode_rest_length: "decode_rest t bs = Inr (e, rest) \<Longrightarrow> length rest \<le> length bs"
  by (auto simp: decode_rest_def bindr_Inr_iff dest!: read_full_length read_uint_length read_i64_length)

function decodeLogs :: "bytes \<Rightarrow> log list res" where
  "decodeLogs bs =
     (case read_i64 bs of
        Inl EOF \<Rightarrow> Inr []
      | Inl e \<Rightarrow> Inl e
      | Inr (term, b1) \<Rightarrow>
          (case decode_rest term b1 of
             Inl e \<Rightarrow> Inl e
           | Inr (entry, b2) \<Rightarrow> bindr (decodeLogs b2) (\<lambda>es. Inr (entry # es))))"
  by pat_completeness auto
termination
proof (relation "measure length")
  fix bs and x :: "int \<times> bytes" and t b1 and y :: "log \<times> bytes" and e b2
  assume "read_i64 bs = Inr x" "(t, b1) = x" "decode_rest t b1 = Inr y" "(e, b2) = y"
  then show "(b2, bs) \<in> measure length"
    using read_i64_length [of bs t b1] decode_rest_length [of t b1 e b2] by auto
qed simp

declare decodeLogs.simps [simp del]

section \<open>The log manager\<close>

record logManager =
  logs :: "log list"
  wfile :: bytes
  synced :: nat
  SyncThreshold :: nat

definition readWAL :: "logManager \<Rightarrow> logManager res" where
  "readWAL lm = (case decodeLogs (wfile lm) of
     Inl e \<Rightarrow> Inl (PanicMsg ''recover'') | Inr es \<Rightarrow> Inr (lm\<lparr>logs := es\<rparr>))"

definition NewLM :: "bytes \<Rightarrow> logManager res" where
  "NewLM data =
     (let lm = \<lparr>logs = [], wfile = data, synced = length data, SyncThreshold = 10\<rparr>
      in if length data > 0 then readWAL lm else Inr lm)"

definition writeToFile :: "logManager \<Rightarrow> log list \<Rightarrow> logManager" where
  "writeToFile lm es =
     (let lm1 = lm\<lparr>wfile := wfile lm @ encodeLog es\<rparr>
      in if length (logs lm1) \<ge> SyncThreshold lm1 then lm1\<lparr>synced := length (wfile lm1)\<rparr> else lm1)"

definition lm_Append :: "logManager \<Rightarrow> log \<Rightarrow> logManager" where
  "lm_Append lm e = (let lm1 = writeToFile lm [e] in lm1\<lparr>logs := logs lm1 @ [e]\<rparr>)"

definition GetLastLogID :: "logManager \<Rightarrow> int" where
  "GetLastLogID lm = (if logs lm = [] then 1 else Id (last (logs lm)))"

definition NextLogID :: "logManager \<Rightarrow> int" where
  "NextLogID lm = (if logs lm = [] then 1 else i64 (Id (last (logs lm)) + 1))"

definition GetLastLogTerm :: "logManager \<Rightarrow> int" where
  "GetLastLogTerm lm = (if logs lm = [] then 0 else Term (last (logs lm)))"

definition GetLog :: "logManager \<Rightarrow> int \<Rightarrow> log option" where
  "GetLog lm index =
     (let sliceIndex = i64 (index - 1)
      in if sliceIndex < 0 \<or> sliceIndex \<ge> int (length (logs lm)) then None
         else Some (logs lm ! nat sliceIndex))"

definition GetLength :: "logManager \<Rightarrow> nat" where
  "GetLength lm = length (logs lm)"

definition GetLogs :: "logManager \<Rightarrow> log list" where
  "GetLogs lm = logs lm"

definition GetLogsAfter :: "logManager \<Rightarrow> int \<Rightarrow> log list" where
  "GetLogsAfter lm index =
     (let sliceIndex = max (i64 (index - 1)) 0
      in if sliceIndex \<ge> int (length (logs lm)) then [] else drop (nat sliceIndex) (logs lm))"

definition TruncateAfter :: "logManager \<Rightarrow> int \<Rightarrow> logManager" where
  "TruncateAfter lm index =
     (if index \<ge> 0 \<and> index < int (length (logs lm)) then lm\<lparr>logs := take (nat index + 1) (logs lm)\<rparr> else lm)"

section \<open>Round trip\<close>

text \<open>What the file keeps of an entry: everything but the request identifier.\<close>

definition persisted :: "log \<Rightarrow> log" where
  "persisted e = \<lparr>Term = Term e, Id = Id e,
     Data = Some \<lparr>Op = cmd_op e, Key = cmd_key e, Val = cmd_val e, RequestId = 0\<rparr>\<rparr>"

definition entry_ok :: "log \<Rightarrow> bool" where
  "entry_ok e \<longleftrightarrow> in_i64 (Term e) \<and> in_i64 (Id e) \<and> length (cmd_key e) < 2 ^ 32
     \<and> length (cmd_val e) < 2 ^ 32 \<and> length (cmd_op e) < 2 ^ 32"

lemma decode_entry_ok:
  assumes "entry_ok e"
  shows "read_i64 (encode_entry e @ rest) = Inr (Term e, drop 8 (encode_entry e) @ rest)"
    and "decode_rest (Term e) (drop 8 (encode_entry e) @ rest) = Inr (persisted e, rest)"
proof -
  have len: "length (put_i64 x) = 8" for x by (simp add: put_i64_def)
  have t: "in_i64 (Term e)" and i: "in_i64 (Id e)" using assms by (simp_all add: entry_ok_def)
  show "read_i64 (encode_entry e @ rest) = Inr (Term e, drop 8 (encode_entry e) @ rest)"
    using read_put_i64 [OF t] by (simp add: encode_entry_def len)
  show "decode_rest (Term e) (drop 8 (encode_entry e) @ rest) = Inr (persisted e, rest)"
    using assms read_put_i64 [OF i]
    by (simp add: encode_entry_def len decode_rest_def entry_ok_def read_put u32_id persisted_def)
qed

lemma decodeLogs_encode:
  assumes "\<forall>e \<in> set es. entry_ok e"
  shows "decodeLogs (encodeLog es @ rest) = bindr (decodeLogs rest) (\<lambda>es'. Inr (map persisted es @ es'))"
  using assms
proof (induction es)
  case Nil
  show ?case by (cases "decodeLogs rest") simp_all
next
  case (Cons e es)
  then have e: "entry_ok e" and IH: "decodeLogs (encodeLog es @ rest)
      = bindr (decodeLogs rest) (\<lambda>es'. Inr (map persisted es @ es'))" by simp_all
  show ?case
    using decode_entry_ok [OF e, of "encodeLog es @ rest"] IH
    by (subst decodeLogs.simps) (simp add: bindr_assoc)
qed

lemma decodeLogs_Nil [simp]: "decodeLogs [] = Inr []"
  by (subst decodeLogs.simps) (simp add: read_i64_def read_uint_def read_full_def)

fun appends :: "logManager \<Rightarrow> log list \<Rightarrow> logManager" where
  "appends lm [] = lm"
| "appends lm (e # es) = appends (lm_Append lm e) es"

lemma lm_Append_fields:
  "logs (lm_Append lm e) = logs lm @ [e]" "wfile (lm_Append lm e) = wfile lm @ encode_entry e"
  "SyncThreshold (lm_Append lm e) = SyncThreshold lm"
  by (simp_all add: lm_Append_def writeToFile_def Let_def)

lemma appends_fields:
  "logs (appends lm es) = logs lm @ es" "wfile (appends lm es) = wfile lm @ encodeLog es"
  "SyncThreshold (appends lm es) = SyncThreshold lm"
  by (induction es arbitrary: lm) (simp_all add: lm_Append_fields)

lemma NewLM_logs:
  assumes "decodeLogs data = Inr es"
  shows "\<exists>lm. NewLM data = Inr lm \<and> logs lm = es \<and> wfile lm = data \<and> SyncThreshold lm = 10"
  using assms by (cases data) (auto simp: NewLM_def readWAL_def Let_def)

section \<open>Reading a longer file\<close>

lemma read_full_ext: "read_full k bs = Inr (x, r) \<Longrightarrow> read_full k (bs @ q) = Inr (x, r @ q)"
  by (auto simp: read_full_def split: if_splits)

lemma read_uint_ext: "read_uint k bs = Inr (x, r) \<Longrightarrow> read_uint k (bs @ q) = Inr (x, r @ q)"
  by (auto simp: read_uint_def bindr_Inr_iff dest: read_full_ext [of _ _ _ _ q])

lemma read_i64_ext: "read_i64 bs = Inr (x, r) \<Longrightarrow> read_i64 (bs @ q) = Inr (x, r @ q)"
  by (auto simp: read_i64_def bindr_Inr_iff dest: read_uint_ext [of _ _ _ _ q])

lemma decode_rest_ext:
  assumes "decode_rest t bs = Inr (e, r)"
  shows "decode_rest t (bs @ q) = Inr (e, r @ q)"
proof -
  obtain i b1 kl b2 vl b3 ol b4 k b5 v b6 oper where
    "read_i64 bs = Inr (i, b1)" "read_uint 4 b1 = Inr (kl, b2)" "read_uint 4 b2 = Inr (vl, b3)"
    "read_uint 4 b3 = Inr (ol, b4)" "read_full kl b4 = Inr (k, b5)" "read_full vl b5 = Inr (v, b6)"
    "read_full ol b6 = Inr (oper, r)"
    "e = \<lparr>Term = t, Id = i, Data = Some \<lparr>Op = oper, Key = k, Val = v, RequestId = 0\<rparr>\<rparr>"
    using assms by (auto simp: decode_rest_def bindr_Inr_iff)
  then show ?thesis by (simp add: decode_rest_def read_i64_ext read_uint_ext read_full_ext)
qed

lemma read_i64_EOF: "read_i64 bs = Inl EOF \<longleftrightarrow> bs = []"
  by (auto simp: read_i64_def read_uint_def bindr_Inl_iff read_full_def)

lemma decodeLogs_cases:
  assumes "bs \<noteq> []" and "decodeLogs bs = Inr xs"
  obtains t b1 e b2 ys where "read_i64 bs = Inr (t, b1)" and "decode_rest t b1 = Inr (e, b2)"
    and "decodeLogs b2 = Inr ys" and "xs = e # ys"
proof (cases "read_i64 bs")
  case (Inl f)
  with assms read_i64_EOF [of bs] have False
    by (subst (asm) decodeLogs.simps) (auto split: fault.splits)
  then show ?thesis ..
next
  case (Inr tb)
  obtain t b1 where tb: "tb = (t, b1)" by (cases tb)
  show ?thesis
  proof (cases "decode_rest t b1")
    case (Inl f)
    with Inr tb assms(2) have False by (subst (asm) decodeLogs.simps) simp
    then show ?thesis ..
  next
    case (Inr eb)
    with \<open>read_i64 bs = Inr tb\<close> tb assms(2) show ?thesis
      using that by (cases eb) (subst (asm) decodeLogs.simps, auto simp: bindr_Inr_iff)
  qed
qed

lemma decodeLogs_ext:
  "decodeLogs bs = Inr xs \<Longrightarrow> decodeLogs (bs @ q) = bindr (decodeLogs q) (\<lambda>ys. Inr (xs @ ys))"
proof (induction bs arbitrary: xs rule: measure_induct_rule [of length])
  case (less bs)
  show ?case
  proof (cases "bs = []")
    case True
    then show ?thesis using less.prems by (cases "decodeLogs q") simp_all
  next
    case False
    obtain t b1 e b2 ys where d: "read_i64 bs = Inr (t, b1)" "decode_rest t b1 = Inr (e, b2)"
      "decodeLogs b2 = Inr ys" "xs = e # ys"
      by (rule decodeLogs_cases [OF False less.prems])
    have "length b2 < length bs" using read_i64_length [OF d(1)] decode_rest_length [OF d(2)] by simp
    then have "decodeLogs (b2 @ q) = bindr (decodeLogs q) (\<lambda>zs. Inr (ys @ zs))" by (rule less.IH [OF _ d(3)])
    then show ?thesis
      using read_i64_ext [OF d(1), of q] decode_rest_ext [OF d(2), of q] d(4)
      by (subst decodeLogs.simps) (simp add: bindr_assoc)
  qed
qed

lemma decodeLogs_torn:
  assumes e: "entry_ok e" and p: "p \<noteq> []" "q \<noteq> []" "encode_entry e = p @ q"
  shows "\<exists>f. decodeLogs p = Inl f"
proof (rule ccontr)
  assume "\<not> ?thesis"
  then obtain xs where "decodeLogs p = Inr xs" by (cases "decodeLogs p") auto
  then obtain t b1 x b2 where d: "read_i64 p = Inr (t, b1)" "decode_rest t b1 = Inr (x, b2)"
    by (rule decodeLogs_cases [OF p(1)])
  have "t = Term e" "b1 @ q = drop 8 (encode_entry e)"
    using read_i64_ext [OF d(1), of q] decode_entry_ok(1) [OF e, of "[]"] p(3) by simp_all
  then have "b2 @ q = []"
    using decode_rest_ext [OF d(2), of q] decode_entry_ok(2) [OF e, of "[]"] by simp
  then show False using p(2) by simp
qed

section \<open>The storage interface\<close>

text \<open>
  What the users of \<^verbatim>\<open>wal.Storage\<close> rely on: appending, reading all entries, reading one by its
  1-based index, and reading all from an index on.
\<close>

locale log_storage =
  fixes append_log :: "'s \<Rightarrow> log \<Rightarrow> 's" and all :: "'s \<Rightarrow> log list"
    and get_log :: "'s \<Rightarrow> int \<Rightarrow> log option" and get_after :: "'s \<Rightarrow> int \<Rightarrow> log list"
  assumes all_append: "all (append_log s e) = all s @ [e]"
    and get_all: "in_i64 (i - 1) \<Longrightarrow>
      get_log s i = (if 1 \<le> i \<and> i \<le> int (length (all s)) then Some (all s ! nat (i - 1)) else None)"
    and after_all: "in_i64 (i - 1) \<Longrightarrow> get_after s i = drop (nat (i - 1)) (all s)"
begin

lemma get_appended:
  assumes "in_i64 (i - 1)"
  shows "get_log (append_log s e) i = (if i = int (length (all s)) + 1 then Some e else get_log s i)"
  using assms by (auto simp: get_all all_append nth_append)

lemma get_by_id:
  assumes "positions (all s)" and "in_i64 (i - 1)" and "get_log s i = Some e"
  shows "Id e = i"
  using assms by (auto simp: get_all positions_def split: if_splits)

lemma after_by_id:
  assumes "positions (all s)" and "in_i64 (i - 1)"
  shows "get_after s i = filter (\<lambda>e. i \<le> Id e) (all s)"
proof -
  let ?n = "nat (i - 1)"
  have "filter (\<lambda>e. i \<le> Id e) (take ?n (all s)) = []"
    using assms(1) by (auto simp: filter_empty_conv positions_def in_set_conv_nth)
  moreover have "filter (\<lambda>e. i \<le> Id e) (drop ?n (all s)) = drop ?n (all s)"
    using assms(1) by (auto simp: filter_id_conv positions_def in_set_conv_nth)
  moreover have "filter (\<lambda>e. i \<le> Id e) (all s) = filter (\<lambda>e. i \<le> Id e) (take ?n (all s))
      @ filter (\<lambda>e. i \<le> Id e) (drop ?n (all s))"
    by (metis append_take_drop_id filter_append)
  ultimately show ?thesis using assms(2) by (simp add: after_all)
qed

end

interpretation wal: log_storage lm_Append GetLogs GetLog GetLogsAfter
proof
  fix s e i
  show "GetLogs (lm_Append s e) = GetLogs s @ [e]" by (simp add: GetLogs_def lm_Append_fields)
  assume i: "in_i64 (i - 1)"
  show "GetLog s i = (if 1 \<le> i \<and> i \<le> int (length (GetLogs s)) then Some (GetLogs s ! nat (i - 1)) else None)"
    using i by (auto simp: GetLog_def GetLogs_def Let_def i64_id)
  show "GetLogsAfter s i = drop (nat (i - 1)) (GetLogs s)"
    using i by (auto simp: GetLogsAfter_def GetLogs_def Let_def i64_id max_def)
qed

section \<open>Properties of the write-ahead log\<close>

text \<open>
  C8: recovery after clean appends. Entries appended to an opened log, whose lengths and numbers fit
  their fields, are read back by the next start after all entries that were there before, in
  order, complete but for the request identifier.
\<close>

theorem wal_recovery:
  assumes "NewLM data = Inr lm" and "\<forall>e \<in> set es. entry_ok e"
  shows "\<exists>lm'. NewLM (wfile (appends lm es)) = Inr lm' \<and> logs lm' = logs lm @ map persisted es"
proof -
  have d: "decodeLogs data = Inr (logs lm)" "wfile lm = data"
    using assms(1) by (auto simp: NewLM_def readWAL_def Let_def split: if_splits sum.splits)
  have "decodeLogs (encodeLog es) = Inr (map persisted es)"
    using decodeLogs_encode [OF assms(2), of "[]"] by simp
  then have "decodeLogs (wfile (appends lm es)) = Inr (logs lm @ map persisted es)"
    using decodeLogs_ext [OF d(1), of "encodeLog es"] by (simp add: appends_fields d(2))
  from NewLM_logs [OF this] show ?thesis by blast
qed

definition sample_entry :: log where
  "sample_entry = \<lparr>Term = 1, Id = 1, Data = Some \<lparr>Op = ''PUT'', Key = ''k'', Val = ''v'', RequestId = 7\<rparr>\<rparr>"

lemma sample_entry_ok: "entry_ok sample_entry"
  by (simp add: entry_ok_def sample_entry_def in_i64_def cmd_key_def cmd_val_def cmd_op_def)

lemma NewLM_empty: "NewLM [] = Inr \<lparr>logs = [], wfile = [], synced = 0, SyncThreshold = 10\<rparr>"
  by (simp add: NewLM_def Let_def)

theorem wal_recovery_witness:
  "\<exists>lm lm'. NewLM [] = Inr lm \<and> NewLM (wfile (lm_Append lm sample_entry)) = Inr lm'
     \<and> logs lm' = [\<lparr>Term = 1, Id = 1, Data = Some \<lparr>Op = ''PUT'', Key = ''k'', Val = ''v'', RequestId = 0\<rparr>\<rparr>]"
  using wal_recovery [OF NewLM_empty, of "[sample_entry]"] sample_entry_ok NewLM_empty
  by (simp add: persisted_def sample_entry_def cmd_key_def cmd_val_def cmd_op_def)

text \<open>
  C40: a torn tail is fatal. When the file ends inside a record (a crash during an append), the next
  start panics, whatever complete records precede it.
\<close>

theorem wal_torn_tail:
  assumes "\<forall>e \<in> set es. entry_ok e" and "entry_ok e" and "encode_entry e = p @ q" and "p \<noteq> []" and "q \<noteq> []"
  shows "NewLM (encodeLog es @ p) = Inl (PanicMsg ''recover'')"
proof -
  obtain f where "decodeLogs p = Inl f" using decodeLogs_torn [OF assms(2,4,5,3)] by blast
  then have "decodeLogs (encodeLog es @ p) = Inl f" using decodeLogs_encode [OF assms(1), of p] by simp
  then show ?thesis using assms(4) by (simp add: NewLM_def readWAL_def Let_def)
qed

theorem wal_torn_tail_witness:
  "NewLM (encodeLog [sample_entry] @ take 10 (encode_entry sample_entry)) = Inl (PanicMsg ''recover'')"
proof (rule wal_torn_tail)
  show "encode_entry sample_entry = take 10 (encode_entry sample_entry) @ drop 10 (encode_entry sample_entry)"
    by simp
  have "length (encode_entry sample_entry) = 33"
    by (simp add: encode_entry_def put_i64_def sample_entry_def cmd_key_def cmd_val_def cmd_op_def)
  then show "take 10 (encode_entry sample_entry) \<noteq> []" "drop 10 (encode_entry sample_entry) \<noteq> []"
    by (auto simp: take_eq_Nil)
qed (simp_all add: sample_entry_ok)

text \<open>
  Queries by index. In a log whose entries carry their positions, \<^verbatim>\<open>GetLog\<close> returns the entry
  with the given identifier, and nothing for an identifier not in the log, and \<^verbatim>\<open>GetLogsAfter\<close>
  returns exactly the entries with that identifier or a larger one, in order.
\<close>

theorem wal_queries:
  assumes "positions (logs lm)" and "in_i64 (i - 1)"
  shows "GetLogsAfter lm i = filter (\<lambda>e. i \<le> Id e) (logs lm)
    \<and> (case GetLog lm i of None \<Rightarrow> i \<notin> Id ` set (logs lm) | Some e \<Rightarrow> Id e = i \<and> e \<in> set (logs lm))"
proof -
  have pos: "positions (GetLogs lm)" using assms(1) by (simp add: GetLogs_def)
  have "GetLogsAfter lm i = filter (\<lambda>e. i \<le> Id e) (logs lm)"
    using wal.after_by_id [OF pos assms(2)] by (simp add: GetLogs_def)
  moreover have "i \<notin> Id ` set (logs lm)" if "GetLog lm i = None"
    using wal.get_all [OF assms(2), of lm] that assms(1)
    by (auto simp: GetLogs_def positions_def in_set_conv_nth split: if_splits)
  moreover have "Id e = i \<and> e \<in> set (logs lm)" if "GetLog lm i = Some e" for e
    using wal.get_by_id [OF pos assms(2) that] wal.get_all [OF assms(2), of lm] that
    by (auto simp: GetLogs_def split: if_splits)
  ultimately show ?thesis by (simp split: option.splits)
qed

theorem wal_queries_witness:
  "\<exists>lm. logs lm = [sample_entry] \<and> GetLogsAfter lm 1 = [sample_entry] \<and> GetLog lm 2 = None"
proof -
  let ?lm = "\<lparr>logs = [sample_entry], wfile = [], synced = 0, SyncThreshold = 10\<rparr>"
  have "positions (logs ?lm)" by (simp add: positions_def sample_entry_def)
  from wal_queries [OF this, of 1] wal_queries [OF this, of 2] show ?thesis
    by (intro exI [of _ ?lm]) (auto simp: in_i64_def sample_entry_def split: option.splits)
qed

text \<open>
  Truncation is neither exact nor durable. \<^verbatim>\<open>TruncateAfter(i)\<close> on a log with more than \<open>i\<close> entries
  keeps \<open>i + 1\<close> of them, one more than documented, and leaves the file alone: after a restart all
  entries are back.
\<close>

theorem wal_truncate:
  assumes "NewLM data = Inr lm" and "\<forall>e \<in> set es. entry_ok e"
    and "0 \<le> i" and "i < int (length (logs (appends lm es)))"
  shows "GetLength (TruncateAfter (appends lm es) i) = nat i + 1
    \<and> (\<exists>lm'. NewLM (wfile (TruncateAfter (appends lm es) i)) = Inr lm' \<and> logs lm' = logs lm @ map persisted es)"
proof -
  have d: "decodeLogs data = Inr (logs lm)" "wfile lm = data"
    using assms(1) by (auto simp: NewLM_def readWAL_def Let_def split: if_splits sum.splits)
  have "decodeLogs (wfile (TruncateAfter (appends lm es) i)) = Inr (logs lm @ map persisted es)"
    using decodeLogs_ext [OF d(1), of "encodeLog es"] decodeLogs_encode [OF assms(2), of "[]"]
    by (simp add: TruncateAfter_def appends_fields d(2))
  from NewLM_logs [OF this] assms(3,4) show ?thesis
    by (auto simp: GetLength_def TruncateAfter_def)
qed

theorem wal_truncate_witness:
  "\<exists>lm lm'. NewLM [] = Inr lm \<and> GetLength (TruncateAfter (appends lm [sample_entry, sample_entry]) 1) = 2
     \<and> NewLM (wfile (TruncateAfter (appends lm [sample_entry, sample_entry]) 0)) = Inr lm' \<and> length (logs lm') = 2"
proof -
  let ?lm = "\<lparr>logs = [], wfile = [], synced = 0, SyncThreshold = 10\<rparr>" and ?es = "[sample_entry, sample_entry]"
  have e: "\<forall>e \<in> set ?es. entry_ok e" by (simp add: sample_entry_ok)
  have "GetLength (TruncateAfter (appends ?lm ?es) 1) = 2"
    using wal_truncate [OF NewLM_empty e, of 1] by (simp add: appends_fields del: appends.simps)
  moreover have "\<exists>lm'. NewLM (wfile (TruncateAfter (appends ?lm ?es) 0)) = Inr lm' \<and> length (logs lm') = 2"
    using wal_truncate [OF NewLM_empty e, of 0] by (auto simp: appends_fields simp del: appends.simps)
  ultimately show ?thesis using NewLM_empty by blast
qed

text \<open>
  When an append becomes durable. A log manager started on an empty file has nothing synced
  until its eleventh append; from then on every append is followed by a sync of the whole file.
\<close>

theorem wal_sync_delay:
  "NewLM [] = Inr lm \<Longrightarrow> synced (appends lm es) = (if length es \<le> 10 then 0 else length (wfile (appends lm es)))"
proof (induction es rule: rev_induct)
  case Nil
  then show ?case by (auto simp: NewLM_empty)
next
  case (snoc e es)
  have split: "appends lm (es @ [e]) = lm_Append (appends lm es) e" for lm
    by (induction es arbitrary: lm) simp_all
  have "SyncThreshold lm = 10" "logs lm = []" using snoc.prems by (auto simp: NewLM_empty)
  then show ?case
    using snoc by (simp add: split lm_Append_def writeToFile_def Let_def appends_fields)
qed

theorem wal_sync_delay_witness:
  "\<exists>lm. NewLM [] = Inr lm \<and> synced (appends lm (replicate 10 sample_entry)) = 0"
  using wal_sync_delay [OF NewLM_empty, of "replicate 10 sample_entry"] NewLM_empty by simp

section \<open>Recovery of an arbitrary file\<close>

lemma read_full_exact: "read_full k bs = Inr (x, r) \<Longrightarrow> bs = x @ r \<and> length x = k"
  by (auto simp: read_full_def split: if_splits)

lemma read_u32_exact:
  assumes "read_uint 4 bs = Inr (n, r)"
  shows "bs = put_u32 n @ r \<and> n < 2 ^ 32"
proof -
  from assms obtain x where x: "bs = x @ r" "length x = 4" "n = le_dec x"
    by (auto simp: read_uint_def bindr_Inr_iff dest: read_full_exact)
  then show ?thesis using le_enc_dec [of x] le_dec_lt [of x] by (simp add: put_u32_def)
qed

lemma i64_bits_i64: "n < 2 ^ 64 \<Longrightarrow> i64_bits (i64 (int n)) = n"
proof -
  assume n: "n < 2 ^ 64"
  have "(i64 (int n)) mod 2 ^ 64 = int n mod 2 ^ 64" by (simp add: i64_def mod_diff_left_eq)
  also have "\<dots> = int n" using n by simp
  finally show ?thesis by (simp add: i64_bits_def)
qed

lemma read_i64_exact:
  assumes "read_i64 bs = Inr (i, r)"
  shows "bs = put_i64 i @ r \<and> in_i64 i"
proof -
  from assms obtain x where x: "bs = x @ r" "length x = 8" "i = i64 (int (le_dec x))"
    by (auto simp: read_i64_def read_uint_def bindr_Inr_iff dest: read_full_exact)
  have "le_dec x < 2 ^ 64" using le_dec_lt [of x] x(2) by simp
  then have "put_i64 i = x" using le_enc_dec [of x] x(2,3) by (simp add: put_i64_def i64_bits_i64)
  moreover have "in_i64 (i64 n)" for n by (simp add: i64_def in_i64_def)
  ultimately show ?thesis using x(1,3) by simp
qed

lemma decode_rest_exact:
  assumes "decode_rest t bs = Inr (e, r)" and "in_i64 t"
  shows "put_i64 t @ bs = encode_entry e @ r \<and> entry_ok e \<and> persisted e = e"
proof -
  from assms(1) obtain i b1 kl b2 vl b3 ol b4 k b5 v b6 oper where d: "read_i64 bs = Inr (i, b1)" "read_uint 4 b1 = Inr (kl, b2)"
    "read_uint 4 b2 = Inr (vl, b3)" "read_uint 4 b3 = Inr (ol, b4)" "read_full kl b4 = Inr (k, b5)" "read_full vl b5 = Inr (v, b6)"
    "read_full ol b6 = Inr (oper, r)" "e = \<lparr>Term = t, Id = i, Data = Some \<lparr>Op = oper, Key = k, Val = v, RequestId = 0\<rparr>\<rparr>"
    by (auto simp: decode_rest_def bindr_Inr_iff)
  have c: "cmd_key e = k" "cmd_val e = v" "cmd_op e = oper" by (simp_all add: d(8) cmd_key_def cmd_val_def cmd_op_def)
  show ?thesis
    using read_i64_exact [OF d(1)] read_u32_exact [OF d(2)] read_u32_exact [OF d(3)] read_u32_exact [OF d(4)]
      read_full_exact [OF d(5)] read_full_exact [OF d(6)] read_full_exact [OF d(7)] assms(2) c
    by (simp add: encode_entry_def entry_ok_def persisted_def u32_id) (simp add: d(8))
qed

lemma decodeLogs_exact: "decodeLogs bs = Inr es \<Longrightarrow> bs = encodeLog es \<and> (\<forall>e \<in> set es. entry_ok e \<and> persisted e = e)"
proof (induction bs arbitrary: es rule: measure_induct_rule [of length])
  case (less bs)
  show ?case
  proof (cases "bs = []")
    case False
    obtain t b1 e b2 ys where d: "read_i64 bs = Inr (t, b1)" "decode_rest t b1 = Inr (e, b2)"
      "decodeLogs b2 = Inr ys" "es = e # ys"
      by (rule decodeLogs_cases [OF False less.prems])
    have "length b2 < length bs" using read_i64_length [OF d(1)] decode_rest_length [OF d(2)] by simp
    from less.IH [OF this d(3)] show ?thesis
      using read_i64_exact [OF d(1)] decode_rest_exact [OF d(2)] d(4) by simp
  qed (use less.prems in simp)
qed

lemma read_faults:
  "read_full k bs = Inl f \<Longrightarrow> f \<in> {EOF, UnexpectedEOF}" "read_uint k bs = Inl f \<Longrightarrow> f \<in> {EOF, UnexpectedEOF}"
  "read_i64 bs = Inl f \<Longrightarrow> f \<in> {EOF, UnexpectedEOF}"
  by (auto simp: read_full_def read_uint_def read_i64_def bindr_Inl_iff split: if_splits)

lemma decode_rest_faults: "decode_rest t bs = Inl f \<Longrightarrow> f \<in> {EOF, UnexpectedEOF}"
  unfolding decode_rest_def
  by (auto simp: bindr_Inl_iff dest: read_faults)

lemma decodeLogs_faults: "decodeLogs bs = Inl f \<Longrightarrow> f \<in> {EOF, UnexpectedEOF}"
proof (induction bs rule: measure_induct_rule [of length])
  case (less bs)
  consider g where "read_i64 bs = Inl g" | t b1 g where "read_i64 bs = Inr (t, b1)" "decode_rest t b1 = Inl g"
    | t b1 e b2 where "read_i64 bs = Inr (t, b1)" "decode_rest t b1 = Inr (e, b2)"
    by (metis old.prod.exhaust old.sum.exhaust)
  then show ?case
  proof cases
    case 1
    then show ?thesis using less.prems read_faults(3) [OF 1] by (subst (asm) decodeLogs.simps) auto
  next
    case 2
    then show ?thesis using less.prems decode_rest_faults [OF 2(2)] by (subst (asm) decodeLogs.simps) auto
  next
    case 3
    then have "decodeLogs b2 = Inl f" using less.prems by (subst (asm) decodeLogs.simps) (auto simp: bindr_Inl_iff)
    moreover have "length b2 < length bs" using read_i64_length [OF 3(1)] decode_rest_length [OF 3(2)] by simp
    ultimately show ?thesis using less.IH by blast
  qed
qed

lemma encodeLog_length: "28 * length es \<le> length (encodeLog es)"
  by (induction es) (simp_all add: encode_entry_def put_i64_def)

text \<open>
  C19: recovery ends on every file and ignores no byte. Whatever the file holds, the decoding loop stops
  after at most one round for each 28 bytes; it either fails with one of the two end-of-file errors, or
  the recovered entries are well-formed and their encoding is the file.
\<close>

theorem wal_decode_total:
  "case decodeLogs bs of
     Inl e \<Rightarrow> e \<in> {EOF, UnexpectedEOF}
   | Inr es \<Rightarrow> encodeLog es = bs \<and> 28 * length es \<le> length bs \<and> set es \<subseteq> Collect entry_ok"
  using decodeLogs_faults [of bs] decodeLogs_exact [of bs] encodeLog_length by (cases "decodeLogs bs") auto

section \<open>Closing\<close>

text \<open>
  The handle of the log file: \<^verbatim>\<open>Close\<close> closes it, a second call returns the error of the operating system,
  and an append on a closed file panics, since its write fails.
\<close>

record wal_handle =
  hlm :: logManager
  hopen :: bool

definition wal_Close :: "wal_handle \<Rightarrow> unit res \<times> wal_handle" where
  "wal_Close h = (if hopen h then (Inr (), h\<lparr>hopen := False\<rparr>) else (Inl (GoErr ''file already closed''), h))"

definition wal_Append :: "wal_handle \<Rightarrow> log \<Rightarrow> wal_handle res" where
  "wal_Append h e = (if hopen h then Inr (h\<lparr>hlm := lm_Append (hlm h) e\<rparr>) else Inl (PanicMsg ''file already closed''))"

datatype wal_call = WAppend log | WClose

fun wal_calls :: "wal_handle \<Rightarrow> wal_call list \<Rightarrow> wal_handle res" where
  "wal_calls h [] = Inr h"
| "wal_calls h (WAppend e # cs) = bindr (wal_Append h e) (\<lambda>h1. wal_calls h1 cs)"
| "wal_calls h (WClose # cs) = wal_calls (snd (wal_Close h)) cs"

lemma wal_calls_closed:
  "\<not> hopen h \<Longrightarrow> wal_calls h cs = (if set cs \<subseteq> {WClose} then Inr h else Inl (PanicMsg ''file already closed''))"
proof (induction cs)
  case (Cons c cs)
  then show ?case by (cases c) (auto simp: wal_Append_def wal_Close_def)
qed simp

lemma wal_calls_open:
  "hopen h \<Longrightarrow> wal_calls h (map WAppend es @ cs) = wal_calls (h\<lparr>hlm := appends (hlm h) es\<rparr>) cs"
  by (induction es arbitrary: h) (simp_all add: wal_Append_def)

end
