(* ===== verification/Raft_Node.thy ===== *)
theory Raft_Node
  imports Raft_Props Wal_Log
begin

text \<open>
  The node around the state machine: \<^verbatim>\<open>repl/raft.go\<close>, its channels and its run loop, and the start of
  a node, \<^verbatim>\<open>repl/bootstrap.go\<close>. Channels are lists with the capacities of the source. The iteration
  of the run loop is one step; the other goroutines only put into \<^verbatim>\<open>propc\<close> and \<^verbatim>\<open>tickc\<close> or take from
  \<^verbatim>\<open>applyc\<close>, between iterations. Reading and parsing the configuration file, dialling a peer and
  listening on an address are parameters. An RPC that is started is recorded in \<open>sent\<close>.
\<close>

section \<open>State\<close>

record node_info =
  niID :: int
  niAddress :: string

record cluster_config =
  cfgNodes :: "node_info list"
  ThisNodeID :: int

record to_apply =
  taEntries :: "log list"
  taCommitIndex :: int

record raft_node =
  nID :: int
  nAddress :: string
  members :: "int set"
  nraft :: raft
  propc :: "message list"
  applyc :: "to_apply list"
  tickc :: nat
  nwal :: logManager
  sent :: "message list"

section \<open>Entry points\<close>

text \<open>
  The select of \<^verbatim>\<open>stepSM\<close>: \<open>expired\<close> says whether the context is done, \<open>pick\<close> which case is taken when
  both are possible. \<open>None\<close> is a call that is still waiting.
\<close>

definition stepSM :: "raft_node \<Rightarrow> message \<Rightarrow> bool \<Rightarrow> bool \<Rightarrow> raft_node res option" where
  "stepSM n m expired pick =
     (if length (propc n) < 256 \<and> (\<not> expired \<or> pick) then Some (Inr (n\<lparr>propc := propc n @ [m]\<rparr>))
      else if expired then Some (Inl (GoErr ''stepSM: context cancelled''))
      else None)"

definition node_Process :: "raft_node \<Rightarrow> message \<Rightarrow> bool \<Rightarrow> bool \<Rightarrow> (raft_node \<times> message) res option" where
  "node_Process n m expired pick =
     (case stepSM n m expired pick of
        None \<Rightarrow> None
      | Some (Inl e) \<Rightarrow> Some (Inl (GoErr ''stepsm''))
      | Some (Inr n1) \<Rightarrow> Some (Inr (n1, no_message)))"

definition node_Tick :: "raft_node \<Rightarrow> raft_node" where
  "node_Tick n = (if tickc n < 128 then n\<lparr>tickc := tickc n + 1\<rparr> else n)"

definition node_GetWAL :: "raft_node \<Rightarrow> logManager" where
  "node_GetWAL n = nwal n"

text \<open>A receive from the channel that \<^verbatim>\<open>Apply\<close> returns.\<close>

definition node_Apply :: "raft_node \<Rightarrow> (to_apply \<times> raft_node) option" where
  "node_Apply n = (case applyc n of [] \<Rightarrow> None | ta # rest \<Rightarrow> Some (ta, n\<lparr>applyc := rest\<rparr>))"

section \<open>The run loop\<close>

fun saveToWAL :: "raft_node \<Rightarrow> log list \<Rightarrow> raft_node" where
  "saveToWAL n [] = n"
| "saveToWAL n (e # es) = saveToWAL (n\<lparr>nwal := lm_Append (nwal n) e\<rparr>) es"

fun node_send :: "raft_node \<Rightarrow> message list \<Rightarrow> raft_node" where
  "node_send n [] = n"
| "node_send n (m # ms) =
     (if mTo m = 0 then node_send n ms
      else if mTo m \<notin> members n then node_send n ms
      else node_send (n\<lparr>sent := sent n @ [m]\<rparr>) ms)"

text \<open>The cases of the select. The send on \<^verbatim>\<open>applyc\<close> waits while the channel is full.\<close>

datatype choice = ChProp | ChReady | ChTick | ChDefault

definition handle_ready :: "raft_node \<Rightarrow> ready \<Rightarrow> raft_node option" where
  "handle_ready n rd =
     (let n1 = saveToWAL n (rdEntries rd);
          n2 = node_send n1 (rdMessages rd);
          n3 = node_send n2 (rdMessagesAfterAppend rd);
          advance = (\<lambda>n. n\<lparr>nraft := Advance (nraft n)\<rparr>)
      in if rdCommittedEntries rd \<noteq> [] then
           (if length (applyc n3) < 256
            then Some (advance (n3\<lparr>applyc := applyc n3 @
              [\<lparr>taEntries = rdCommittedEntries rd, taCommitIndex = hsLastCommit (rdHardState rd)\<rparr>]\<rparr>))
            else None)
         else Some (advance n3))"

definition ch_enabled :: "raft_node \<Rightarrow> choice \<Rightarrow> bool" where
  "ch_enabled n ch = (case ch of
       ChProp \<Rightarrow> propc n \<noteq> []
     | ChReady \<Rightarrow> readyc (nraft n) \<noteq> []
     | ChTick \<Rightarrow> tickc n > 0
     | ChDefault \<Rightarrow> propc n = [] \<and> readyc (nraft n) = [] \<and> tickc n = 0)"

definition run_case :: "raft_node \<Rightarrow> choice \<Rightarrow> raft_node res option" where
  "run_case n ch = (case ch of
       ChProp \<Rightarrow> (case propc n of
           [] \<Rightarrow> None
         | m # rest \<Rightarrow> Some (bindr (Step (nraft n) m) (\<lambda>(r, e). Inr (n\<lparr>propc := rest, nraft := r\<rparr>))))
     | ChReady \<Rightarrow> (case readyc (nraft n) of
           [] \<Rightarrow> None
         | rd # rest \<Rightarrow> map_option Inr (handle_ready (n\<lparr>nraft := (nraft n)\<lparr>readyc := rest\<rparr>\<rparr>) rd))
     | ChTick \<Rightarrow> (if tickc n = 0 then None
         else Some (bindr (Tick (nraft n)) (\<lambda>r. Inr (n\<lparr>tickc := tickc n - 1, nraft := r\<rparr>))))
     | ChDefault \<Rightarrow> Some (Inr n))"

text \<open>
  One iteration: the channel operands are evaluated first, which calls \<^verbatim>\<open>Ready\<close>; then one of the
  possible cases runs. \<open>None\<close> is an iteration that does not get past a channel operation.
\<close>

definition run_eval :: "raft_node \<Rightarrow> raft_node res option" where
  "run_eval n =
     (case Ready (nraft n) of
        None \<Rightarrow> None
      | Some (Inl e) \<Rightarrow> Some (Inl e)
      | Some (Inr r) \<Rightarrow> Some (Inr (n\<lparr>nraft := r\<rparr>)))"

definition run_iter :: "raft_node \<Rightarrow> choice \<Rightarrow> raft_node res option" where
  "run_iter n ch =
     (case run_eval n of
        None \<Rightarrow> None
      | Some (Inl e) \<Rightarrow> Some (Inl e)
      | Some (Inr n1) \<Rightarrow> if ch_enabled n1 ch then run_case n1 ch else None)"

section \<open>Starting a node\<close>

fun find_address :: "node_info list \<Rightarrow> int \<Rightarrow> string" where
  "find_address [] i = []"
| "find_address (x # xs) i = (if niID x = i then niAddress x else find_address xs i)"

text \<open>
  \<open>load\<close> is the result of reading and parsing the configuration, \<open>walData\<close> the contents of the
  write-ahead log's file, \<open>dial\<close> and \<open>listen\<close> the errors of connecting and listening.
\<close>

fun dial_peers :: "(string \<Rightarrow> string option) \<Rightarrow> int \<Rightarrow> node_info list \<Rightarrow> int set \<Rightarrow> int set res" where
  "dial_peers dial self [] ms = Inr ms"
| "dial_peers dial self (p # ps) ms =
     (if niID p = self then dial_peers dial self ps ms
      else (case dial (niAddress p) of
              Some err \<Rightarrow> Inl (GoErr ''failed to connect to peer'')
            | None \<Rightarrow> dial_peers dial self ps (insert (niID p) ms)))"

definition node_start :: "(string \<Rightarrow> string option) \<Rightarrow> raft_node \<Rightarrow> raft_node res" where
  "node_start listen n = (case listen (nAddress n) of
     Some err \<Rightarrow> Inl (GoErr ''failed to listen'') | None \<Rightarrow> Inr n)"

text \<open>The options change the node after its fields are set; the source defines one, which replaces the log.\<close>

definition WithWal :: "logManager \<Rightarrow> raft_node \<Rightarrow> raft_node" where
  "WithWal w n = n\<lparr>nwal := w\<rparr>"

definition bootstrapRaftNode ::
  "cluster_config res \<Rightarrow> bytes \<Rightarrow> (string \<Rightarrow> string option) \<Rightarrow> (string \<Rightarrow> string option) \<Rightarrow> (raft_node \<Rightarrow> raft_node) list
   \<Rightarrow> raft_node res" where
  "bootstrapRaftNode load walData dial listen options =
     (case load of
        Inl e \<Rightarrow> Inl (GoErr ''failed to load config'')
      | Inr config \<Rightarrow>
          let self = ThisNodeID config;
              addr = find_address (cfgNodes config) self
          in if addr = [] then Inl (GoErr ''node ID not found in cluster config'')
             else
               let ps = map niID (filter (\<lambda>x. niID x \<noteq> self) (cfgNodes config))
               in bindr (NewLM walData) (\<lambda>walStorage.
                    let n = \<lparr>nID = self, nAddress = addr, members = {}, nraft = NewRaft self ps, propc = [],
                             applyc = [], tickc = 0, nwal = walStorage, sent = []\<rparr>;
                        n1 = fold (\<lambda>opt. opt) options n
                    in bindr (dial_peers dial (nID n1) (cfgNodes config) (members n1)) (\<lambda>ms.
                       bindr (node_start listen (n1\<lparr>members := ms\<rparr>)) (\<lambda>n2. Inr n2))))"

definition NewRaftNode ::
  "cluster_config res \<Rightarrow> bytes \<Rightarrow> (string \<Rightarrow> string option) \<Rightarrow> (string \<Rightarrow> string option) \<Rightarrow> raft_node res" where
  "NewRaftNode load walData dial listen = bootstrapRaftNode load walData dial listen []"

text \<open>
  \<^verbatim>\<open>loadConfig\<close>: \<open>readFile\<close> is \<^verbatim>\<open>os.ReadFile\<close> and \<open>unmarshal\<close> the YAML parser. \<^verbatim>\<open>stop\<close> ends the server and
  closes the connections that are gRPC connections; \<open>conns\<close> says of each peer's connection whether it is one.
\<close>

definition loadConfig :: "(string \<Rightarrow> bytes res) \<Rightarrow> (bytes \<Rightarrow> cluster_config res) \<Rightarrow> string \<Rightarrow> cluster_config res" where
  "loadConfig readFile unmarshal path =
     (case readFile path of
        Inl e \<Rightarrow> Inl (GoErr ''failed to read config file'')
      | Inr data \<Rightarrow> (case unmarshal data of
            Inl e \<Rightarrow> Inl (GoErr ''failed to parse config'')
          | Inr config \<Rightarrow> Inr config))"

record node_io =
  serving :: "bool option"
  conns :: "(int \<times> bool) list"
  closedConns :: "int set"

definition node_stop :: "node_io \<Rightarrow> node_io" where
  "node_stop io =
     (let io1 = (case serving io of None \<Rightarrow> io | Some _ \<Rightarrow> io\<lparr>serving := Some False\<rparr>)
      in fold (\<lambda>(p, grpc) io. if grpc then io\<lparr>closedConns := insert p (closedConns io)\<rparr> else io) (conns io1) io1)"

lemmas start_defs = NewRaftNode_def bootstrapRaftNode_def

declare run_iter_def [go_eval] run_eval_def [go_eval] run_case_def [go_eval] ch_enabled_def [go_eval]
  handle_ready_def [go_eval] node_Tick_def [go_eval] stepSM_def [go_eval] node_Process_def [go_eval]
  lm_Append_def [go_eval] writeToFile_def [go_eval]

section \<open>Behaviour of the loop\<close>

text \<open>
  What can happen to a node: a message or a tick arrives, a batch is taken for application, or the
  loop runs an iteration. A message that is stepped continues the follower's log, and the term is
  below the end of \<^verbatim>\<open>int64\<close>.
\<close>

definition iter_fits :: "raft_node \<Rightarrow> choice \<Rightarrow> bool" where
  "iter_fits n ch \<longleftrightarrow> currentTerm (nraft n) < 2 ^ 63 - 1
     \<and> (ch = ChProp \<longrightarrow> propc n \<noteq> [] \<longrightarrow> msg_fits (nraft n) (hd (propc n)))"

inductive node_step :: "raft_node \<Rightarrow> raft_node \<Rightarrow> bool" where
  arrive: "node_Process n m expired pick = Some (Inr (n', resp)) \<Longrightarrow> node_step n n'"
| clock: "node_step n (node_Tick n)"
| consume: "node_Apply n = Some (ta, n') \<Longrightarrow> node_step n n'"
| loop: "iter_fits n ch \<Longrightarrow> run_iter n ch = Some (Inr n') \<Longrightarrow> node_step n n'"

inductive node_reach :: "raft_node \<Rightarrow> raft_node \<Rightarrow> bool" for n where
  here: "node_reach n n"
| more: "node_reach n n1 \<Longrightarrow> node_step n1 n2 \<Longrightarrow> node_reach n n2"

inductive_cases node_stepE: "node_step n n'"

text \<open>
  The invariant between iterations. A \<^verbatim>\<open>Ready\<close> that was put into the channel and not yet taken either
  carries no entries, or the next evaluation blocks.
\<close>

definition pending_ok :: "raft \<Rightarrow> bool" where
  "pending_ok r \<longleftrightarrow> readyc r = [] \<or> (\<exists>rd. readyc r = [rd]
     \<and> (has_ready r \<or> rdEntries rd = [] \<and> rdCommittedEntries rd = []))"

definition node_ok :: "raft_node \<Rightarrow> bool" where
  "node_ok n \<longleftrightarrow> raft_ok (nraft n) \<and> pending_ok (nraft n)
     \<and> logs (nwal n) = take (nat (stableIndex (raftlog (nraft n)))) (entries (raftlog (nraft n)))"

lemma saveToWAL_eq: "saveToWAL n es = n\<lparr>nwal := appends (nwal n) es\<rparr>"
  by (induction es arbitrary: n) simp_all

lemma node_send_fields:
  "nraft (node_send n ms) = nraft n" "nwal (node_send n ms) = nwal n" "applyc (node_send n ms) = applyc n"
  "propc (node_send n ms) = propc n" "tickc (node_send n ms) = tickc n" "members (node_send n ms) = members n"
  "nID (node_send n ms) = nID n"
  by (induction ms arbitrary: n) simp_all

lemma node_send_sent:
  "sent (node_send n ms) = sent n @ filter (\<lambda>m. mTo m \<noteq> 0 \<and> mTo m \<in> members n) ms"
  by (induction ms arbitrary: n) auto

lemma handle_ready_fields:
  assumes "handle_ready n rd = Some n'"
  shows "nraft n' = Advance (nraft n)" "logs (nwal n') = logs (nwal n) @ rdEntries rd"
    "sent n' = sent n @ filter (\<lambda>m. mTo m \<noteq> 0 \<and> mTo m \<in> members n) (rdMessages rd @ rdMessagesAfterAppend rd)"
    "applyc n' = applyc n @ (if rdCommittedEntries rd = [] then []
       else [\<lparr>taEntries = rdCommittedEntries rd, taCommitIndex = hsLastCommit (rdHardState rd)\<rparr>])"
  using assms
  by (auto simp: handle_ready_def Let_def saveToWAL_eq node_send_fields node_send_sent appends_fields split: if_splits)

lemma has_ready_grows:
  assumes "grows r r'" and "raft_ok r" and "raft_ok r'"
    and "stableIndex (raftlog r) < lastIndex (raftlog r) \<or> commitIndex (raftlog r) > lastApplied (raftlog r)"
  shows "has_ready r'"
proof -
  have "lastIndex (raftlog r) \<le> lastIndex (raftlog r')"
    using assms(1-3) by (auto simp: grows_def raft_ok_def log_wf_def lastIndex_wf)
  then show ?thesis using assms(1,4) by (auto simp: grows_def has_ready_def)
qed

lemma pending_grows:
  assumes g: "grows r r'" and ok: "raft_ok r" "raft_ok r'"
    and p: "readyc r = [] \<or> (\<exists>rd. readyc r = [rd] \<and> (rdEntries rd = [] \<and> rdCommittedEntries rd = []
      \<or> stableIndex (raftlog r) < lastIndex (raftlog r) \<or> commitIndex (raftlog r) > lastApplied (raftlog r)))"
  shows "pending_ok r'"
  using p has_ready_grows [OF g ok] g by (auto simp: pending_ok_def grows_def)

text \<open>The state after the operands are evaluated: what the channel then holds.\<close>

lemma range_of_all: "0 \<le> lo \<Longrightarrow> range_of l lo (int (length (entries l))) = drop (nat lo) (entries l)"
  by (simp add: range_of_def nat_diff_distrib)

lemma run_eval_ok:
  assumes ok: "node_ok n" and ev: "run_eval n = Some (Inr n1)"
  defines "l \<equiv> raftlog (nraft n)"
  shows "raft_ok (nraft n1)" "raftlog (nraft n1) = l" "currentTerm (nraft n1) = currentTerm (nraft n)"
    "state (nraft n1) = state (nraft n)"
    "nwal n1 = nwal n" "propc n1 = propc n" "tickc n1 = tickc n" "applyc n1 = applyc n" "sent n1 = sent n" "members n1 = members n"
    "readyc (nraft n1) = [] \<or> (\<exists>rd. readyc (nraft n1) = [rd] \<and> rdEntries rd = drop (nat (stableIndex l)) (entries l)
       \<and> rdCommittedEntries rd = range_of l (lastApplied l) (commitIndex l))"
proof -
  let ?r = "nraft n"
  have r: "raft_ok ?r" "log_wf l" "pending_ok ?r" using ok by (simp_all add: node_ok_def raft_ok_def l_def)
  obtain r1 where r1: "Ready ?r = Some (Inr r1)" "n1 = n\<lparr>nraft := r1\<rparr>" using ev by (auto simp: run_eval_def split: option.splits sum.splits)
  have q: "raft_ok (?r\<lparr>msgs := [], msgsAfterAppend := [], readyc := c\<rparr>)" "raft_ok (?r\<lparr>readyc := c\<rparr>)" for c
    using r(1) by (simp_all add: raft_ok_def role_ok_def votes_ok_def prog_ok_def prog_of_def)
  have bounds: "0 \<le> stableIndex l" "stableIndex l \<le> int (length (entries l))" "lastIndex l = int (length (entries l))"
    "lastApplied l \<le> commitIndex l"
    using r(2) by (simp_all add: log_wf_def lastIndex_wf)
  have main: "raft_ok r1 \<and> raftlog r1 = l \<and> currentTerm r1 = currentTerm ?r \<and> state r1 = state ?r
    \<and> (readyc r1 = [] \<or> (\<exists>rd. readyc r1 = [rd] \<and> rdEntries rd = drop (nat (stableIndex l)) (entries l)
       \<and> rdCommittedEntries rd = range_of l (lastApplied l) (commitIndex l)))"
  proof (cases "readyc ?r = []")
    case True
    then show ?thesis
      using r1(1) Ready_eq [OF r(2) [unfolded l_def] True] r(1) q range_of_all [OF bounds(1)]
      by (auto simp: l_def split: if_splits)
  next
    case False
    then obtain rd where rd: "readyc ?r = [rd]" "has_ready ?r \<or> rdEntries rd = [] \<and> rdCommittedEntries rd = []"
      using r(3) by (auto simp: pending_ok_def)
    have "\<not> has_ready ?r" using r1(1) rd(1) by (auto simp: Ready_def split: sum.splits)
    then have "r1 = ?r" "stableIndex l = lastIndex l" "commitIndex l = lastApplied l" "rdEntries rd = []" "rdCommittedEntries rd = []"
      using r1(1) rd(2) bounds by (auto simp: Ready_def has_ready_def l_def)
    then show ?thesis using r(1) rd(1) bounds by (auto simp: l_def range_of_def)
  qed
  show "raft_ok (nraft n1)" "raftlog (nraft n1) = l" "currentTerm (nraft n1) = currentTerm (nraft n)"
    "state (nraft n1) = state (nraft n)" "nwal n1 = nwal n" "propc n1 = propc n" "tickc n1 = tickc n"
    "applyc n1 = applyc n" "sent n1 = sent n" "members n1 = members n"
    "readyc (nraft n1) = [] \<or> (\<exists>rd. readyc (nraft n1) = [rd] \<and> rdEntries rd = drop (nat (stableIndex l)) (entries l)
       \<and> rdCommittedEntries rd = range_of l (lastApplied l) (commitIndex l))"
    using main r1(2) by simp_all
qed

lemma msg_fits_cong: "state r' = state r \<Longrightarrow> raftlog r' = raftlog r \<Longrightarrow> msg_fits r' m = msg_fits r m"
  unfolding msg_fits_def by (simp only:)

lemma Advance_fields: "readyc (Advance r) = readyc r" by (simp add: Advance_def Let_def)

lemma ready_case_ok:
  assumes ok: "raft_ok r" and rd: "rdEntries rd = drop (nat (stableIndex (raftlog r))) (entries (raftlog r))"
      "rdCommittedEntries rd = range_of (raftlog r) (lastApplied (raftlog r)) (commitIndex (raftlog r))"
    and wal: "logs (nwal n) = take (nat (stableIndex (raftlog r))) (entries (raftlog r))"
    and h: "handle_ready (n\<lparr>nraft := r\<lparr>readyc := []\<rparr>\<rparr>) rd = Some n'"
  shows "node_ok n' \<and> logs (nwal n') = entries (raftlog (nraft n'))
    \<and> (\<exists>tas. applyc n' = applyc n @ tas \<and> applied (nraft n') = applied r @ concat (map taEntries tas))"
proof -
  let ?r = "r\<lparr>readyc := []\<rparr>" and ?l = "raftlog r"
  have r: "raft_ok ?r" using ok by (simp add: raft_ok_def role_ok_def votes_ok_def prog_ok_def prog_of_def)
  have wf: "log_wf ?l" using ok by (simp add: raft_ok_def)
  note f = handle_ready_fields [OF h]
  have log: "raftlog (Advance ?r) = ?l\<lparr>stableIndex := int (length (entries ?l)), lastApplied := commitIndex ?l\<rparr>"
    using Advance_log [of ?r] wf by simp
  have "logs (nwal n') = entries ?l" using f(2) rd(1) wal by simp
  moreover have "applied (Advance ?r) = applied r @ rdCommittedEntries rd"
    using range_of_append [of 0 "lastApplied ?l" "commitIndex ?l" ?l] wf
    by (simp add: applied_def log rd(2) log_wf_def range_of_def)
  ultimately show ?thesis
    using f(1,4) Advance_ok [OF r] by (auto simp: node_ok_def pending_ok_def Advance_fields log)
qed

lemma run_iter_ok:
  assumes ok: "node_ok n" and fits: "iter_fits n ch" and it: "run_iter n ch = Some (Inr n')"
  shows "node_ok n' \<and> (sent n' \<noteq> sent n \<longrightarrow> logs (nwal n') = entries (raftlog (nraft n')))
    \<and> (\<exists>tas. applyc n' = applyc n @ tas \<and> applied (nraft n') = applied (nraft n) @ concat (map taEntries tas))"
proof -
  obtain n1 where n1: "run_eval n = Some (Inr n1)" "ch_enabled n1 ch" "run_case n1 ch = Some (Inr n')"
    using it by (auto simp: run_iter_def split: option.splits sum.splits if_splits)
  note e = run_eval_ok [OF ok n1(1)]
  let ?r = "nraft n1" and ?l = "raftlog (nraft n)"
  have wal: "logs (nwal n1) = take (nat (stableIndex ?l)) (entries ?l)" using ok e(5) by (simp add: node_ok_def)
  have wf: "log_wf ?l" using ok by (simp add: node_ok_def raft_ok_def)
  have app: "applied ?r = applied (nraft n)" by (simp add: applied_def e(2))
  have pend: "readyc ?r = [] \<or> (\<exists>rd. readyc ?r = [rd] \<and> (rdEntries rd = [] \<and> rdCommittedEntries rd = []
      \<or> stableIndex (raftlog ?r) < lastIndex (raftlog ?r) \<or> commitIndex (raftlog ?r) > lastApplied (raftlog ?r)))"
    using e(11) wf by (auto simp: e(2) log_wf_def lastIndex_wf range_of_def)
  have stepped: "node_ok n2 \<and> sent n2 = sent n \<and> applyc n2 = applyc n \<and> applied (nraft n2) = applied (nraft n)"
    if "grows ?r (nraft n2)" "raft_ok (nraft n2)" "nwal n2 = nwal n1" "sent n2 = sent n1" "applyc n2 = applyc n1" for n2
  proof -
    have "applied (nraft n2) = applied (nraft n)" using applied_grows [OF that(1)] wf e(2) app by simp
    moreover have "pending_ok (nraft n2)" by (rule pending_grows [OF that(1) e(1) that(2) pend])
    moreover have "take (nat (stableIndex ?l)) (entries ?l)
        = take (nat (stableIndex (raftlog (nraft n2)))) (entries (raftlog (nraft n2)))"
      using that(1) wf by (auto simp: grows_def e(2) log_wf_def)
    ultimately show ?thesis using that e(8,9) wal by (simp add: node_ok_def)
  qed
  show ?thesis
  proof (cases ch)
    case ChProp
    then obtain m rest r f where m: "propc n1 = m # rest" "Step ?r m = Inr (r, f)" "n' = n1\<lparr>propc := rest, nraft := r\<rparr>"
      using n1(3) by (auto simp: run_case_def bindr_Inr_iff split: list.splits)
    have "msg_fits ?r m" "currentTerm ?r < 2 ^ 63 - 1"
      using fits ChProp m(1) e(3,6) msg_fits_cong [OF e(4,2)] by (simp_all add: iter_fits_def)
    then have "raft_ok r" using Step_ok [OF e(1), of m] m(2) by auto
    then show ?thesis using stepped [of n'] Step_grows [OF m(2)] m(3) by simp
  next
    case ChReady
    then obtain rd where rd: "readyc ?r = [rd]" "rdEntries rd = drop (nat (stableIndex ?l)) (entries ?l)"
      "rdCommittedEntries rd = range_of ?l (lastApplied ?l) (commitIndex ?l)"
      using n1(2) e(11) by (auto simp: ch_enabled_def)
    have "handle_ready (n1\<lparr>nraft := ?r\<lparr>readyc := []\<rparr>\<rparr>) rd = Some n'"
      using n1(3) ChReady rd(1) by (simp add: run_case_def)
    from ready_case_ok [OF e(1) _ _ _ this] rd wal
    have "node_ok n' \<and> logs (nwal n') = entries (raftlog (nraft n'))
      \<and> (\<exists>tas. applyc n' = applyc n1 @ tas \<and> applied (nraft n') = applied ?r @ concat (map taEntries tas))"
      by (simp add: e(2))
    then show ?thesis using e(8) app by simp
  next
    case ChTick
    then obtain r where r: "Tick ?r = Inr r" "n' = n1\<lparr>tickc := tickc n1 - 1, nraft := r\<rparr>"
      using n1(3) by (auto simp: run_case_def bindr_Inr_iff split: if_splits)
    have "raft_ok r" using Tick_ok [OF e(1)] fits r(1) e(3) by (auto simp: iter_fits_def)
    then show ?thesis using stepped [of n'] Tick_grows [OF r(1)] r(2) by simp
  next
    case ChDefault
    then show ?thesis using stepped [of n1] n1(3) e(1) by (simp add: run_case_def)
  qed
qed

lemma node_step_ok:
  assumes "node_step n n'" and "node_ok n"
  shows "node_ok n'"
  using assms
proof cases
  case (arrive m expired pick resp)
  then show ?thesis using assms(2)
    by (auto simp: node_Process_def stepSM_def node_ok_def split: if_splits)
next
  case clock
  then show ?thesis using assms(2) by (auto simp: node_Tick_def node_ok_def)
next
  case (consume ta)
  then show ?thesis using assms(2) by (auto simp: node_Apply_def node_ok_def split: list.splits)
next
  case (loop ch)
  then show ?thesis using run_iter_ok assms(2) by blast
qed

lemma node_reach_ok: "node_reach n n' \<Longrightarrow> node_ok n \<Longrightarrow> node_ok n'"
  by (induction rule: node_reach.induct) (auto intro: node_step_ok)

lemma run_iter_no_panic:
  assumes ok: "node_ok n" and fits: "iter_fits n ch"
  shows "run_iter n ch \<noteq> Some (Inl f)"
proof
  assume it: "run_iter n ch = Some (Inl f)"
  have wf: "log_wf (raftlog (nraft n))" using ok by (simp add: node_ok_def raft_ok_def)
  have "Ready (nraft n) \<noteq> Some (Inl f)"
    using wf by (auto simp: Ready_def volatileEntries_wf committedEntries_wf split: if_splits)
  then obtain n1 where n1: "run_eval n = Some (Inr n1)" "run_case n1 ch = Some (Inl f)"
    using it by (auto simp: run_iter_def run_eval_def split: option.splits sum.splits if_splits)
  note e = run_eval_ok [OF ok n1(1)]
  have fit: "msg_fits (nraft n1) (hd (propc n1))" if "ch = ChProp" "propc n1 \<noteq> []"
    using fits that e(6) msg_fits_cong [OF e(4,2)] by (simp add: iter_fits_def)
  have step: "\<exists>r g. Step (nraft n1) (hd (propc n1)) = Inr (r, g)" if "ch = ChProp" "propc n1 \<noteq> []"
    using Step_ok [OF e(1) fit [OF that]] fits e(3) by (auto simp: iter_fits_def)
  have tick: "\<exists>r. Tick (nraft n1) = Inr r" using Tick_ok [OF e(1)] fits e(3) by (auto simp: iter_fits_def)
  show False
    using n1(2) step tick by (cases ch) (auto simp: run_case_def split: list.splits if_splits)
qed

section \<open>Starting\<close>

lemma dial_peers_ids:
  "dial_peers dial self ps ms = Inr ms' \<Longrightarrow> ms' = ms \<union> {i \<in> niID ` set ps. i \<noteq> self}"
  by (induction dial self ps ms rule: dial_peers.induct) (auto split: if_splits option.splits)

lemma bootstrap_Inr:
  assumes "NewRaftNode load walData dial listen = Inr n"
  obtains config lm where "load = Inr config" and "NewLM walData = Inr lm" and "nwal n = lm"
    and "nraft n = NewRaft (ThisNodeID config) (map niID (filter (\<lambda>x. niID x \<noteq> ThisNodeID config) (cfgNodes config)))"
    and "members n = {i \<in> niID ` set (cfgNodes config). i \<noteq> ThisNodeID config}"
    and "propc n = []" and "applyc n = []" and "tickc n = 0" and "sent n = []" and "nID n = ThisNodeID config"
  using assms
  by (auto simp: start_defs Let_def node_start_def bindr_Inr_iff split: sum.splits if_splits option.splits
      dest!: dial_peers_ids)

lemma bootstrap_ok:
  assumes "NewRaftNode load [] dial listen = Inr n"
  shows "node_ok n"
proof -
  from assms obtain config :: cluster_config and lm where c: "NewLM [] = Inr lm" "nwal n = lm"
    "nraft n = NewRaft (ThisNodeID config) (map niID (filter (\<lambda>x. niID x \<noteq> ThisNodeID config) (cfgNodes config)))"
    by (rule bootstrap_Inr) (rule that)
  then have "logs (nwal n) = []" by (simp add: NewLM_def Let_def) (metis logManager.select_convs(1))
  then show ?thesis
    using c(3) by (simp add: node_ok_def NewRaft_ok pending_ok_def NewRaft_fields newRaftLog_def)
qed

section \<open>Runs of a node\<close>

datatype nact = NProcess message | NTick | NLoop choice

fun node_do :: "raft_node \<Rightarrow> nact \<Rightarrow> raft_node option" where
  "node_do n (NProcess m) = (case node_Process n m False True of Some (Inr (n', resp)) \<Rightarrow> Some n' | _ \<Rightarrow> None)"
| "node_do n NTick = Some (node_Tick n)"
| "node_do n (NLoop ch) = (if iter_fits n ch then (case run_iter n ch of Some (Inr n') \<Rightarrow> Some n' | _ \<Rightarrow> None) else None)"

fun node_run :: "raft_node \<Rightarrow> nact list \<Rightarrow> raft_node option" where
  "node_run n [] = Some n"
| "node_run n (a # as) = (case node_do n a of None \<Rightarrow> None | Some n' \<Rightarrow> node_run n' as)"

lemma node_do_step: "node_do n a = Some n' \<Longrightarrow> node_step n n'"
  by (cases a) (auto split: option.splits sum.splits if_splits intro: node_step.intros)

lemma node_run_reach: "node_reach n0 n \<Longrightarrow> node_run n as = Some n' \<Longrightarrow> node_reach n0 n'"
proof (induction as arbitrary: n)
  case (Cons a as)
  then obtain n1 where "node_do n a = Some n1" "node_run n1 as = Some n'" by (auto split: option.splits)
  then show ?case using Cons.IH [OF node_reach.more [OF Cons.prems(1) node_do_step]] by blast
qed simp

text \<open>Once the send of \<^verbatim>\<open>Ready\<close> blocks, nothing that can still happen unblocks it.\<close>

lemma stuck_step: "node_step n n' \<Longrightarrow> Ready (nraft n) = None \<Longrightarrow> nraft n' = nraft n"
  by (auto elim!: node_stepE simp: node_Process_def stepSM_def node_Tick_def node_Apply_def run_iter_def run_eval_def
      split: if_splits list.splits)

lemma stuck_reach: "node_reach n n' \<Longrightarrow> Ready (nraft n) = None \<Longrightarrow> nraft n' = nraft n"
  by (induction rule: node_reach.induct) (auto dest: stuck_step)

definition three_nodes :: cluster_config where
  "three_nodes = \<lparr>cfgNodes = [\<lparr>niID = 1, niAddress = ''localhost:5001''\<rparr>, \<lparr>niID = 2, niAddress = ''localhost:5002''\<rparr>,
     \<lparr>niID = 3, niAddress = ''localhost:5003''\<rparr>], ThisNodeID = 1\<rparr>"

definition up :: "string \<Rightarrow> string option" where "up addr = None"

lemma three_nodes_up:
  obtains n where "NewRaftNode (Inr three_nodes) [] up up = Inr n" and "nraft n = NewRaft 1 [2, 3]" and "sent n = []"
    and "members n = {2, 3}" and "propc n = []" and "applyc n = []" and "tickc n = 0"
    and "nwal n = \<lparr>logs = [], wfile = [], synced = 0, SyncThreshold = 10\<rparr>"
proof -
  have "\<exists>n. NewRaftNode (Inr three_nodes) [] up up = Inr n \<and> nraft n = NewRaft 1 [2, 3] \<and> sent n = []
    \<and> members n = {2, 3} \<and> propc n = [] \<and> applyc n = [] \<and> tickc n = 0
    \<and> nwal n = \<lparr>logs = [], wfile = [], synced = 0, SyncThreshold = 10\<rparr>"
    by (simp add: start_defs three_nodes_def up_def node_start_def NewLM_def Let_def insert_commute)
  then show ?thesis using that by blast
qed

section \<open>Properties\<close>

text \<open>
  C7: the write-ahead log is the persisted part of the Raft log, for a node that was started on an empty
  write-ahead log and steps only appends that continue its log, with terms below the end of \<^verbatim>\<open>int64\<close>. In
  every state it can reach so, in any interleaving of arriving messages, ticks and consumed batches with
  iterations of the run loop, and whichever case each select takes, the write-ahead log holds exactly the
  entries up to \<^verbatim>\<open>stableIndex\<close>, the state machine is well formed, and no further iteration of that kind
  panics. After a start on a file with entries the two differ.
\<close>

theorem node_wal_invariant:
  assumes "NewRaftNode load [] dial listen = Inr n0" and "node_reach n0 n"
  shows "logs (nwal n) = take (nat (stableIndex (raftlog (nraft n)))) (entries (raftlog (nraft n)))
    \<and> raft_ok (nraft n) \<and> (\<forall>ch f. iter_fits n ch \<longrightarrow> run_iter n ch \<noteq> Some (Inl f))"
proof -
  have "node_ok n" by (rule node_reach_ok [OF assms(2) bootstrap_ok [OF assms(1)]])
  then show ?thesis using run_iter_no_panic [of n] by (auto simp: node_ok_def)
qed

text \<open>A follower receives an append, persists it and answers.\<close>

definition from_leader :: "log list \<Rightarrow> int \<Rightarrow> message" where
  "from_leader es c = no_message\<lparr>mType := MSG_APP, mTo := 1, mFrom := 2, mEntries := Some \<lparr>aTerm = 1, LeaderId = 2,
     PrevLogIdx = 0, PrevLogTerm = 0, Entries = es, LeaderCommitIdx = c\<rparr>\<rparr>"

definition persist_run :: "nact list" where
  "persist_run = [NProcess (from_leader [log_entry 1 1 ''a''] 1), NLoop ChProp]"

lemma persist_run_eval:
  assumes "nraft n0 = NewRaft 1 [2, 3]" "sent n0 = []" "members n0 = {2, 3}" "propc n0 = []" "applyc n0 = []" "tickc n0 = 0"
    "nwal n0 = \<lparr>logs = [], wfile = [], synced = 0, SyncThreshold = 10\<rparr>"
  obtains n n' where "node_run n0 persist_run = Some n" and "iter_fits n ChReady" and "run_iter n ChReady = Some (Inr n')"
    and "sent n = []" and "map mTo (sent n') = [2]" and "entries (raftlog (nraft n')) = [log_entry 1 1 ''a'']"
    and "map taCommitIndex (applyc n') = [1]" and "stableIndex (raftlog (nraft n')) = 1" and "applyc n = []" and "applied (nraft n) = []"
    and "lastApplied (raftlog (nraft n')) = 1"
proof -
  have "\<exists>n n'. node_run n0 persist_run = Some n \<and> iter_fits n ChReady \<and> run_iter n ChReady = Some (Inr n')
    \<and> sent n = [] \<and> map mTo (sent n') = [2] \<and> entries (raftlog (nraft n')) = [log_entry 1 1 ''a'']
    \<and> map taCommitIndex (applyc n') = [1] \<and> stableIndex (raftlog (nraft n')) = 1 \<and> applyc n = [] \<and> applied (nraft n) = []
    \<and> lastApplied (raftlog (nraft n')) = 1"
    by (simp add: persist_run_def from_leader_def log_entry_def go_eval iter_fits_def msg_fits_def assms applied_def cong: eval_congs)
  then show ?thesis by (elim exE conjE) (rule that)
qed

theorem node_wal_invariant_witness:
  "\<exists>n0 n n'. NewRaftNode (Inr three_nodes) [] up up = Inr n0 \<and> node_run n0 persist_run = Some n
     \<and> run_iter n ChReady = Some (Inr n') \<and> logs (nwal n') = [log_entry 1 1 ''a'']"
proof -
  obtain n0 where n0: "NewRaftNode (Inr three_nodes) [] up up = Inr n0" "nraft n0 = NewRaft 1 [2, 3]" "sent n0 = []"
    "members n0 = {2, 3}" "propc n0 = []" "applyc n0 = []" "tickc n0 = 0"
    "nwal n0 = \<lparr>logs = [], wfile = [], synced = 0, SyncThreshold = 10\<rparr>" by (rule three_nodes_up)
  obtain n n' where n: "node_run n0 persist_run = Some n" "iter_fits n ChReady" "run_iter n ChReady = Some (Inr n')"
    "entries (raftlog (nraft n')) = [log_entry 1 1 ''a'']" "stableIndex (raftlog (nraft n')) = 1"
    by (rule persist_run_eval [OF n0(2-8)])
  have "node_reach n0 n'"
    by (rule node_reach.more [OF node_run_reach [OF node_reach.here n(1)] node_step.loop [OF n(2,3)]])
  from node_wal_invariant [OF n0(1) this] show ?thesis using n0(1) n by auto
qed



text \<open>
  An append and a heartbeat of the leader are queued; the heartbeat is taken while the \<^verbatim>\<open>Ready\<close> of the
  append sits in its channel.
\<close>

definition deadlock_run :: "nact list" where
  "deadlock_run = [NProcess (from_leader [log_entry 1 1 ''a''] 0), NProcess (from_leader [] 0), NLoop ChProp, NLoop ChProp]"

text \<open>
  C38: the run loop can block for ever. There is a reachable state, two messages of a leader after the start,
  from which the loop never runs another iteration, whatever arrives and however the selects decide:
  evaluating \<^verbatim>\<open>Ready()\<close> puts a second value into the channel of capacity one that only the loop itself
  empties.
\<close>

theorem node_run_deadlock:
  "\<exists>n0 n. NewRaftNode (Inr three_nodes) [] up up = Inr n0 \<and> node_run n0 deadlock_run = Some n \<and> node_reach n0 n
     \<and> {n'. node_reach n n'} \<subseteq> {n'. \<forall>ch. run_iter n' ch = None}"
proof -
  obtain n0 where n0: "NewRaftNode (Inr three_nodes) [] up up = Inr n0" "nraft n0 = NewRaft 1 [2, 3]" "sent n0 = []"
    "members n0 = {2, 3}" "propc n0 = []" "applyc n0 = []" "tickc n0 = 0"
    "nwal n0 = \<lparr>logs = [], wfile = [], synced = 0, SyncThreshold = 10\<rparr>" by (rule three_nodes_up)
  have "\<exists>n. node_run n0 deadlock_run = Some n \<and> Ready (nraft n) = None"
    by (simp add: deadlock_run_def from_leader_def log_entry_def go_eval iter_fits_def msg_fits_def n0 cong: eval_congs)
  then obtain n where n: "node_run n0 deadlock_run = Some n" "Ready (nraft n) = None" by blast
  have "run_iter n' ch = None" if "node_reach n n'" for n' ch
    using stuck_reach [OF that n(2)] n(2) by (simp add: run_iter_def run_eval_def)
  then show ?thesis using n0(1) n(1) node_run_reach [OF node_reach.here n(1)] by blast
qed

text \<open>
  The default log is opened before the options are applied, although it is meant to be opened only when no
  option provides one: a default log that cannot be recovered stops the start whatever the options say.
\<close>

theorem bootstrap_opens_default_wal:
  assumes "NewLM walData = Inl e" and "find_address (cfgNodes config) (ThisNodeID config) \<noteq> []"
  shows "bootstrapRaftNode (Inr config) walData dial listen (WithWal w # options) = Inl e"
  using assms by (simp add: bootstrapRaftNode_def Let_def)

lemma fold_close:
  "fold (\<lambda>(p, grpc) io. if grpc then io\<lparr>closedConns := insert p (closedConns io)\<rparr> else io) ps io
     = io\<lparr>closedConns := closedConns io \<union> {p. (p, True) \<in> set ps}\<rparr>"
proof (induction ps arbitrary: io)
  case (Cons q ps)
  have "{p. (p, True) \<in> set (q # ps)} = (if snd q then insert (fst q) {p. (p, True) \<in> set ps} else {p. (p, True) \<in> set ps})"
    by (cases q) auto
  then show ?case by (cases q) (simp add: Cons.IH)
qed simp

text \<open>Stopping a node ends its server, if there is one, and closes exactly its gRPC connections.\<close>

lemma node_stop_eq:
  "node_stop io = io\<lparr>serving := map_option (\<lambda>_. False) (serving io), closedConns := closedConns io \<union> {p. (p, True) \<in> set (conns io)}\<rparr>"
  by (cases "serving io") (simp_all add: node_stop_def fold_close)

end
