(* ===== verification/Raft_Limits.thy ===== *)
theory Raft_Limits
  imports Raft_Node
begin

text \<open>
  What the state machine does where it departs from Raft, for every node, log and message rather than in
  one run: appends that are delivered again, followers that lag behind, elections that do not compare
  logs, and nodes that restart.
\<close>

section \<open>An append delivered twice\<close>

lemma Step_append:
  "raft_ok r \<Longrightarrow> state r \<noteq> StateLeader \<Longrightarrow> mType m = MSG_APP \<Longrightarrow> Step r m = done_step (handleAppendEntries (r\<lparr>electionTick := 0\<rparr>) m)"
  by (cases "state r") (simp_all add: Step_def stepFollower_def stepCandidate_def raft_ok_def role_ok_def)

text \<open>What an append with entries does to the log: nothing, or it adds all of them.\<close>

lemma append_effect:
  assumes ae: "mEntries m = Some ae" "Entries ae \<noteq> []" and h: "handleAppendEntries r m = Inr r'"
  shows "entries (raftlog r') = entries (raftlog r) @ Entries ae \<and> currentTerm r' = aTerm ae
      \<and> prev_mismatch (raftlog r) (PrevLogIdx ae) (PrevLogTerm ae) = Inr False \<and> state r' \<in> {state r, StateFollower}
    \<or> entries (raftlog r') = entries (raftlog r)"
proof (cases "aTerm ae < currentTerm r")
  case True
  then show ?thesis using h ae by (auto simp: handleAppendEntries_def sendAppendResponse_def)
next
  case False
  define r1 where "r1 = (if aTerm ae > currentTerm r then becomeFollower r (aTerm ae) else r)"
  have r1: "raftlog r1 = raftlog r" "currentTerm r1 = aTerm ae" "state r1 \<in> {state r, StateFollower}" using False by (auto simp: r1_def)
  obtain bad where bad: "prev_mismatch (raftlog r1) (PrevLogIdx ae) (PrevLogTerm ae) = Inr bad"
    using h False by (auto simp: handleAppendEntries_def ae Let_def r1_def [symmetric] bindr_Inr_iff)
  show ?thesis
  proof (cases bad)
    case True
    then show ?thesis
      using h False bad r1 by (auto simp: handleAppendEntries_def ae Let_def r1_def [symmetric] sendAppendResponse_def)
  next
    case False': False
    then show ?thesis
      using h False bad ae r1
      by (auto simp: handleAppendEntries_def Let_def r1_def [symmetric] sendAppendResponseAfterPersist_def log_append_def log_maybeCommit_def
          cong: if_cong split: if_splits)
  qed
qed

lemma prev_match_append:
  assumes wf: "positions (entries l)" and wf': "positions (entries l @ es)"
    and match: "prev_mismatch l i t = Inr False"
  shows "prev_mismatch (l\<lparr>entries := entries l @ es, commitIndex := c\<rparr>) i t = Inr False"
proof (cases "0 < i")
  case True
  let ?l = "l\<lparr>entries := entries l @ es, commitIndex := c\<rparr>"
  have last: "lastIndex l = int (length (entries l))" "lastIndex ?l = int (length (entries l @ es))"
    using lastIndex_wf [OF wf] lastIndex_wf [of ?l] wf' by simp_all
  have i: "i \<le> int (length (entries l))" using match True last(1) by (auto simp: prev_mismatch_def split: if_splits)
  then have "nat (i - 1) < length (entries l)" using True by linarith
  then have "log_term ?l i = log_term l i"
    using True i last by (simp add: log_term_def entry_at_def nth_append)
  then show ?thesis using match True i last by (simp add: prev_mismatch_def)
qed (simp add: prev_mismatch_def)

lemma positions_twice:
  assumes "positions (xs @ es)" and "es \<noteq> []"
  shows "\<not> positions (xs @ es @ es)"
proof
  assume p: "positions (xs @ es @ es)"
  have "Id (hd es) = int (length xs) + 1"
    using assms unfolding positions_def by (metis append_is_Nil_conv hd_conv_nth length_append length_greater_0_conv less_add_same_cancel1
        nth_append_length_plus add_0_right)
  moreover have "Id (hd es) = int (length xs + length es) + 1"
    using p [unfolded positions_def, rule_format, of "length xs + length es"] assms(2) by (simp add: nth_append hd_conv_nth)
  ultimately show False using assms(2) by simp
qed

section \<open>Votes\<close>

text \<open>What an answer to the candidate of term \<open>t\<close> looks like that grants the vote of \<open>p\<close>.\<close>

definition vote_grant :: "int \<Rightarrow> int \<Rightarrow> int \<Rightarrow> message" where
  "vote_grant c t p = no_message\<lparr>mType := MSG_VOTE_RESP, mTo := c, mFrom := p, mVoteResp := Some \<lparr>rTerm = t, VoteGranted = True\<rparr>\<rparr>"

text \<open>A node in an earlier term, or in its first term without a vote, grants whatever the logs are.\<close>

lemma vote_granted:
  assumes ok: "raft_ok f" and st: "state f \<noteq> StateLeader" and m: "mType m = MSG_VOTE" "mVote m = Some v" "vTerm v = Some t"
    and later: "currentTerm f < i64 (int t)"
  shows "\<exists>f'. Step f m = Inr (f', None) \<and> msgs f' = msgs f @ [vote_grant (CandidateId v) (i64 (int t)) (ID f)] \<and> raftlog f' = raftlog f"
proof -
  have none: "votedFor f (i64 (int t)) = None"
    using ok later by (cases "votedFor f (i64 (int t))") (force simp: raft_ok_def votes_ok_def)+
  have "Step f m = Inr (handleVoteRequest f m, None)"
    using ok st m by (cases "state f") (simp_all add: Step_def stepFollower_def stepCandidate_def vote_or_campaign_def raft_ok_def role_ok_def)
  then show ?thesis
    using m later none by (simp add: handleVoteRequest_def Let_def sendVoteResponse_def vote_grant_def)
qed

lemma update_new: "k \<notin> fst ` set xs \<Longrightarrow> AList.update k v xs = xs @ [(k, v)]"
  by (induction xs) auto

text \<open>Enough granted votes, one from each of several peers, make a leader.\<close>

lemma leader_keeps_leading:
  "raft_ok r \<Longrightarrow> state r = StateLeader \<Longrightarrow> sm_run r (map (\<lambda>p. EStep (vote_grant c t p)) qs) = Some (Inr (r, []))"
  by (induction qs) (simp_all add: Step_def stepLeader_def raft_ok_def role_ok_def vote_grant_def no_message_def)

lemma grants_run:
  assumes "raft_ok r" and "state r = StateCandidate" and "votes r = Some vs" and "filter snd vs = vs" and "fst ` set vs \<inter> set qs = {}"
    and "distinct qs" and "int (length vs) < quorum r" and "quorum r \<le> int (length vs + length qs)"
  shows "\<exists>r'. sm_run r (map (\<lambda>p. EStep (vote_grant c (currentTerm r) p)) qs) = Some (Inr (r', []))
    \<and> state r' = StateLeader \<and> raftlog r' = raftlog r \<and> currentTerm r' = currentTerm r"
  using assms
proof (induction qs arbitrary: r vs)
  case (Cons q qs)
  let ?m = "vote_grant c (currentTerm r) q" and ?r = "r\<lparr>votes := Some (vs @ [(q, True)])\<rparr>"
  define r1 where "r1 = (if quorum r \<le> int (length vs) + 1 then becomeLeader ?r else ?r)"
  have new: "AList.update q True vs = vs @ [(q, True)]" using Cons.prems(5) by (intro update_new) auto
  have step: "Step r ?m = Inr (r1, None)"
    using Cons.prems(1-4) new
    by (simp add: Step_def stepCandidate_def raft_ok_def role_ok_def vote_grant_def handleVoteResponse_def done_step_def quorum_def r1_def)
  have same: "raftlog r1 = raftlog r" "currentTerm r1 = currentTerm r" by (simp_all add: r1_def)
  have ok: "raft_ok r1"
    using Cons.prems(1,2) becomeLeader_ok [of ?r] by (auto simp: r1_def raft_ok_def role_ok_def votes_ok_def prog_ok_def prog_of_def)
  have "\<exists>r'. sm_run r1 (map (\<lambda>p. EStep (vote_grant c (currentTerm r) p)) qs) = Some (Inr (r', []))
    \<and> state r' = StateLeader \<and> raftlog r' = raftlog r \<and> currentTerm r' = currentTerm r"
  proof (cases "quorum r \<le> int (length vs) + 1")
    case True
    then show ?thesis using leader_keeps_leading [OF ok] same by (simp add: r1_def)
  next
    case False
    then have r1: "r1 = ?r" by (simp add: r1_def)
    show ?thesis
      using Cons.IH [of r1 "vs @ [(q, True)]"] Cons.prems False ok by (auto simp: r1 quorum_def)
  qed
  then show ?case using step by auto
qed simp

section \<open>The file of the write-ahead log\<close>

text \<open>Whatever a node does, it only appends to its write-ahead log, so the file encodes the entries in memory.\<close>

lemma run_iter_wal:
  assumes "run_iter n ch = Some (Inr n')"
  shows "\<exists>es. nwal n' = appends (nwal n) es"
proof -
  obtain n1 where n1: "run_eval n = Some (Inr n1)" "run_case n1 ch = Some (Inr n')"
    using assms by (auto simp: run_iter_def split: option.splits sum.splits if_splits)
  have "nwal n1 = nwal n" using n1(1) by (auto simp: run_eval_def split: option.splits sum.splits)
  moreover have "\<exists>es. nwal n' = appends (nwal n1) es"
  proof (cases ch)
    case ChReady
    then obtain rd rest where h: "handle_ready (n1\<lparr>nraft := (nraft n1)\<lparr>readyc := rest\<rparr>\<rparr>) rd = Some n'"
      using n1(2) by (auto simp: run_case_def split: list.splits)
    then have "nwal n' = appends (nwal n1) (rdEntries rd)"
      by (auto simp: handle_ready_def Let_def saveToWAL_eq node_send_fields split: if_splits)
    then show ?thesis by blast
  qed (use n1(2) in \<open>auto simp: run_case_def bindr_Inr_iff split: list.splits if_splits intro!: exI [of _ "[]"]\<close>)
  ultimately show ?thesis by simp
qed

lemma node_step_wal: "node_step n n' \<Longrightarrow> \<exists>es. nwal n' = appends (nwal n) es"
  by (elim node_stepE)
    (auto simp: node_Process_def stepSM_def node_Tick_def node_Apply_def split: if_splits list.splits intro: run_iter_wal exI [of _ "[]"])

lemma encodeLog_append: "encodeLog (es @ es') = encodeLog es @ encodeLog es'"
  by (induction es) simp_all

lemma node_reach_file:
  assumes "node_reach n n'" and "wfile (nwal n) = encodeLog (logs (nwal n))"
  shows "wfile (nwal n') = encodeLog (logs (nwal n'))"
  using assms
proof induction
  case (more n1 n2)
  then show ?case using node_step_wal [OF more.hyps(2)] by (auto simp: appends_fields encodeLog_append)
qed simp

section \<open>Properties\<close>

text \<open>
  C23: appends are not idempotent. Whenever a node that does not lead accepts an append with entries that
  continue its log, and the same message reaches it once more, delivered twice or sent again by the
  leader, the entries are in its log twice, one copy after the other, and the indices of its log are no
  longer the positions of its entries.
\<close>

theorem append_not_idempotent:
  assumes "raft_ok r" and "state r \<noteq> StateLeader" and "mType m = MSG_APP" and "mEntries m = Some ae" and "Entries ae \<noteq> []"
    and "msg_fits r m" and "currentTerm r < 2 ^ 63 - 1" and "Step r m = Inr (r1, e)" and "entries (raftlog r1) \<noteq> entries (raftlog r)"
  shows "\<exists>r2. Step r1 m = Inr (r2, None) \<and> entries (raftlog r2) = entries (raftlog r) @ Entries ae @ Entries ae
    \<and> \<not> positions (entries (raftlog r2))"
proof -
  let ?es = "Entries ae" and ?z = "\<lambda>r. r\<lparr>electionTick := (0 :: int)\<rparr>"
  have h: "handleAppendEntries (?z r) m = Inr r1" "e = None"
    using assms(8) unfolding Step_append [OF assms(1-3)] done_step_def by (auto simp: bindr_Inr_iff)
  have eff: "entries (raftlog r1) = entries (raftlog r) @ ?es" "currentTerm r1 = aTerm ae"
    "prev_mismatch (raftlog r) (PrevLogIdx ae) (PrevLogTerm ae) = Inr False" "state r1 \<in> {state r, StateFollower}"
    using append_effect [OF assms(4,5) h(1)] assms(9) by auto
  have ok1: "raft_ok r1" using Step_ok [OF assms(1,6,7)] assms(8) by auto
  have pos: "positions (entries (raftlog r))" "positions (entries (raftlog r1))"
    using assms(1) ok1 by (simp_all add: raft_ok_def log_wf_def)
  have "raftlog r1 = (raftlog r)\<lparr>entries := entries (raftlog r) @ ?es, commitIndex := commitIndex (raftlog r1)\<rparr>"
    using Step_grows [OF assms(8)] eff(1) by (simp add: grows_def)
  then have match: "prev_mismatch (raftlog r1) (PrevLogIdx ae) (PrevLogTerm ae) = Inr False"
    using prev_match_append [OF pos(1) _ eff(3)] pos(2) eff(1) by metis
  have st: "state r1 \<noteq> StateLeader" using eff(4) assms(2) by auto
  obtain r2 where r2: "handleAppendEntries (?z r1) m = Inr r2" "entries (raftlog r2) = entries (raftlog r1) @ ?es"
    using match eff(2) assms(4,5)
    by (auto simp: handleAppendEntries_def Let_def sendAppendResponseAfterPersist_def log_append_def log_maybeCommit_def
          cong: if_cong split: if_splits)
  have "Step r1 m = Inr (r2, None)" using Step_append [OF ok1 st assms(3)] r2(1) by (simp add: done_step_def)
  then show ?thesis using r2(2) eff(1) pos(2) positions_twice assms(5) by simp
qed

theorem append_not_idempotent_witness:
  "\<exists>r1 r2. Step (NewRaft 2 [1, 3]) (app_msg 0 0 [log_entry 1 1 ''a''] 0) = Inr (r1, None)
     \<and> Step r1 (app_msg 0 0 [log_entry 1 1 ''a''] 0) = Inr (r2, None) \<and> map Id (entries (raftlog r2)) = [1, 1]"
proof -
  let ?r = "NewRaft 2 [1, 3]" and ?m = "app_msg 0 0 [log_entry 1 1 ''a''] 0"
  obtain ae where ae: "mType ?m = MSG_APP" "mEntries ?m = Some ae" "Entries ae = [log_entry 1 1 ''a'']"
    by (simp add: app_msg_def no_message_def)
  have "\<exists>r1. Step ?r ?m = Inr (r1, None) \<and> entries (raftlog r1) = [log_entry 1 1 ''a'']"
    by (simp add: app_msg_def log_entry_def go_eval cong: eval_congs)
  then obtain r1 where r1: "Step ?r ?m = Inr (r1, None)" "entries (raftlog r1) = [log_entry 1 1 ''a'']" by blast
  have new: "entries (raftlog ?r) = []" "state ?r \<noteq> StateLeader" "currentTerm ?r < 2 ^ 63 - 1"
    by (simp_all add: NewRaft_fields newRaftLog_def)
  have "msg_fits ?r ?m" by (simp add: msg_fits_def ae new) (simp add: log_entry_def)
  from append_not_idempotent [OF NewRaft_ok new(2) ae(1,2) _ this new(3) r1(1)]
  show ?thesis using r1 by (auto simp: ae(3) new(1)) (auto simp: log_entry_def)
qed



text \<open>
  C22: an election succeeds, and it does not compare logs. When a node that does not lead campaigns and its
  requests reach peers that make a majority with it, none of them a leader or in a later term than the
  node had, every one of them grants its vote, whatever its own log and the candidate's log hold, and the candidate becomes
  the leader of the next term once the answers have arrived, in any order; its log is what it was. In
  particular a candidate that lacks committed entries wins.
\<close>

theorem election_ignores_logs:
  assumes "raft_ok r" and "state r \<noteq> StateLeader" and "currentTerm r < 2 ^ 63 - 1" and "2 \<le> clusterSize r"
    and "distinct qs" and "set qs \<subseteq> set (peers r)" and "ID r \<notin> set qs" and "clusterSize r \<le> 2 * int (length qs) + 1"
    and "\<forall>p \<in> set qs. raft_ok (fs p) \<and> state (fs p) \<noteq> StateLeader \<and> ID (fs p) = p \<and> currentTerm (fs p) \<le> currentTerm r"
  shows "\<exists>fs' r'. (\<forall>p \<in> set qs. vote_msg (campaign r) p \<in> set (msgs (campaign r))
       \<and> Step (fs p) (vote_msg (campaign r) p) = Inr (fs' p, None)
       \<and> msgs (fs' p) = msgs (fs p) @ [vote_grant (ID r) (currentTerm r + 1) p] \<and> raftlog (fs' p) = raftlog (fs p))
    \<and> sm_run (campaign r) (map (\<lambda>p. EStep (vote_grant (ID r) (currentTerm r + 1) p)) qs) = Some (Inr (r', []))
    \<and> state r' = StateLeader \<and> currentTerm r' = currentTerm r + 1 \<and> raftlog r' = raftlog r"
proof -
  let ?c = "candidate r" and ?t = "currentTerm r + 1"
  have cand: "raft_ok ?c" "currentTerm ?c = ?t" by (rule candidate_ok [OF assms(1,3)])+
  have c: "campaign r = ?c\<lparr>msgs := msgs r @ map (vote_msg ?c) (peers r)\<rparr>" using assms(4) by (simp add: campaign_eq)
  have vm: "vote_msg (campaign r) = vote_msg ?c" by (simp add: c vote_msg_def fun_eq_iff)
  have cf: "ID ?c = ID r" "clusterSize ?c = clusterSize r" "votes ?c = Some [(ID r, True)]" "state ?c = StateCandidate" "raftlog ?c = raftlog r"
    by (simp_all add: candidate_def)
  have "in_i64 ?t" using assms(1,3) by (simp add: in_i64_def raft_ok_def votes_ok_def)
  then have t: "i64 (int (i64_bits (currentTerm ?c))) = ?t" by (simp add: cand(2) i64_of_bits)
  have "\<exists>f'. Step (fs p) (vote_msg ?c p) = Inr (f', None) \<and> msgs f' = msgs (fs p) @ [vote_grant (ID r) ?t p] \<and> raftlog f' = raftlog (fs p)"
    if "p \<in> set qs" for p
    using vote_granted [of "fs p" "vote_msg ?c p"] assms(9) that t cf(1) by (fastforce simp: vote_msg_def)
  then obtain fs' where "\<forall>p \<in> set qs. Step (fs p) (vote_msg ?c p) = Inr (fs' p, None)
    \<and> msgs (fs' p) = msgs (fs p) @ [vote_grant (ID r) ?t p] \<and> raftlog (fs' p) = raftlog (fs p)" by metis
  moreover have "\<forall>p \<in> set qs. vote_msg (campaign r) p \<in> set (msgs (campaign r))" using assms(6) vm by (auto simp: c)
  moreover have "\<exists>r'. sm_run (campaign r) (map (\<lambda>p. EStep (vote_grant (ID r) (currentTerm (campaign r)) p)) qs) = Some (Inr (r', []))
    \<and> state r' = StateLeader \<and> raftlog r' = raftlog (campaign r) \<and> currentTerm r' = currentTerm (campaign r)"
    by (rule grants_run [where vs = "[(ID r, True)]"]) (use cand cf assms(4,5,7,8) in \<open>simp_all add: c quorum_def\<close>)
  ultimately show ?thesis using cand(2) cf(5) vm by (simp add: c) metis
qed

theorem election_ignores_logs_witness:
  "\<exists>r f f' r'. entries (raftlog r) = [] \<and> commitIndex (raftlog f) = 1 \<and> Step f (vote_msg (campaign r) 2) = Inr (f', None)
     \<and> msgs f' = [vote_grant 1 2 2] \<and> sm_run (campaign r) [EStep (vote_grant 1 2 2)] = Some (Inr (r', []))
     \<and> state r' = StateLeader \<and> entries (raftlog r') = []"
proof -
  let ?l = "\<lparr>entries = [log_entry 1 1 ''a''], commitIndex = 1, lastApplied = 0, stableIndex = 0\<rparr>"
  let ?r = "becomeFollower (NewRaft 1 [2, 3]) 1" and ?f = "(becomeFollower (NewRaft 2 [1, 3]) 1)\<lparr>raftlog := ?l\<rparr>"
  have ok: "raft_ok (becomeFollower (NewRaft i ps) 1)" for i ps by (rule becomeFollower_ok [OF NewRaft_ok]) (simp add: NewRaft_fields)
  have f: "raft_ok ?f"
    by (simp add: raft_ok_def role_ok_def votes_ok_def prog_ok_def prog_of_def NewRaft_def becomeFollower_def Let_def go_rem_def
        log_wf_def positions_def log_entry_def lastIndex_def)
  have r: "state ?r \<noteq> StateLeader" "currentTerm ?r < 2 ^ 63 - 1" "2 \<le> clusterSize ?r" "distinct [2 :: int]" "set [2] \<subseteq> set (peers ?r)"
    "ID ?r \<notin> set [2]" "clusterSize ?r \<le> 2 * int (length [2 :: int]) + 1" "entries (raftlog ?r) = []"
    by (simp_all add: NewRaft_fields newRaftLog_def)
  have fs: "\<forall>p \<in> set [2]. raft_ok ?f \<and> state ?f \<noteq> StateLeader \<and> ID ?f = p \<and> currentTerm ?f \<le> currentTerm ?r"
    using f by (simp add: NewRaft_fields)
  have vals: "msgs ?f = []" "ID ?r = 1" "currentTerm ?r + 1 = 2" "commitIndex (raftlog ?f) = 1"
    by (simp_all add: NewRaft_fields) (simp add: NewRaft_def becomeFollower_def Let_def)
  obtain fs' r' where e: "Step ?f (vote_msg (campaign ?r) 2) = Inr (fs' 2, None)"
    "msgs (fs' 2) = msgs ?f @ [vote_grant (ID ?r) (currentTerm ?r + 1) 2]" "state r' = StateLeader" "raftlog r' = raftlog ?r"
    "sm_run (campaign ?r) (map (\<lambda>p. EStep (vote_grant (ID ?r) (currentTerm ?r + 1) p)) [2]) = Some (Inr (r', []))"
    using election_ignores_logs [OF ok r(1-7) fs] by (metis list.set_intros(1))
  show ?thesis
    by (rule exI [of _ ?r], rule exI [of _ ?f], rule exI [of _ "fs' 2"], rule exI [of _ r'], intro conjI)
      (use e r(8) in \<open>simp_all only: vals append_Nil list.map\<close>)
qed

text \<open>
  C24: a restarted node has its entries in the write-ahead log and nothing of them in the state machine. Take
  any state that a node reaches after its first start, with entries whose fields fit the record format, and
  start a node on the file as it then is: its write-ahead log holds every entry that was persisted (without
  the request identifiers), but its state machine is a follower in term 0 with an empty log and commit index
  0, and it grants its vote to every candidate of a later term, also in a term in which it has
  voted for another one.
\<close>

theorem restart_forgets:
  assumes "NewRaftNode load [] dial listen = Inr n0" and "node_reach n0 n"
    and "\<forall>e \<in> set (entries (raftlog (nraft n))). entry_ok e"
    and "NewRaftNode (Inr config) (wfile (nwal n)) dial' listen' = Inr n'"
  shows "logs (nwal n') = map persisted (take (nat (stableIndex (raftlog (nraft n)))) (entries (raftlog (nraft n))))
    \<and> state (nraft n') = StateFollower \<and> currentTerm (nraft n') = 0 \<and> entries (raftlog (nraft n')) = []
    \<and> commitIndex (raftlog (nraft n')) = 0
    \<and> (\<forall>m v t. mType m = MSG_VOTE \<and> mVote m = Some v \<and> vTerm v = Some t \<and> 0 < i64 (int t) \<longrightarrow>
         (\<exists>r. Step (nraft n') m = Inr (r, None) \<and> msgs r = [vote_grant (CandidateId v) (i64 (int t)) (nID n')]))"
proof -
  let ?es = "logs (nwal n)"
  obtain lm0 where "NewLM [] = Inr lm0" "nwal n0 = lm0" using bootstrap_Inr [OF assms(1)] by metis
  then have "wfile (nwal n0) = encodeLog (logs (nwal n0))" by (auto simp: NewLM_empty)
  then have enc: "wfile (nwal n) = encodeLog ?es" by (rule node_reach_file [OF assms(2)])
  have "node_ok n" by (rule node_reach_ok [OF assms(2) bootstrap_ok [OF assms(1)]])
  then have wal: "?es = take (nat (stableIndex (raftlog (nraft n)))) (entries (raftlog (nraft n)))" by (simp add: node_ok_def)
  then have "\<forall>e \<in> set ?es. entry_ok e" using assms(3) by (auto dest: in_set_takeD)
  then have dec: "decodeLogs (wfile (nwal n)) = Inr (map persisted ?es)"
    using decodeLogs_encode [of ?es "[]"] by (simp add: enc)
  obtain lm where lm: "NewLM (wfile (nwal n)) = Inr lm" "nwal n' = lm"
    and raft: "nraft n' = NewRaft (ThisNodeID config) (map niID (filter (\<lambda>x. niID x \<noteq> ThisNodeID config) (cfgNodes config)))"
    and self: "nID n' = ThisNodeID config"
    using bootstrap_Inr [OF assms(4)] by (metis sum.inject(2))
  have new: "msgs (nraft n') = []" by (simp add: raft NewRaft_def becomeFollower_def Let_def)
  have "\<exists>r. Step (nraft n') m = Inr (r, None) \<and> msgs r = [vote_grant (CandidateId v) (i64 (int t)) (nID n')]"
    if "mType m = MSG_VOTE" "mVote m = Some v" "vTerm v = Some t" "0 < i64 (int t)" for m v t
    using vote_granted [of "nraft n'", OF _ _ that(1-3)] that(4) NewRaft_ok new by (auto simp: raft self NewRaft_fields)
  then show ?thesis
    using NewLM_logs [OF dec] lm wal raft by (auto simp: NewRaft_fields newRaftLog_def)
qed

theorem restart_forgets_witness:
  "\<exists>n0 n n'. NewRaftNode (Inr three_nodes) [] up up = Inr n0 \<and> node_reach n0 n
     \<and> NewRaftNode (Inr three_nodes) (wfile (nwal n)) up up = Inr n'
     \<and> entries (raftlog (nraft n)) = [log_entry 1 1 ''a''] \<and> logs (nwal n') = [persisted (log_entry 1 1 ''a'')]
     \<and> entries (raftlog (nraft n')) = []"
proof -
  obtain n0 where n0: "NewRaftNode (Inr three_nodes) [] up up = Inr n0" "nraft n0 = NewRaft 1 [2, 3]" "sent n0 = []"
    "members n0 = {2, 3}" "propc n0 = []" "applyc n0 = []" "tickc n0 = 0"
    "nwal n0 = \<lparr>logs = [], wfile = [], synced = 0, SyncThreshold = 10\<rparr>" by (rule three_nodes_up)
  obtain n1 n where n: "node_run n0 persist_run = Some n1" "iter_fits n1 ChReady" "run_iter n1 ChReady = Some (Inr n)"
    "entries (raftlog (nraft n)) = [log_entry 1 1 ''a'']" "stableIndex (raftlog (nraft n)) = 1"
    by (rule persist_run_eval [OF n0(2-8)])
  have reach: "node_reach n0 n"
    by (rule node_reach.more [OF node_run_reach [OF node_reach.here n(1)] node_step.loop [OF n(2,3)]])
  have ok: "\<forall>e \<in> set (entries (raftlog (nraft n))). entry_ok e"
    by (simp add: n(4) entry_ok_def log_entry_def in_i64_def cmd_key_def cmd_val_def cmd_op_def)
  have "wfile (nwal n) = encodeLog (logs (nwal n))" by (rule node_reach_file [OF reach]) (simp add: n0(8))
  moreover have "logs (nwal n) = [log_entry 1 1 ''a'']"
    using node_reach_ok [OF reach bootstrap_ok [OF n0(1)]] n(4,5) by (simp add: node_ok_def)
  ultimately obtain lm where "NewLM (wfile (nwal n)) = Inr lm"
    using decodeLogs_encode [of "logs (nwal n)" "[]"] NewLM_logs ok n(4) by (metis append_Nil2 bindr.simps(2) decodeLogs_Nil)
  then obtain n' where n': "NewRaftNode (Inr three_nodes) (wfile (nwal n)) up up = Inr n'"
    by (simp add: start_defs three_nodes_def up_def node_start_def Let_def)
  from restart_forgets [OF n0(1) reach ok n'] show ?thesis using n0(1) reach n' n(4,5) by auto
qed

end
