(* ===== verification/Wal_Replay.thy ===== *)
theory Wal_Replay
  imports Tree_Map Wal_Log
begin

text \<open>
  The metadata file of \<^verbatim>\<open>btree.go\<close> and the replay of the write-ahead log into the tree at start,
  \<^verbatim>\<open>replay.go\<close>. The replay reads the log through the storage interface and puts entries through
  the map interface of the tree.
\<close>

section \<open>Replay\<close>

text \<open>The loop over the entries: the tree and the number of entries applied.\<close>

fun replay_loop :: "'a btree_scheme \<Rightarrow> int \<Rightarrow> log list \<Rightarrow> int \<Rightarrow> ('a btree_scheme \<times> int) res option" where
  "replay_loop b lastCommit [] n = Some (Inr (b, n))"
| "replay_loop b lastCommit (e # es) n =
     (if Id e > lastCommit then Some (Inr (b, n))
      else
        (case Data e of
           None \<Rightarrow> replay_loop b lastCommit es n
         | Some d \<Rightarrow>
             if Op d = ''PUT'' then
               (case put b (Key d) (Val d) of
                  None \<Rightarrow> None
                | Some (Inl f) \<Rightarrow> Some (Inl f)
                | Some (Inr b1) \<Rightarrow> replay_loop b1 lastCommit es (n + 1))
             else replay_loop b lastCommit es n))"

definition ReplayWAL :: "'a btree_scheme \<Rightarrow> logManager \<Rightarrow> 'a btree_scheme res option" where
  "ReplayWAL b lm =
     (case readMeta b of
        Inl e \<Rightarrow> Some (Inl e)
      | Inr (commit, applied) \<Rightarrow>
          if applied \<ge> commit then Some (Inr b)
          else
            (case replay_loop b commit (GetLogsAfter lm (i64 (applied + 1))) 0 of
               None \<Rightarrow> None
             | Some (Inl f) \<Rightarrow> Some (Inl f)
             | Some (Inr (b1, n)) \<Rightarrow>
                 Some (Inr (if n > 0 then updateMeta b1 (i64 (applied + n)) commit else b1))))"

section \<open>The metadata file\<close>

lemma write_at_0: "write_at f 0 bs = bs @ drop (length bs) f"
  by (simp add: write_at_def Let_def)

lemma readMeta_updateMeta:
  assumes "in_i64 applied" and "in_i64 commit"
  shows "readMeta (updateMeta b applied commit) = Inr (commit, applied)"
  using assms by (simp add: readMeta_def updateMeta_def write_at_0 read_put_i64)

lemma updateMeta_tree:
  "contents (updateMeta b x y) = contents b" "tree_inv base (updateMeta b x y) = tree_inv base b"
  "covers (updateMeta b x y) = covers b" "disk (updateMeta b x y) = disk b"
proof -
  have root: "root_node (updateMeta b x y) = root_node b" and fetch: "cache_fetch (updateMeta b x y) = cache_fetch b"
    and flds: "heap (updateMeta b x y) = heap b" "root (updateMeta b x y) = root b"
      "nextFreeOffset (updateMeta b x y) = nextFreeOffset b"
    by (simp_all add: updateMeta_def root_node_def cache_fetch_def fun_eq_iff)
  have "page (updateMeta b x y) = page b" by (simp add: fun_eq_iff page_def fetch flds)
  then show "contents (updateMeta b x y) = contents b"
    by (simp add: contents_def tree_pairs_def root)
  have kid: "kid_ok (updateMeta b x y) r m lo hi fo = kid_ok b r m lo hi fo" for r m lo hi fo
    by (simp add: kid_ok_def fetch flds)
  have "kids_ok (updateMeta b x y) r m cs hi = kids_ok b r m cs hi" for r m cs hi
    by (induction cs) (auto simp: kid)
  then show "tree_inv base (updateMeta b x y) = tree_inv base b"
    by (simp add: tree_inv_def leaf_root_inv_def int_root_inv_def fetch flds)
  show "covers (updateMeta b x y) = covers b" by (simp add: fun_eq_iff covers_def root)
  show "disk (updateMeta b x y) = disk b" by (simp add: updateMeta_def)
qed

section \<open>What the replay does\<close>

definition put_of :: "log \<Rightarrow> bytes \<times> bytes" where
  "put_of e = (case Data e of None \<Rightarrow> ([], []) | Some d \<Rightarrow> (Key d, Val d))"

definition is_put :: "log \<Rightarrow> bool" where
  "is_put e \<longleftrightarrow> (\<exists>d. Data e = Some d \<and> Op d = ''PUT'')"

lemma replay_loop_puts:
  fixes b :: "'a btree_scheme"
  assumes "\<forall>e \<in> set es. is_put e \<and> Id e \<le> c"
  shows "replay_loop b c (es @ rest) n = (case runs put b (map put_of es) of
      None \<Rightarrow> None | Some (Inl f) \<Rightarrow> Some (Inl f) | Some (Inr b1) \<Rightarrow> replay_loop b1 c rest (n + int (length es)))"
  using assms
proof (induction es arbitrary: b n)
  case (Cons e es)
  then obtain d where d: "Data e = Some d" "Op d = ''PUT''" "Id e \<le> c" by (auto simp: is_put_def)
  have IH: "replay_loop b c (es @ rest) n = (case runs put b (map put_of es) of
      None \<Rightarrow> None | Some (Inl f) \<Rightarrow> Some (Inl f) | Some (Inr b1) \<Rightarrow> replay_loop b1 c rest (n + int (length es)))" for b :: "'a btree_scheme" and n
    using Cons.IH Cons.prems by simp
  have "put_of e = (Key d, Val d)" using d by (simp add: put_of_def)
  then show ?case using d by (simp add: IH add.assoc split: option.split sum.split)
qed simp

lemma replay_loop_stop: "\<forall>e \<in> set rest. Id e > c \<Longrightarrow> replay_loop b c rest n = Some (Inr (b, n))"
  by (cases rest) simp_all

text \<open>The entries between two indices of a log that carries its positions.\<close>

lemma range_ids:
  assumes "positions ls" and "0 \<le> a" and "a \<le> c" and "c \<le> int (length ls)"
  defines "es \<equiv> take (nat (c - a)) (drop (nat a) ls)" and "rest \<equiv> drop (nat c) ls"
  shows "drop (nat a) ls = es @ rest" and "\<forall>e \<in> set es. Id e \<le> c" and "\<forall>e \<in> set rest. Id e > c"
    and "length es = nat (c - a)"
proof -
  have n: "nat c = nat a + nat (c - a)" using assms(2,3) by simp
  show "drop (nat a) ls = es @ rest"
    unfolding es_def rest_def n
    using append_take_drop_id [of "nat (c - a)" "drop (nat a) ls"] by (simp add: add.commute)
  show "length es = nat (c - a)" using assms(2-4) by (simp add: es_def nat_diff_distrib)
  show "\<forall>e \<in> set es. Id e \<le> c"
    using assms(1-4) by (auto simp: es_def in_set_conv_nth positions_def)
  show "\<forall>e \<in> set rest. Id e > c"
    using assms(1-4) by (auto simp: rest_def in_set_conv_nth positions_def)
qed

lemma ReplayWAL_puts:
  fixes b :: "'a btree_scheme" and lm :: logManager
  assumes meta: "readMeta b = Inr (c, a)" and bounds: "0 \<le> a" "a < c" "c \<le> int (length (logs lm))" "in_i64 c"
    and pos: "positions (logs lm)"
  defines "es \<equiv> take (nat (c - a)) (drop (nat a) (logs lm))"
  assumes puts: "\<forall>e \<in> set es. is_put e" and inv: "tree_inv base b"
    and adm: "tree_store.admissible b (map put_of es)" and few: "leaves b + nat (c - a) \<le> maxInternalNodeCells"
  shows "\<exists>b'. ReplayWAL b lm = Some (Inr b') \<and> tree_inv base b'
    \<and> contents b' = contents b ++ map_of (rev (map put_of es)) \<and> readMeta b' = Inr (c, c)"
proof -
  note R = range_ids [OF pos bounds(1) less_imp_le [OF bounds(2)] bounds(3), folded es_def]
  have "in_i64 a" "in_i64 (a + 1)" using bounds by (simp_all add: in_i64_def)
  then have "GetLogsAfter lm (i64 (a + 1)) = drop (nat a) (logs lm)"
    using wal.after_all [of "a + 1" lm] by (simp add: GetLogs_def i64_id)
  then have after: "GetLogsAfter lm (i64 (a + 1)) = es @ drop (nat c) (logs lm)" using R(1) by simp
  have "leaves b + length (map put_of es) \<le> maxInternalNodeCells" using few R(4) by simp
  then obtain b1 where b1: "runs put b (map put_of es) = Some (Inr b1)" "tree_store.good base b b1 (map put_of es)"
    using tree_store.runs_short [OF inv adm] by blast
  have n: "0 + int (length es) = c - a" using R(4) bounds by simp
  have "\<forall>e \<in> set es. is_put e \<and> Id e \<le> c" using puts R(2) by blast
  from replay_loop_puts [OF this, of b "drop (nat c) (logs lm)" 0]
  have "replay_loop b c (GetLogsAfter lm (i64 (a + 1))) 0 = Some (Inr (b1, c - a))"
    using b1(1) replay_loop_stop [OF R(3)] n by (simp add: after)
  moreover have "i64 (a + (c - a)) = c" using bounds by (simp add: i64_id)
  ultimately have "ReplayWAL b lm = Some (Inr (updateMeta b1 c c))"
    using meta bounds(2) by (simp add: ReplayWAL_def)
  then show ?thesis
    using b1(2) readMeta_updateMeta [OF bounds(4,4)]
    by (simp add: tree_store.good_def updateMeta_tree)
qed

section \<open>Properties\<close>

text \<open>
  The metadata survives: what \<^verbatim>\<open>updateMeta\<close> writes is what \<^verbatim>\<open>readMeta\<close> reads, whatever the file
  held before, and the tree itself is not touched.
\<close>

theorem meta_roundtrip:
  assumes "in_i64 applied" and "in_i64 commit"
  shows "readMeta (updateMeta b applied commit) = Inr (commit, applied)
    \<and> contents (updateMeta b applied commit) = contents b"
  using readMeta_updateMeta [OF assms] by (simp add: updateMeta_tree)

theorem meta_roundtrip_witness:
  "\<exists>b. NewBTreeWithPath [] ''some old metadata bytes'' = Inr b \<and> readMeta (updateMeta b 7 9) = Inr (9, 7)"
proof -
  obtain b where b: "NewBTreeWithPath [] ''some old metadata bytes'' = Inr b"
    by (rule open_empty [of "[]"]) (simp_all add: new_file)
  show ?thesis using meta_roundtrip [of 7 9 b] b by (simp add: in_i64_def)
qed



end
