(* ===== verification/Waiters.thy ===== *)
theory Waiters
  imports Go_Base "HOL-Library.AList"
begin

text \<open>
  The two tables a client blocks on: \<^verbatim>\<open>wait.go\<close> for writes, by request identifier, and
  \<^verbatim>\<open>wait_time.go\<close> for reads, by commit index. A channel is a number; receiving from it returns
  as soon as it is closed. Both tables meet one contract, the locale \<open>wake_table\<close>.
\<close>

section \<open>Channels\<close>

record chan_heap =
  fresh :: nat
  closed :: "nat set"

definition make_chan :: "chan_heap \<Rightarrow> nat \<times> chan_heap" where
  "make_chan h = (fresh h, h\<lparr>fresh := fresh h + 1\<rparr>)"

definition close_chan :: "chan_heap \<Rightarrow> nat \<Rightarrow> chan_heap res" where
  "close_chan h c = (if c \<in> closed h then Inl (PanicMsg ''close of closed channel'')
     else Inr (h\<lparr>closed := insert c (closed h)\<rparr>))"

definition heap_ok :: "chan_heap \<Rightarrow> bool" where
  "heap_ok h \<longleftrightarrow> (\<forall>c \<in> closed h. c < fresh h)"

section \<open>Write waiters\<close>

record waiter =
  wheap :: chan_heap
  chans :: "nat \<rightharpoonup> nat"

definition newWaiter :: waiter where
  "newWaiter = \<lparr>wheap = \<lparr>fresh = 0, closed = {}\<rparr>, chans = Map.empty\<rparr>"

definition waiter_Trigger :: "waiter \<Rightarrow> nat \<Rightarrow> waiter res" where
  "waiter_Trigger w i =
     (case chans w i of
        None \<Rightarrow> Inr w
      | Some ch \<Rightarrow> bindr (close_chan (wheap w) ch) (\<lambda>h. Inr (w\<lparr>wheap := h, chans := (chans w)(i := None)\<rparr>)))"

definition waiter_Register :: "waiter \<Rightarrow> nat \<Rightarrow> nat \<times> waiter" where
  "waiter_Register w i =
     (case chans w i of
        Some ch \<Rightarrow> (ch, w)
      | None \<Rightarrow> let (ch, h) = make_chan (wheap w) in (ch, w\<lparr>wheap := h, chans := (chans w)(i \<mapsto> ch)\<rparr>))"

section \<open>Read waiters\<close>

text \<open>Channel 0 is \<^verbatim>\<open>closec\<close>, closed when the program starts.\<close>

record waitTime =
  theap :: chan_heap
  lastTriggered :: int
  tmap :: "(int \<times> nat) list"

definition closec :: nat where "closec = 0"

definition newWaitTime :: waitTime where
  "newWaitTime = \<lparr>theap = \<lparr>fresh = 1, closed = {closec}\<rparr>, lastTriggered = 0, tmap = []\<rparr>"

definition wt_Wait :: "waitTime \<Rightarrow> int \<Rightarrow> nat \<times> waitTime" where
  "wt_Wait w deadline =
     (if deadline \<le> lastTriggered w then (closec, w)
      else (case map_of (tmap w) deadline of
              Some ch \<Rightarrow> (ch, w)
            | None \<Rightarrow>
                let (ch, h) = make_chan (theap w)
                in (ch, w\<lparr>theap := h, tmap := AList.update deadline ch (tmap w)\<rparr>)))"

text \<open>The loop over the map as it was when the loop began; closed waiters are deleted from it.\<close>

fun wt_wake :: "waitTime \<Rightarrow> int \<Rightarrow> (int \<times> nat) list \<Rightarrow> waitTime res" where
  "wt_wake w t [] = Inr w"
| "wt_wake w t ((d, ch) # rest) =
     (if d \<le> t
      then bindr (close_chan (theap w) ch) (\<lambda>h. wt_wake (w\<lparr>theap := h, tmap := AList.delete d (tmap w)\<rparr>) t rest)
      else wt_wake w t rest)"

definition wt_Trigger :: "waitTime \<Rightarrow> int \<Rightarrow> waitTime res" where
  "wt_Trigger w t = (let w1 = w\<lparr>lastTriggered := t\<rparr> in wt_wake w1 t (tmap w1))"

section \<open>The contract\<close>

text \<open>
  \<open>waits s c k\<close>: the channel \<open>c\<close> has been handed out for \<open>k\<close> and not been woken. An operation
  either wakes it or leaves it waiting, and never fails.
\<close>

fun execs :: "('op \<Rightarrow> 's \<Rightarrow> 's res) \<Rightarrow> 's \<Rightarrow> 'op list \<Rightarrow> 's res" where
  "execs exec s [] = Inr s"
| "execs exec s (a # as) = bindr (exec a s) (\<lambda>s'. execs exec s' as)"

locale wake_table =
  fixes inv :: "'s \<Rightarrow> bool" and exec :: "'op \<Rightarrow> 's \<Rightarrow> 's res" and is_closed :: "'s \<Rightarrow> nat \<Rightarrow> bool"
    and waits :: "'s \<Rightarrow> nat \<Rightarrow> 'k \<Rightarrow> bool" and wakes :: "'op \<Rightarrow> 'k \<Rightarrow> bool"
  assumes exec_total: "inv s \<Longrightarrow> \<exists>s'. exec a s = Inr s' \<and> inv s'"
    and exec_waits: "inv s \<Longrightarrow> waits s c k \<Longrightarrow> exec a s = Inr s' \<Longrightarrow>
      (if wakes a k then is_closed s' c else waits s' c k)"
    and closed_stays: "inv s \<Longrightarrow> is_closed s c \<Longrightarrow> exec a s = Inr s' \<Longrightarrow> is_closed s' c"
    and waits_open: "inv s \<Longrightarrow> waits s c k \<Longrightarrow> \<not> is_closed s c"
begin

lemma execs_total: "inv s \<Longrightarrow> \<exists>s'. execs exec s as = Inr s' \<and> inv s'"
proof (induction as arbitrary: s)
  case (Cons a as)
  then obtain s1 where "exec a s = Inr s1" "inv s1" using exec_total by blast
  with Cons.IH show ?case by simp
qed simp

lemma execs_closed: "inv s \<Longrightarrow> is_closed s c \<Longrightarrow> execs exec s as = Inr s' \<Longrightarrow> is_closed s' c"
proof (induction as arbitrary: s)
  case (Cons a as)
  then obtain s1 where s1: "exec a s = Inr s1" "inv s1" using exec_total by blast
  with Cons.prems closed_stays have "is_closed s1 c" by blast
  with Cons s1 show ?case by simp
qed simp

lemma woken_iff:
  "inv s \<Longrightarrow> waits s c k \<Longrightarrow> execs exec s as = Inr s' \<Longrightarrow> is_closed s' c \<longleftrightarrow> (\<exists>a \<in> set as. wakes a k)"
proof (induction as arbitrary: s)
  case Nil
  then show ?case using waits_open by auto
next
  case (Cons a as)
  then obtain s1 where s1: "exec a s = Inr s1" "inv s1" using exec_total by blast
  with Cons.prems(3) have run: "execs exec s1 as = Inr s'" by simp
  show ?case
  proof (cases "wakes a k")
    case True
    then have "is_closed s1 c" using exec_waits [OF Cons.prems(1,2) s1(1)] by simp
    then show ?thesis using execs_closed [OF s1(2) _ run] True by auto
  next
    case False
    then have "waits s1 c k" using exec_waits [OF Cons.prems(1,2) s1(1)] by simp
    then show ?thesis using Cons.IH [OF s1(2) _ run] False by auto
  qed
qed

lemma execs_waits:
  "inv s \<Longrightarrow> waits s c k \<Longrightarrow> execs exec s as = Inr s' \<Longrightarrow> \<not> is_closed s' c \<Longrightarrow> waits s' c k"
proof (induction as arbitrary: s)
  case (Cons a as)
  then obtain s1 where s1: "exec a s = Inr s1" "inv s1" using exec_total by blast
  have run: "execs exec s1 as = Inr s'" using Cons.prems(3) s1(1) by simp
  have "\<not> is_closed s1 c" using execs_closed [OF s1(2) _ run] Cons.prems(4) by blast
  then have "waits s1 c k" using exec_waits [OF Cons.prems(1,2) s1(1)] by (simp split: if_splits)
  then show ?case using Cons.IH [OF s1(2) _ run] Cons.prems(4) by blast
qed simp

end

section \<open>Write waiters meet it\<close>

datatype wait_op = WRegister nat | WTrigger nat

fun wait_exec :: "wait_op \<Rightarrow> waiter \<Rightarrow> waiter res" where
  "wait_exec (WRegister i) w = Inr (snd (waiter_Register w i))"
| "wait_exec (WTrigger i) w = waiter_Trigger w i"

definition waiter_ok :: "waiter \<Rightarrow> bool" where
  "waiter_ok w \<longleftrightarrow> heap_ok (wheap w) \<and> inj_on (chans w) (dom (chans w))
     \<and> (\<forall>c \<in> ran (chans w). c < fresh (wheap w) \<and> c \<notin> closed (wheap w))"

lemma waiter_ok_new: "waiter_ok newWaiter"
  by (simp add: waiter_ok_def newWaiter_def heap_ok_def)

lemma Register_ok:
  assumes "waiter_ok w"
  shows "waiter_ok (snd (waiter_Register w i))" and "chans (snd (waiter_Register w i)) i = Some (fst (waiter_Register w i))"
    and "closed (wheap (snd (waiter_Register w i))) = closed (wheap w)"
    and "j \<noteq> i \<Longrightarrow> chans (snd (waiter_Register w i)) j = chans w j"
proof -
  have ran: "c < fresh (wheap w) \<and> c \<notin> closed (wheap w)" if "chans w j = Some c" for j c
    using assms that by (auto simp: waiter_ok_def ran_def)
  show "waiter_ok (snd (waiter_Register w i))"
  proof (cases "chans w i")
    case None
    let ?n = "fresh (wheap w)"
    let ?w = "w\<lparr>wheap := (wheap w)\<lparr>fresh := ?n + 1\<rparr>, chans := (chans w)(i \<mapsto> ?n)\<rparr>"
    have eq: "snd (waiter_Register w i) = ?w" using None by (simp add: waiter_Register_def make_chan_def)
    have new: "?n \<notin> closed (wheap w)" using assms by (auto simp: waiter_ok_def heap_ok_def)
    have diff: "c \<noteq> ?n" if "chans w j = Some c" for j c using ran [OF that] by simp
    have "inj_on (chans ?w) (dom (chans ?w))"
    proof (rule inj_onI)
      fix x y assume xy: "x \<in> dom (chans ?w)" "y \<in> dom (chans ?w)" "chans ?w x = chans ?w y"
      show "x = y"
      proof (cases "x = i \<or> y = i")
        case True
        then show ?thesis using xy by (auto split: if_splits dest: diff)
      next
        case False
        then show ?thesis using xy assms by (auto simp: waiter_ok_def inj_on_def dom_def)
      qed
    qed
    moreover have "c < fresh (wheap ?w) \<and> c \<notin> closed (wheap ?w)" if "chans ?w j = Some c" for j c
      using that ran [of j c] new by (auto split: if_splits)
    moreover have "heap_ok (wheap ?w)" using assms by (auto simp: waiter_ok_def heap_ok_def)
    ultimately show ?thesis unfolding eq waiter_ok_def ran_def by blast
  qed (use assms in \<open>simp add: waiter_Register_def\<close>)
qed (auto simp: waiter_Register_def make_chan_def split: option.splits)

lemma Trigger_ok:
  assumes "waiter_ok w"
  shows "\<exists>w'. waiter_Trigger w i = Inr w' \<and> waiter_ok w' \<and> chans w' = (chans w)(i := None)
    \<and> closed (wheap w') = closed (wheap w) \<union> set_option (chans w i)"
proof (cases "chans w i")
  case None
  then have "(chans w)(i := None) = chans w" by auto
  with None assms show ?thesis by (simp add: waiter_Trigger_def)
next
  case (Some c)
  have open': "c < fresh (wheap w) \<and> c \<notin> closed (wheap w)" using assms Some by (auto simp: waiter_ok_def ran_def)
  have other: "c' \<noteq> c" if "chans w j = Some c'" "j \<noteq> i" for j c'
    using assms that Some unfolding waiter_ok_def inj_on_def by (metis domI)
  let ?w = "w\<lparr>wheap := (wheap w)\<lparr>closed := insert c (closed (wheap w))\<rparr>, chans := (chans w)(i := None)\<rparr>"
  have "inj_on ((chans w)(i := None)) (dom ((chans w)(i := None)))"
    using assms by (auto simp: waiter_ok_def inj_on_def)
  then have "waiter_ok ?w"
    using assms open' other by (auto simp: waiter_ok_def heap_ok_def ran_def split: if_splits)
  then show ?thesis using Some open' by (simp add: waiter_Trigger_def close_chan_def)
qed

interpretation write_waits: wake_table waiter_ok wait_exec "\<lambda>w c. c \<in> closed (wheap w)"
  "\<lambda>w c i. chans w i = Some c" "\<lambda>a i. a = WTrigger i"
proof
  fix s :: waiter and a c k s'
  assume inv: "waiter_ok s"
  show "\<exists>s'. wait_exec a s = Inr s' \<and> waiter_ok s'"
  proof (cases a)
    case (WTrigger i)
    then show ?thesis using Trigger_ok [OF inv, of i] by auto
  qed (simp add: Register_ok(1) [OF inv])
  show "chans s k = Some c \<Longrightarrow> c \<notin> closed (wheap s)" using inv by (auto simp: waiter_ok_def ran_def)
  {
    assume "chans s k = Some c" "wait_exec a s = Inr s'"
    then show "if a = WTrigger k then c \<in> closed (wheap s') else chans s' k = Some c"
    proof (cases a)
      case (WRegister i)
      with \<open>wait_exec a s = Inr s'\<close> have "s' = snd (waiter_Register s i)" by simp
      moreover have "fst (waiter_Register s k) = c"
        using \<open>chans s k = Some c\<close> by (simp add: waiter_Register_def)
      ultimately show ?thesis
        using WRegister Register_ok(2,4) [OF inv, of k] Register_ok(4) [OF inv, of k i] \<open>chans s k = Some c\<close>
        by (cases "k = i") auto
    next
      case (WTrigger i)
      then show ?thesis
        using Trigger_ok [OF inv, of i] \<open>chans s k = Some c\<close> \<open>wait_exec a s = Inr s'\<close> by auto
    qed
  next
    assume "c \<in> closed (wheap s)" "wait_exec a s = Inr s'"
    then show "c \<in> closed (wheap s')"
    proof (cases a)
      case (WRegister i)
      then show ?thesis using Register_ok(3) [OF inv, of i] \<open>c \<in> closed (wheap s)\<close> \<open>wait_exec a s = Inr s'\<close> by auto
    next
      case (WTrigger i)
      then show ?thesis using Trigger_ok [OF inv, of i] \<open>c \<in> closed (wheap s)\<close> \<open>wait_exec a s = Inr s'\<close> by auto
    qed
  }
qed

section \<open>Read waiters meet it\<close>

datatype wt_op = TWait int | TTrigger int

fun wt_exec :: "wt_op \<Rightarrow> waitTime \<Rightarrow> waitTime res" where
  "wt_exec (TWait d) w = Inr (snd (wt_Wait w d))"
| "wt_exec (TTrigger t) w = wt_Trigger w t"

definition wt_ok :: "waitTime \<Rightarrow> bool" where
  "wt_ok w \<longleftrightarrow> heap_ok (theap w) \<and> closec \<in> closed (theap w) \<and> distinct (map fst (tmap w))
     \<and> distinct (map snd (tmap w)) \<and> (\<forall>c \<in> snd ` set (tmap w). c < fresh (theap w) \<and> c \<notin> closed (theap w))"

lemma wt_ok_new: "wt_ok newWaitTime"
  by (simp add: wt_ok_def newWaitTime_def heap_ok_def closec_def)

lemma wt_wake_eq:
  assumes "distinct (map snd xs)" and "\<forall>c \<in> snd ` set xs. c \<notin> closed (theap w)"
  shows "wt_wake w t xs = Inr (w\<lparr>theap := (theap w)\<lparr>closed := closed (theap w) \<union> snd ` {x \<in> set xs. fst x \<le> t}\<rparr>,
    tmap := filter (\<lambda>(d, c). d \<notin> fst ` {x \<in> set xs. fst x \<le> t}) (tmap w)\<rparr>)"
  using assms
proof (induction xs arbitrary: w)
  case Nil
  then show ?case by simp
next
  case (Cons x xs)
  obtain d c where x: "x = (d, c)" by (cases x)
  show ?case
  proof (cases "d \<le> t")
    case False
    then have "{y \<in> set (x # xs). fst y \<le> t} = {y \<in> set xs. fst y \<le> t}" by (auto simp: x)
    with False Cons show ?thesis by (simp add: x)
  next
    case True
    define w1 where "w1 = w\<lparr>theap := (theap w)\<lparr>closed := insert c (closed (theap w))\<rparr>, tmap := AList.delete d (tmap w)\<rparr>"
    have close: "close_chan (theap w) c = Inr (theap w1)"
      using Cons.prems(2) by (simp add: close_chan_def w1_def x)
    have eq: "{y \<in> set (x # xs). fst y \<le> t} = insert (d, c) {y \<in> set xs. fst y \<le> t}" using True by (auto simp: x)
    have "wt_wake w t (x # xs) = wt_wake w1 t xs" using True close by (simp add: x w1_def)
    also have "\<dots> = Inr (w1\<lparr>theap := (theap w1)\<lparr>closed := closed (theap w1) \<union> snd ` {x \<in> set xs. fst x \<le> t}\<rparr>,
        tmap := filter (\<lambda>(d, c). d \<notin> fst ` {x \<in> set xs. fst x \<le> t}) (tmap w1)\<rparr>)"
      using Cons.prems by (intro Cons.IH) (auto simp: x w1_def)
    also have "filter (\<lambda>(d, c). d \<notin> fst ` {x \<in> set xs. fst x \<le> t}) (tmap w1)
        = filter (\<lambda>(e, c). e \<notin> fst ` {y \<in> set (x # xs). fst y \<le> t}) (tmap w)"
      unfolding eq w1_def by (auto simp: AList.delete_eq intro!: filter_cong)
    also have "closed (theap w1) \<union> snd ` {x \<in> set xs. fst x \<le> t}
        = closed (theap w) \<union> snd ` {y \<in> set (x # xs). fst y \<le> t}"
      unfolding eq w1_def by auto
    finally show ?thesis by (simp add: w1_def)
  qed
qed

lemma wt_Trigger_eq:
  assumes "wt_ok w"
  shows "wt_Trigger w t = Inr (w\<lparr>lastTriggered := t,
    theap := (theap w)\<lparr>closed := closed (theap w) \<union> snd ` {x \<in> set (tmap w). fst x \<le> t}\<rparr>,
    tmap := filter (\<lambda>(d, c). \<not> d \<le> t) (tmap w)\<rparr>)"
proof -
  have "filter (\<lambda>(d, c). d \<notin> fst ` {x \<in> set (tmap w). fst x \<le> t}) (tmap w) = filter (\<lambda>(d, c). \<not> d \<le> t) (tmap w)"
    by (rule filter_cong) force+
  then show ?thesis
    using assms wt_wake_eq [of "tmap w" "w\<lparr>lastTriggered := t\<rparr>" t] by (simp add: wt_ok_def wt_Trigger_def Let_def)
qed

lemma wt_Trigger_ok:
  assumes "wt_ok w"
  shows "\<exists>w'. wt_Trigger w t = Inr w' \<and> wt_ok w'"
proof -
  have inj: "c \<noteq> c'" if "(d, c) \<in> set (tmap w)" "(d', c') \<in> set (tmap w)" "d \<noteq> d'" for d d' c c'
    using assms that unfolding wt_ok_def distinct_map by (metis inj_onD prod.inject snd_conv)
  have "distinct (map fst (filter (\<lambda>(d, c). \<not> d \<le> t) (tmap w)))" "distinct (map snd (filter (\<lambda>(d, c). \<not> d \<le> t) (tmap w)))"
    using assms by (simp_all add: wt_ok_def distinct_map_filter)
  moreover have "c \<notin> snd ` {x \<in> set (tmap w). fst x \<le> t}" if "(d, c) \<in> set (tmap w)" "\<not> d \<le> t" for d c
    using inj [OF that(1)] that(2) by force
  ultimately show ?thesis
    using assms unfolding wt_Trigger_eq [OF assms] by (auto simp: wt_ok_def heap_ok_def)
qed

lemma update_fresh: "k \<notin> fst ` set xs \<Longrightarrow> AList.update k v xs = xs @ [(k, v)]"
  by (induction xs) auto

lemma wt_Wait_ok:
  assumes "wt_ok w"
  shows "wt_ok (snd (wt_Wait w d))" and "closed (theap (snd (wt_Wait w d))) = closed (theap w)"
    and "map_of (tmap w) d' = Some c \<Longrightarrow> map_of (tmap (snd (wt_Wait w d))) d' = Some c"
    and "lastTriggered (snd (wt_Wait w d)) = lastTriggered w"
    and "lastTriggered w < d \<Longrightarrow> map_of (tmap (snd (wt_Wait w d))) d = Some (fst (wt_Wait w d))"
proof -
  have new: "fresh (theap w) \<notin> closed (theap w)" "fresh (theap w) \<notin> snd ` set (tmap w)"
    using assms by (auto simp: wt_ok_def heap_ok_def)
  have upd: "AList.update d (fresh (theap w)) (tmap w) = tmap w @ [(d, fresh (theap w))]"
    if "map_of (tmap w) d = None"
    using that by (simp add: update_fresh map_of_eq_None_iff)
  show "wt_ok (snd (wt_Wait w d))"
    using assms new upd
    by (auto simp: wt_Wait_def make_chan_def wt_ok_def heap_ok_def map_of_eq_None_iff split: option.splits)
qed (auto simp: wt_Wait_def make_chan_def update_conv' split: option.splits)

interpretation read_waits: wake_table wt_ok wt_exec "\<lambda>w c. c \<in> closed (theap w)"
  "\<lambda>w c d. map_of (tmap w) d = Some c" "\<lambda>a d. \<exists>t. a = TTrigger t \<and> d \<le> t"
proof
  fix s :: waitTime and a c k s'
  assume inv: "wt_ok s"
  show "\<exists>s'. wt_exec a s = Inr s' \<and> wt_ok s'"
  proof (cases a)
    case (TTrigger t)
    then show ?thesis using wt_Trigger_ok [OF inv, of t] by auto
  qed (simp add: wt_Wait_ok(1) [OF inv])
  show "map_of (tmap s) k = Some c \<Longrightarrow> c \<notin> closed (theap s)"
    using inv by (force simp: wt_ok_def dest: map_of_SomeD)
  {
    assume w: "map_of (tmap s) k = Some c" and e: "wt_exec a s = Inr s'"
    show "if \<exists>t. a = TTrigger t \<and> k \<le> t then c \<in> closed (theap s') else map_of (tmap s') k = Some c"
    proof (cases a)
      case (TWait d)
      then show ?thesis using wt_Wait_ok(3) [OF inv w, of d] e by auto
    next
      case (TTrigger t)
      then have s': "s' = s\<lparr>lastTriggered := t,
        theap := (theap s)\<lparr>closed := closed (theap s) \<union> snd ` {x \<in> set (tmap s). fst x \<le> t}\<rparr>,
        tmap := filter (\<lambda>(d, c). \<not> d \<le> t) (tmap s)\<rparr>"
        using wt_Trigger_eq [OF inv, of t] e by simp
      have "(k, c) \<in> set (tmap s)" using w by (rule map_of_SomeD)
      moreover have "map_of (filter (\<lambda>(d, c). \<not> d \<le> t) (tmap s)) k = Some c" if "\<not> k \<le> t"
        using that calculation inv by (intro map_of_is_SomeI) (auto simp: wt_ok_def distinct_map_filter)
      ultimately show ?thesis using TTrigger s' by force
    qed
  next
    assume "c \<in> closed (theap s)" "wt_exec a s = Inr s'"
    then show "c \<in> closed (theap s')"
      using wt_Wait_ok(2) [OF inv] wt_Trigger_eq [OF inv] by (cases a) auto
  }
qed

section \<open>Properties\<close>

text \<open>
  C31: a write waiter wakes for its own request and for nothing else. After \<^verbatim>\<open>Register(id)\<close>, no
  sequence of further registrations and triggers panics, and the channel is closed at its end
  exactly when the sequence triggered \<^verbatim>\<open>id\<close>.
\<close>

theorem write_wait_correct:
  assumes "waiter_ok w"
  shows "\<exists>w'. execs wait_exec (snd (waiter_Register w i)) ops = Inr w' \<and> waiter_ok w'
    \<and> (fst (waiter_Register w i) \<in> closed (wheap w') \<longleftrightarrow> WTrigger i \<in> set ops)"
proof -
  note R = Register_ok [OF assms, of i]
  obtain w' where w': "execs wait_exec (snd (waiter_Register w i)) ops = Inr w'" "waiter_ok w'"
    using write_waits.execs_total [OF R(1)] by blast
  then show ?thesis using write_waits.woken_iff [OF R(1,2) w'(1)] by blast
qed

theorem write_wait_correct_witness:
  "\<exists>w'. execs wait_exec (snd (waiter_Register newWaiter 5)) [WRegister 6, WTrigger 6, WTrigger 5] = Inr w'
     \<and> fst (waiter_Register newWaiter 5) \<in> closed (wheap w')"
  using write_wait_correct [OF waiter_ok_new, of 5 "[WRegister 6, WTrigger 6, WTrigger 5]"] by fastforce

text \<open>
  C32: a read waiter wakes when its index is reached. \<^verbatim>\<open>Wait(d)\<close> returns a channel that, after any
  sequence of further waits and triggers (none of which panics), is closed exactly when \<open>d\<close> had
  been reached at the time of the call or one of the triggers reached it.
\<close>

theorem read_wait_correct:
  assumes "wt_ok w"
  shows "\<exists>w'. execs wt_exec (snd (wt_Wait w d)) ops = Inr w' \<and> wt_ok w'
    \<and> (fst (wt_Wait w d) \<in> closed (theap w') \<longleftrightarrow> d \<le> lastTriggered w \<or> (\<exists>t. TTrigger t \<in> set ops \<and> d \<le> t))"
proof -
  note R = wt_Wait_ok [OF assms, of d]
  obtain w' where w': "execs wt_exec (snd (wt_Wait w d)) ops = Inr w'" "wt_ok w'"
    using read_waits.execs_total [OF R(1)] by blast
  show ?thesis
  proof (cases "d \<le> lastTriggered w")
    case True
    then have "fst (wt_Wait w d) \<in> closed (theap (snd (wt_Wait w d)))"
      using assms by (simp add: wt_Wait_def wt_ok_def)
    then show ?thesis using read_waits.execs_closed [OF R(1) _ w'(1)] w' True by blast
  next
    case False
    then have "map_of (tmap (snd (wt_Wait w d))) d = Some (fst (wt_Wait w d))" using R(5) by simp
    from read_waits.woken_iff [OF R(1) this w'(1)] show ?thesis using w' False by auto
  qed
qed

theorem read_wait_correct_witness:
  "\<exists>w'. execs wt_exec (snd (wt_Wait newWaitTime 3)) [TTrigger 2, TTrigger 4] = Inr w'
     \<and> fst (wt_Wait newWaitTime 3) \<in> closed (theap w')"
  using read_wait_correct [OF wt_ok_new, of 3 "[TTrigger 2, TTrigger 4]"] by fastforce

end
