(* ===== verification/Fifo_Scheduler.thy ===== *)
theory Fifo_Scheduler
  imports Go_Base
begin

text \<open>
  The scheduler of \<^verbatim>\<open>scheduler/scheduler.go\<close>, which runs the jobs of the apply loop one at a time.
  A job changes a state of type \<open>'s\<close>; \<open>None\<close> in \<open>jdo\<close> is a nil function. \<open>cancelf\<close> is false once
  \<^verbatim>\<open>stop\<close> has set the cancel function to nil. A round of \<^verbatim>\<open>run\<close> that finds no job waits on the
  condition variable until \<^verbatim>\<open>AddTask\<close> signals it.
\<close>

section \<open>The scheduler\<close>

record 's job =
  jname :: string
  jdo :: "('s \<Rightarrow> 's) option"

record 's fifoScheduler =
  queue :: "'s job list"
  cancelled :: bool
  cancelf :: bool

definition NewJob :: "string \<Rightarrow> ('s \<Rightarrow> 's) \<Rightarrow> 's job" where
  "NewJob n f = \<lparr>jname = n, jdo = Some f\<rparr>"

definition NewFifoScheduler :: "'s fifoScheduler" where
  "NewFifoScheduler = \<lparr>queue = [], cancelled = False, cancelf = True\<rparr>"

definition AddTask :: "'s fifoScheduler \<Rightarrow> 's job \<Rightarrow> 's fifoScheduler" where
  "AddTask f task = f\<lparr>queue := queue f @ [task]\<rparr>"

definition nextTask :: "'s fifoScheduler \<Rightarrow> 's job \<times> 's fifoScheduler" where
  "nextTask f = (case queue f of
     [] \<Rightarrow> (\<lparr>jname = [], jdo = None\<rparr>, f)
   | task # rest \<Rightarrow> (task, f\<lparr>queue := rest\<rparr>))"

definition run_job :: "'s job \<Rightarrow> 's \<Rightarrow> 's" where
  "run_job j s = (case jdo j of None \<Rightarrow> s | Some f \<Rightarrow> f s)"

text \<open>The head of one round of \<^verbatim>\<open>run\<close>: \<open>None\<close> while it waits for a task.\<close>

definition take_task :: "'s fifoScheduler \<Rightarrow> ('s job \<times> 's fifoScheduler) option" where
  "take_task f = (if queue f = [] then None else Some (nextTask f))"

definition sched_stop :: "'s fifoScheduler \<Rightarrow> 's fifoScheduler res" where
  "sched_stop f = (if cancelf f then Inr (f\<lparr>cancelled := True, cancelf := False\<rparr>) else Inl NilPanic)"

section \<open>Queues\<close>

text \<open>
  A server that interleaves arrivals with rounds of work, over any queue: arrivals come from other
  goroutines at any time, a round takes the oldest element or waits.
\<close>

datatype 'j event = Add 'j | Run

fun serve :: "('q \<Rightarrow> 'j \<Rightarrow> 'q) \<Rightarrow> ('q \<Rightarrow> ('j \<times> 'q) option) \<Rightarrow> ('j \<Rightarrow> 's \<Rightarrow> 's) \<Rightarrow> 'j event list \<Rightarrow> 'q \<Rightarrow> 's
    \<Rightarrow> 'q \<times> 's" where
  "serve enq deq work [] q s = (q, s)"
| "serve enq deq work (Add j # es) q s = serve enq deq work es (enq q j) s"
| "serve enq deq work (Run # es) q s =
     (case deq q of None \<Rightarrow> serve enq deq work es q s | Some (j, q') \<Rightarrow> serve enq deq work es q' (work j s))"

fun arrivals :: "'j event list \<Rightarrow> 'j list" where
  "arrivals [] = []"
| "arrivals (Add j # es) = j # arrivals es"
| "arrivals (Run # es) = arrivals es"

locale fifo_queue =
  fixes enq :: "'q \<Rightarrow> 'j \<Rightarrow> 'q" and deq :: "'q \<Rightarrow> ('j \<times> 'q) option" and view :: "'q \<Rightarrow> 'j list"
  assumes enq_view: "view (enq q j) = view q @ [j]"
    and deq_None: "deq q = None \<longleftrightarrow> view q = []"
    and deq_Some: "deq q = Some (j, q') \<Longrightarrow> view q = j # view q'"
begin

lemma serve_order:
  "serve enq deq work es q s = (q', s') \<Longrightarrow>
   \<exists>served. view q @ arrivals es = served @ view q' \<and> s' = fold work served s"
proof (induction es arbitrary: q s)
  case Nil
  then show ?case by auto
next
  case (Cons e es)
  show ?case
  proof (cases e)
    case (Add j)
    with Cons.prems have "serve enq deq work es (enq q j) s = (q', s')" by simp
    from Cons.IH [OF this] show ?thesis using Add by (simp add: enq_view)
  next
    case Run
    show ?thesis
    proof (cases "deq q")
      case None
      then show ?thesis using Cons Run by simp
    next
      case (Some jq)
      obtain j q1 where jq: "jq = (j, q1)" by (cases jq)
      with Some Run Cons.prems have "serve enq deq work es q1 (work j s) = (q', s')" by simp
      from Cons.IH [OF this] obtain served where
        "view q1 @ arrivals es = served @ view q'" "s' = fold work served (work j s)" by blast
      then show ?thesis using deq_Some [of q j q1] Some jq Run by (intro exI [of _ "j # served"]) simp
    qed
  qed
qed

lemma serve_append:
  "serve enq deq work (es @ fs) q s = (let (q', s') = serve enq deq work es q s in serve enq deq work fs q' s')"
  by (induction enq deq work es q s rule: serve.induct) (auto split: option.splits)

lemma drain:
  "length (view q) \<le> n \<Longrightarrow> serve enq deq work (replicate n Run) q s = (q', s') \<Longrightarrow> view q' = []"
proof (induction n arbitrary: q s)
  case (Suc n)
  show ?case
  proof (cases "deq q")
    case None
    then have "view q = []" by (simp add: deq_None)
    with Suc.prems None show ?thesis using Suc.IH [of q s] by simp
  next
    case (Some jq)
    obtain j q1 where jq: "jq = (j, q1)" by (cases jq)
    then have "view q = j # view q1" using deq_Some Some by simp
    with Suc Some jq show ?thesis by simp
  qed
qed simp

text \<open>Enough further rounds serve everything that arrived, once and in order.\<close>

lemma serve_all:
  assumes "length (view q @ arrivals es) \<le> n"
  shows "snd (serve enq deq work (es @ replicate n Run) q s) = fold work (view q @ arrivals es) s"
proof -
  obtain q1 s1 where one: "serve enq deq work es q s = (q1, s1)" by fastforce
  obtain q2 s2 where two: "serve enq deq work (replicate n Run) q1 s1 = (q2, s2)" by fastforce
  obtain served where "view q @ arrivals es = served @ view q1" using serve_order [OF one] by blast
  then have "length (view q1) \<le> n" using assms by (metis length_append le_add2 order_trans)
  from drain [OF this two] have empty: "view q2 = []" .
  have all: "serve enq deq work (es @ replicate n Run) q s = (q2, s2)" using one two by (simp add: serve_append)
  have arr: "arrivals (es @ replicate n Run) = arrivals es"
  proof -
    have "arrivals (replicate n Run) = []" by (induction n) simp_all
    then show ?thesis by (induction es rule: arrivals.induct) simp_all
  qed
  show ?thesis using serve_order [OF all] empty arr all by simp
qed

end

interpretation scheduler: fifo_queue AddTask take_task queue
proof
  fix q q' :: "'s fifoScheduler" and j
  show "queue (AddTask q j) = queue q @ [j]" by (simp add: AddTask_def)
  show "take_task q = None \<longleftrightarrow> queue q = []" by (simp add: take_task_def)
  show "take_task q = Some (j, q') \<Longrightarrow> queue q = j # queue q'"
    by (cases "queue q") (auto simp: take_task_def nextTask_def)
qed

section \<open>Properties\<close>

text \<open>
  C33: total order of the jobs. However the arrivals of tasks interleave with the rounds of the
  scheduler, the state is the one obtained by running a prefix of the tasks in the order in which
  they were added, and the rest of them are still in the queue, in that order.
\<close>

theorem scheduler_fifo:
  assumes "serve AddTask take_task run_job es NewFifoScheduler s = (f, s')"
  shows "\<exists>served. arrivals es = served @ queue f \<and> s' = fold run_job served s"
  using scheduler.serve_order [OF assms] by (simp add: NewFifoScheduler_def)

theorem scheduler_fifo_witness:
  "\<exists>f s'. serve AddTask take_task run_job [Add (NewJob ''a'' (\<lambda>n. n + 1)), Run, Add (NewJob ''b'' (\<lambda>n. n * 2)), Run]
       NewFifoScheduler (5 :: nat) = (f, s')
     \<and> (\<exists>served. arrivals [Add (NewJob ''a'' (\<lambda>n :: nat. n + 1)), Run, Add (NewJob ''b'' (\<lambda>n. n * 2)), Run] = served @ queue f
          \<and> s' = fold run_job served 5) \<and> s' = 12"
proof -
  let ?es = "[Add (NewJob ''a'' (\<lambda>n. n + 1)), Run, Add (NewJob ''b'' (\<lambda>n. n * 2)), Run]"
  obtain f s' where run: "serve AddTask take_task run_job ?es NewFifoScheduler (5 :: nat) = (f, s')" by fastforce
  then have "s' = 12"
    by (auto simp: NewFifoScheduler_def AddTask_def take_task_def nextTask_def run_job_def NewJob_def)
  with scheduler_fifo [OF run] run show ?thesis by blast
qed

text \<open>
  No job is lost. Given as many further rounds as tasks arrived, every task runs exactly once,
  in the order of arrival, whatever happened in between.
\<close>

theorem scheduler_runs_all:
  assumes "length (arrivals es) \<le> n"
  shows "snd (serve AddTask take_task run_job (es @ replicate n Run) NewFifoScheduler s)
    = fold run_job (arrivals es) s"
  using scheduler.serve_all [of NewFifoScheduler es n run_job s] assms by (simp add: NewFifoScheduler_def)

theorem scheduler_runs_all_witness:
  "snd (serve AddTask take_task run_job ([Add (NewJob ''a'' (\<lambda>n :: nat. n + 1))] @ replicate 1 Run) NewFifoScheduler 5) = 6"
  using scheduler_runs_all [of "[Add (NewJob ''a'' (\<lambda>n :: nat. n + 1))]" 1 5] by (simp add: run_job_def NewJob_def)

end
