(* ===== verification/Id_Generator.thy ===== *)
theory Id_Generator
  imports Main "HOL-Library.Word"
begin

text \<open>
  The request identifiers of \<^verbatim>\<open>generator.go\<close>, on 64-bit words: a member prefix of 16 bits and a
  suffix of 48 bits that starts at the time of the start and grows by one per identifier.
\<close>

unbundle bit_operations_syntax

definition tsLen :: nat where "tsLen = 5 * 8"
definition cntLen :: nat where "cntLen = 8"
definition suffixLen :: nat where "suffixLen = tsLen + cntLen"

record generator =
  prefix :: "64 word"
  suffix :: "64 word"

definition lowbit :: "64 word \<Rightarrow> nat \<Rightarrow> 64 word" where
  "lowbit x n = x AND drop_bit (64 - n) (-1)"

text \<open>\<open>nanos\<close> is \<^verbatim>\<open>uint64(now.UnixNano())\<close>.\<close>

definition NewGenerator :: "16 word \<Rightarrow> 64 word \<Rightarrow> generator" where
  "NewGenerator memberID nanos =
     (let pre = push_bit suffixLen (ucast memberID :: 64 word);
          unixMilli = nanos div 1000000
      in \<lparr>prefix = pre, suffix = push_bit cntLen (lowbit unixMilli tsLen)\<rparr>)"

definition gen_Next :: "generator \<Rightarrow> 64 word \<times> generator" where
  "gen_Next g = (let s = suffix g + 1 in (prefix g OR lowbit s suffixLen, g\<lparr>suffix := s\<rparr>))"

fun gen_ids :: "nat \<Rightarrow> generator \<Rightarrow> (64 word) list" where
  "gen_ids 0 g = []"
| "gen_ids (Suc n) g = (let (i, g') = gen_Next g in i # gen_ids n g')"

section \<open>Layout\<close>

lemma lowbit_take_bit: "n \<le> 64 \<Longrightarrow> lowbit x n = take_bit n x"
proof -
  assume "n \<le> 64"
  then have "drop_bit (64 - n) (-1 :: 64 word) = mask n"
    by (auto intro!: bit_eqI simp: bit_simps)
  then show ?thesis by (simp add: lowbit_def take_bit_eq_mask)
qed

lemma gen_Next_parts:
  assumes "prefix g = push_bit 48 (ucast (m :: 16 word))"
  shows "drop_bit 48 (fst (gen_Next g)) = ucast m" and "take_bit 48 (fst (gen_Next g)) = take_bit 48 (suffix g + 1)"
proof -
  let ?s = "suffix g + 1"
  have f: "fst (gen_Next g) = push_bit 48 (ucast m) OR take_bit 48 ?s"
    by (simp add: gen_Next_def Let_def assms lowbit_take_bit suffixLen_def tsLen_def cntLen_def)
  show "drop_bit 48 (fst (gen_Next g)) = ucast m"
    unfolding f by (rule bit_eqI) (auto simp: bit_simps dest: bit_imp_le_length)
  show "take_bit 48 (fst (gen_Next g)) = take_bit 48 ?s"
    unfolding f by (rule bit_eqI) (auto simp: bit_simps)
qed

lemma gen_ids_nth:
  assumes "i < n"
  shows "gen_ids n g ! i = fst (gen_Next (g\<lparr>suffix := suffix g + of_nat i\<rparr>))"
  using assms
proof (induction n arbitrary: g i)
  case (Suc n)
  then show ?case by (cases i) (simp_all add: gen_Next_def Let_def algebra_simps)
qed simp

lemma length_gen_ids [simp]: "length (gen_ids n g) = n"
  by (induction n arbitrary: g) (simp_all add: gen_Next_def Let_def)

lemma take_bit_shift_inj:
  assumes "take_bit 48 (x + of_nat i) = take_bit 48 (x + of_nat j :: 64 word)" and "i < 2 ^ 48" and "j < 2 ^ 48"
  shows "i = j"
proof -
  have low: "uint (take_bit 48 (x + of_nat k)) = (uint x + int k) mod 2 ^ 48" for k
  proof -
    have "uint (take_bit 48 (x + of_nat k)) = uint (x + of_nat k) mod 2 ^ 48"
      unfolding unsigned_take_bit_eq by (rule take_bit_eq_mod)
    also have "\<dots> = (uint x + int k mod 2 ^ 64) mod 2 ^ 64 mod 2 ^ 48"
      by (simp add: uint_word_ariths unsigned_of_nat take_bit_eq_mod zmod_int)
    also have "\<dots> = (uint x + int k) mod 2 ^ 48"
      by (simp add: mod_mod_cancel mod_add_right_eq)
    finally show ?thesis .
  qed
  have "(uint x + int i) mod 2 ^ 48 = (uint x + int j) mod 2 ^ 48"
    using arg_cong [OF assms(1), of uint] by (simp only: low)
  then have "(2 :: int) ^ 48 dvd int i - int j" by (simp add: mod_eq_dvd_iff)
  then show ?thesis
    using assms(2,3) dvd_imp_le_int [of "int i - int j" "2 ^ 48"] by (cases "i = j") auto
qed

section \<open>Properties\<close>

text \<open>
  C34: one member's identifiers do not repeat. The first \<open>2 ^ 48\<close> identifiers of a generator are
  pairwise distinct, wherever its clock started and also when the suffix wraps around.
\<close>

theorem generator_unique:
  assumes "n \<le> 2 ^ 48"
  shows "distinct (gen_ids n (NewGenerator m nanos))"
proof -
  let ?g = "NewGenerator m nanos"
  have pre: "prefix ?g = push_bit 48 (ucast m)"
    by (simp add: NewGenerator_def Let_def suffixLen_def tsLen_def cntLen_def)
  have low: "take_bit 48 (gen_ids n ?g ! i) = take_bit 48 (suffix ?g + 1 + of_nat i)" if "i < n" for i
    using gen_Next_parts(2) [of "?g\<lparr>suffix := suffix ?g + of_nat i\<rparr>" m] that pre
    by (simp add: gen_ids_nth algebra_simps)
  show ?thesis
    unfolding distinct_conv_nth
  proof (intro allI impI)
    fix i j assume "i < length (gen_ids n ?g)" "j < length (gen_ids n ?g)" "i \<noteq> j"
    then have "i < n" "j < n" "i \<noteq> j" by simp_all
    then show "gen_ids n ?g ! i \<noteq> gen_ids n ?g ! j"
      using low [of i] low [of j] take_bit_shift_inj [of "suffix ?g + 1" i j] assms by auto
  qed
qed

theorem generator_unique_witness: "distinct (gen_ids 3 (NewGenerator 1 1700000000000000000))"
  by (rule generator_unique) simp

text \<open>
  Two members never produce the same identifier, whatever their clocks and however many
  identifiers they have produced: the high 16 bits are the member's number.
\<close>

theorem generator_members_disjoint:
  assumes "m1 \<noteq> m2"
  shows "set (gen_ids n (NewGenerator m1 t1)) \<inter> set (gen_ids k (NewGenerator m2 t2)) = {}"
proof -
  have high: "drop_bit 48 x = ucast m" if mem: "x \<in> set (gen_ids n (NewGenerator m t))" for x m t n
  proof -
    let ?g = "NewGenerator m t"
    obtain i where i: "i < n" "x = gen_ids n ?g ! i" using mem by (auto simp: in_set_conv_nth)
    have "prefix (?g\<lparr>suffix := suffix ?g + of_nat i\<rparr>) = push_bit 48 (ucast m)"
      by (simp add: NewGenerator_def Let_def suffixLen_def tsLen_def cntLen_def)
    then show ?thesis using gen_Next_parts(1) i by (simp add: gen_ids_nth)
  qed
  have "(ucast m1 :: 64 word) \<noteq> ucast m2"
  proof
    assume "(ucast m1 :: 64 word) = ucast m2"
    then have "(ucast (ucast m1 :: 64 word) :: 16 word) = ucast (ucast m2 :: 64 word)" by simp
    then show False using assms by (simp add: ucast_up_ucast_id is_up)
  qed
  moreover have "(ucast m1 :: 64 word) = ucast m2"
    if "x \<in> set (gen_ids n (NewGenerator m1 t1))" "x \<in> set (gen_ids k (NewGenerator m2 t2))" for x
    using high [OF that(1)] high [OF that(2)] by simp
  ultimately show ?thesis by blast
qed

theorem generator_members_disjoint_witness:
  "set (gen_ids 2 (NewGenerator 1 5)) \<inter> set (gen_ids 2 (NewGenerator 2 5)) = {}"
  by (rule generator_members_disjoint) simp

end
