(* ===== verification/Harmony_Db.thy ===== *)
theory Harmony_Db
  imports Wal_Replay Raft_Node Waiters Fifo_Scheduler Id_Generator
begin

text \<open>
  The database, \<^verbatim>\<open>db.go\<close>: opening, the apply loop, \<^verbatim>\<open>Put\<close> and \<^verbatim>\<open>Get\<close>. The part that the jobs of the
  scheduler change, the tree, the two waiter tables and the last commit index, is the record
  \<open>db_core\<close>; a job is a function on its outcome, since a panic in a job ends the process and a tree
  operation may not return. A job runs as one step. The blocking calls of \<^verbatim>\<open>Put\<close> and \<^verbatim>\<open>Get\<close> are cut at
  the point where they wait.
\<close>

section \<open>State\<close>

record db_core =
  kv :: btree
  dwaiter :: waiter
  applyWait :: waitTime
  lastCommitIndex :: int

type_synonym core_outcome = "db_core res option"

record db =
  core :: core_outcome
  dnode :: raft_node
  scheduler_q :: "core_outcome fifoScheduler"
  dgen :: generator
  ProposalTimeout :: int
  LinearizedReadTimeout :: int

section \<open>The apply loop\<close>

text \<open>
  The loop of the job over the entries of a batch; the last component is \<^verbatim>\<open>lastAppliedIdx\<close>. The
  accessors of a nil command give empty strings, but the field access \<^verbatim>\<open>e.GetData().RequestId\<close> panics.
\<close>

fun apply_entries :: "db_core \<Rightarrow> log list \<Rightarrow> int \<Rightarrow> (db_core \<times> int) res option" where
  "apply_entries c [] lastAppliedIdx = Some (Inr (c, lastAppliedIdx))"
| "apply_entries c (e # es) lastAppliedIdx =
     (case put (kv c) (cmd_key e) (cmd_val e) of
        None \<Rightarrow> None
      | Some (Inl f) \<Rightarrow> Some (Inl (if is_panic f then f else PanicMsg ''applier''))
      | Some (Inr b) \<Rightarrow>
          (case Data e of
             None \<Rightarrow> Some (Inl NilPanic)
           | Some d \<Rightarrow>
               (case waiter_Trigger (dwaiter c) (RequestId d) of
                  Inl f \<Rightarrow> Some (Inl f)
                | Inr w \<Rightarrow> apply_entries (c\<lparr>kv := b, dwaiter := w\<rparr>) es (Id e))))"

definition apply_job :: "to_apply \<Rightarrow> db_core \<Rightarrow> core_outcome" where
  "apply_job ta c =
     (case apply_entries c (taEntries ta) 0 of
        None \<Rightarrow> None
      | Some (Inl f) \<Rightarrow> Some (Inl f)
      | Some (Inr (c1, lastAppliedIdx)) \<Rightarrow>
          let c2 = (if length (taEntries ta) > 0
                    then c1\<lparr>kv := updateMeta (kv c1) lastAppliedIdx (taCommitIndex ta)\<rparr> else c1);
              c3 = c2\<lparr>lastCommitIndex := taCommitIndex ta\<rparr>
          in Some (bindr (wt_Trigger (applyWait c3) (taCommitIndex ta)) (\<lambda>w. Inr (c3\<lparr>applyWait := w\<rparr>))))"

definition job_of :: "to_apply \<Rightarrow> core_outcome \<Rightarrow> core_outcome" where
  "job_of ta s = (case s of Some (Inr c) \<Rightarrow> apply_job ta c | _ \<Rightarrow> s)"

text \<open>One round of the apply loop, and one round of the scheduler's worker; both wait for work.\<close>

definition applyLoop :: "db \<Rightarrow> db option" where
  "applyLoop d = (case node_Apply (dnode d) of
     None \<Rightarrow> None
   | Some (ta, n) \<Rightarrow> Some (d\<lparr>dnode := n, scheduler_q := AddTask (scheduler_q d) (NewJob ''applier'' (job_of ta))\<rparr>))"

definition db_worker :: "db \<Rightarrow> db option" where
  "db_worker d = (case take_task (scheduler_q d) of
     None \<Rightarrow> None
   | Some (j, q) \<Rightarrow> Some (d\<lparr>scheduler_q := q, core := run_job j (core d)\<rparr>))"

section \<open>Put and Get\<close>

text \<open>
  \<^verbatim>\<open>Put\<close> up to its select: the channel it waits on, or its error. \<open>expired\<close> and \<open>pick\<close> resolve the
  select of \<^verbatim>\<open>Process\<close>; the channel stays registered when the proposal fails.
  A process that has panicked takes no calls.
\<close>

definition db_Put :: "db \<Rightarrow> bytes \<Rightarrow> bytes \<Rightarrow> bool \<Rightarrow> bool \<Rightarrow> (nat res \<times> db) option" where
  "db_Put d key val expired pick =
     (case core d of
        Some (Inr c) \<Rightarrow>
          let (i, g) = gen_Next (dgen d);
              (ch, w) = waiter_Register (dwaiter c) (unat i);
              d1 = d\<lparr>dgen := g, core := Some (Inr (c\<lparr>dwaiter := w\<rparr>))\<rparr>
          in (case node_Process (dnode d1) (proposal key val (unat i)) expired pick of
                None \<Rightarrow> None
              | Some (Inl e) \<Rightarrow> Some (Inl (GoErr ''consensus''), d1)
              | Some (Inr (n, resp)) \<Rightarrow> Some (Inr ch, d1\<lparr>dnode := n\<rparr>))
      | _ \<Rightarrow> None)"

definition put_select :: "db_core \<Rightarrow> nat \<Rightarrow> bool \<Rightarrow> bool \<Rightarrow> unit res option" where
  "put_select c ch expired pick =
     (if ch \<in> closed (wheap (dwaiter c)) \<and> (\<not> expired \<or> pick) then Some (Inr ())
      else if expired then Some (Inl (GoErr ''put timeout''))
      else None)"

text \<open>\<^verbatim>\<open>Get\<close>: registering for the last commit index, then the select and the lookup.\<close>

definition get_wait :: "db_core \<Rightarrow> nat \<times> db_core" where
  "get_wait c = (let commitIdx = lastCommitIndex c; (ch, w) = wt_Wait (applyWait c) commitIdx
     in (ch, c\<lparr>applyWait := w\<rparr>))"

text \<open>The text of an error; the faults that are panics have none.\<close>

definition error_text :: "fault \<Rightarrow> string" where
  "error_text f = (case f of GoErr e \<Rightarrow> e | EOF \<Rightarrow> ''EOF'' | UnexpectedEOF \<Rightarrow> ''unexpected EOF'' | _ \<Rightarrow> [])"

definition get_select :: "db_core \<Rightarrow> nat \<Rightarrow> bytes \<Rightarrow> bool \<Rightarrow> bool \<Rightarrow> (db_core \<times> bytes) res option" where
  "get_select c ch key expired pick =
     (if ch \<in> closed (theap (applyWait c)) \<and> (\<not> expired \<or> pick) then
        (case btree_Get (kv c) key of
           None \<Rightarrow> None
         | Some (Inl f) \<Rightarrow> Some (Inl (if is_panic f then f else GoErr (''get: '' @ error_text f)))
         | Some (Inr (b, v)) \<Rightarrow> Some (Inr (c\<lparr>kv := b\<rparr>, v)))
      else if expired then Some (Inl (GoErr ''get timeout''))
      else None)"

section \<open>Opening\<close>

text \<open>Decimal output of \<^verbatim>\<open>fmt.Sprintf\<close> for \<^verbatim>\<open>%d\<close>.\<close>

fun digits :: "nat \<Rightarrow> string" where
  "digits n = (if n < 10 then [char_of (48 + n)] else digits (n div 10) @ [char_of (48 + n mod 10)])"

definition itoa :: "int \<Rightarrow> string" where
  "itoa i = (if i < 0 then CHR ''-'' # digits (nat (- i)) else digits (nat i))"

definition config_path :: "int \<Rightarrow> string" where
  "config_path raftPort = ''./repl/cluster-node'' @ itoa ((raftPort - 5001) + 1) @ ''.yaml''"

definition db_path :: "int \<Rightarrow> string" where
  "db_path i = ''./data/node_'' @ itoa i @ ''.db''"

definition wal_path :: "int \<Rightarrow> string" where
  "wal_path i = ''./data/node_'' @ itoa i @ ''_wal.log''"

text \<open>
  \<open>load\<close> reads and parses a configuration file, \<open>files\<close> are the contents of the data files by path (the
  metadata has the name of the tree file with the suffix of the source), \<open>nanos\<close> is the time, the
  timeouts are those set by the options, 0 when unset.
\<close>

definition Open_db ::
  "(string \<Rightarrow> cluster_config res) \<Rightarrow> (string \<Rightarrow> bytes) \<Rightarrow> (string \<Rightarrow> string option) \<Rightarrow> (string \<Rightarrow> string option)
   \<Rightarrow> 64 word \<Rightarrow> int \<Rightarrow> int \<Rightarrow> int \<Rightarrow> db res option" where
  "Open_db load files dial listen nanos raftPort proposalTimeout readTimeout =
     (let conf = load (config_path raftPort);
          walData = (case conf of Inl _ \<Rightarrow> [] | Inr config \<Rightarrow> files (wal_path (ThisNodeID config)))
      in (case NewRaftNode conf walData dial listen of
            Inl e \<Rightarrow> Some (Inl (if is_panic e then e else GoErr ''opendb with config''))
          | Inr rn \<Rightarrow>
              (case NewBTreeWithPath (files (db_path (nID rn))) (files (db_path (nID rn) @ ''.meta'')) of
                 Inl e \<Rightarrow> Some (Inl e)
               | Inr b \<Rightarrow>
                   (case ReplayWAL b (node_GetWAL rn) of
                      None \<Rightarrow> None
                    | Some (Inl f) \<Rightarrow> Some (Inl (if is_panic f then f else GoErr ''replay WAL''))
                    | Some (Inr b1) \<Rightarrow>
                        Some (Inr \<lparr>core = Some (Inr \<lparr>kv = b1, dwaiter = newWaiter, applyWait = newWaitTime,
                                                    lastCommitIndex = 0\<rparr>),
                          dnode = rn, scheduler_q = NewFifoScheduler,
                          dgen = NewGenerator (word_of_int (nID rn)) nanos,
                          ProposalTimeout = (if proposalTimeout = 0 then 100000000 else proposalTimeout),
                          LinearizedReadTimeout = (if readTimeout = 0 then 100000000 else readTimeout)\<rparr>)))))"

text \<open>The options change a zero configuration before the defaults are filled in.\<close>

record db_config =
  cfgProposalTimeout :: int
  cfgLinearizedReadTimeout :: int

definition Open_with ::
  "(string \<Rightarrow> cluster_config res) \<Rightarrow> (string \<Rightarrow> bytes) \<Rightarrow> (string \<Rightarrow> string option) \<Rightarrow> (string \<Rightarrow> string option)
   \<Rightarrow> 64 word \<Rightarrow> int \<Rightarrow> (db_config \<Rightarrow> db_config) list \<Rightarrow> db res option" where
  "Open_with load files dial listen nanos raftPort opts =
     (let config = fold (\<lambda>opt. opt) opts \<lparr>cfgProposalTimeout = 0, cfgLinearizedReadTimeout = 0\<rparr>
      in Open_db load files dial listen nanos raftPort (cfgProposalTimeout config) (cfgLinearizedReadTimeout config))"

text \<open>Every database that opens has timeouts, those of the options or 100 ms.\<close>

lemma Open_with_timeouts:
  "Open_with load files dial listen nanos port opts = Some (Inr d) \<Longrightarrow> ProposalTimeout d \<noteq> 0 \<and> LinearizedReadTimeout d \<noteq> 0"
  "Open_with load files dial listen nanos port [] = Some (Inr d) \<Longrightarrow>
     ProposalTimeout d = 100000000 \<and> LinearizedReadTimeout d = 100000000"
  by (auto simp: Open_with_def Open_db_def Let_def split: sum.splits option.splits if_splits)

text \<open>
  Correlation identifiers: \<open>rnd\<close> are the eight bytes that \<^verbatim>\<open>rand.Read\<close> fills in, written in hexadecimal.
\<close>

definition hex_digit :: "nat \<Rightarrow> char" where
  "hex_digit n = char_of (if n < 10 then 48 + n else 87 + n)"

definition EncodeToString :: "bytes \<Rightarrow> string" where
  "EncodeToString bs = concat (map (\<lambda>b. [hex_digit (of_char b div 16), hex_digit (of_char b mod 16)]) bs)"

definition generateCorrelationID :: "bytes \<Rightarrow> string" where
  "generateCorrelationID rnd = EncodeToString (take 8 rnd)"

lemma hex_digit_inj: "m < 16 \<Longrightarrow> n < 16 \<Longrightarrow> hex_digit m = hex_digit n \<Longrightarrow> m = n"
  by (auto simp: hex_digit_def char_of_eq_iff take_bit_eq_mod split: if_splits)

lemma hex_byte_inj:
  assumes "hex_digit (of_char b div 16) = hex_digit (of_char c div 16)" and "hex_digit (of_char b mod 16) = hex_digit (of_char c mod 16)"
  shows "b = (c :: char)"
proof -
  have lt: "(of_char x :: nat) div 16 < 16" for x :: char
  proof -
    have "(of_char x :: nat) < 256" by simp
    then show ?thesis by linarith
  qed
  have "(of_char b :: nat) div 16 = of_char c div 16" "(of_char b :: nat) mod 16 = of_char c mod 16"
    using assms lt hex_digit_inj by auto
  then have "(of_char b :: nat) = of_char c" by (metis div_mult_mod_eq)
  then show ?thesis by simp
qed

lemma EncodeToString_inj: "EncodeToString bs = EncodeToString cs \<Longrightarrow> bs = cs"
proof (induction bs arbitrary: cs)
  case (Cons b bs)
  then show ?case by (cases cs) (auto simp: EncodeToString_def intro: hex_byte_inj)
qed (simp add: EncodeToString_def)

text \<open>Identifiers of different random bytes differ; each has sixteen characters.\<close>

lemma generateCorrelationID_unique:
  assumes "length r = 8" and "length r' = 8"
  shows "length (generateCorrelationID r) = 16" "generateCorrelationID r = generateCorrelationID r' \<longleftrightarrow> r = r'"
  using assms
  by (auto simp: generateCorrelationID_def dest: EncodeToString_inj)
    (simp add: EncodeToString_def length_concat comp_def sum_list_triv)

section \<open>Applying a batch\<close>

text \<open>
  What the jobs rely on: a well-formed tree, well-formed waiter tables, and a read table that has
  been triggered up to the last commit index.
\<close>

definition core_ok :: "nat \<Rightarrow> db_core \<Rightarrow> bool" where
  "core_ok base c \<longleftrightarrow> tree_inv base (kv c) \<and> waiter_ok (dwaiter c) \<and> wt_ok (applyWait c)
     \<and> lastTriggered (applyWait c) = lastCommitIndex c"

definition request_of :: "log \<Rightarrow> nat" where
  "request_of e = (case Data e of None \<Rightarrow> 0 | Some d \<Rightarrow> RequestId d)"

definition kv_of :: "log \<Rightarrow> bytes \<times> bytes" where
  "kv_of e = (cmd_key e, cmd_val e)"

lemma apply_entries_eq:
  assumes "\<forall>e \<in> set es. Data e \<noteq> None" and "runs put (kv c) (map kv_of es) = Some (Inr b)"
    and "execs wait_exec (dwaiter c) (map (\<lambda>e. WTrigger (request_of e)) es) = Inr w"
  shows "apply_entries c es i = Some (Inr (c\<lparr>kv := b, dwaiter := w\<rparr>, if es = [] then i else Id (last es)))"
  using assms
proof (induction es arbitrary: c i)
  case (Cons e es)
  obtain d where d: "Data e = Some d" using Cons.prems(1) by auto
  obtain b1 where b1: "put (kv c) (cmd_key e) (cmd_val e) = Some (Inr b1)" "runs put b1 (map kv_of es) = Some (Inr b)"
    using Cons.prems(2) by (auto simp: kv_of_def [of e] split: option.splits sum.splits)
  obtain w1 where w1: "waiter_Trigger (dwaiter c) (RequestId d) = Inr w1"
    "execs wait_exec w1 (map (\<lambda>e. WTrigger (request_of e)) es) = Inr w"
    using Cons.prems(3) d by (auto simp: request_of_def bindr_Inr_iff)
  have "apply_entries c (e # es) i = apply_entries (c\<lparr>kv := b1, dwaiter := w1\<rparr>) es (Id e)"
    using d b1(1) w1(1) by simp
  also have "\<dots> = Some (Inr (c\<lparr>kv := b, dwaiter := w\<rparr>, if es = [] then Id e else Id (last es)))"
    using Cons.IH [of "c\<lparr>kv := b1, dwaiter := w1\<rparr>"] Cons.prems(1) b1(2) w1(2) by simp
  finally show ?case by simp
qed simp

lemma read_trigger_ok:
  assumes "wt_ok w"
  shows "\<exists>w'. wt_Trigger w t = Inr w' \<and> wt_ok w' \<and> lastTriggered w' = t"
proof -
  obtain w' where w': "wt_exec (TTrigger t) w = Inr w'" "wt_ok w'" using read_waits.exec_total [OF assms] by blast
  have "lastTriggered w2 = lastTriggered w1" if "wt_wake w1 t xs = Inr w2" for w1 w2 xs
    using that by (induction w1 t xs rule: wt_wake.induct) (auto simp: bindr_Inr_iff split: if_splits)
  then show ?thesis using w' by (auto simp: wt_Trigger_def Let_def)
qed

lemma apply_job_ok:
  assumes ok: "core_ok base c" and data: "\<forall>e \<in> set (taEntries ta). Data e \<noteq> None"
    and adm: "tree_store.admissible (kv c) (map kv_of (taEntries ta))"
    and few: "leaves (kv c) + length (taEntries ta) \<le> maxInternalNodeCells"
  shows "\<exists>c'. apply_job ta c = Some (Inr c') \<and> core_ok base c' \<and> lastCommitIndex c' = taCommitIndex ta
    \<and> contents (kv c') = contents (kv c) ++ map_of (rev (map kv_of (taEntries ta)))
    \<and> leaves (kv c') \<le> leaves (kv c) + length (taEntries ta) \<and> fs_rootOffset (kv c') = fs_rootOffset (kv c)
    \<and> meta (kv c') = (if taEntries ta = [] then meta (kv c)
        else meta (updateMeta (kv c) (Id (last (taEntries ta))) (taCommitIndex ta)))
    \<and> execs wait_exec (dwaiter c) (map (\<lambda>e. WTrigger (request_of e)) (taEntries ta)) = Inr (dwaiter c')
    \<and> (\<forall>ys. tree_store.admissible (kv c) (map kv_of (taEntries ta) @ ys) \<longrightarrow> tree_store.admissible (kv c') ys)"
proof -
  let ?es = "taEntries ta"
  have inv: "tree_inv base (kv c)" "waiter_ok (dwaiter c)" "wt_ok (applyWait c)" using ok by (simp_all add: core_ok_def)
  have "leaves (kv c) + length (map kv_of ?es) \<le> maxInternalNodeCells" using few by simp
  then obtain b where b: "runs put (kv c) (map kv_of ?es) = Some (Inr b)" "tree_store.good base (kv c) b (map kv_of ?es)"
    using tree_store.runs_short [OF inv(1) adm] by blast
  obtain w where w: "execs wait_exec (dwaiter c) (map (\<lambda>e. WTrigger (request_of e)) ?es) = Inr w" "waiter_ok w"
    using write_waits.execs_total [OF inv(2)] by blast
  obtain t where t: "wt_Trigger (applyWait c) (taCommitIndex ta) = Inr t" "wt_ok t" "lastTriggered t = taCommitIndex ta"
    using read_trigger_ok [OF inv(3)] by blast
  define b2 where "b2 = (if ?es = [] then b else updateMeta b (Id (last ?es)) (taCommitIndex ta))"
  let ?c' = "c\<lparr>kv := b2, dwaiter := w, lastCommitIndex := taCommitIndex ta, applyWait := t\<rparr>"
  have "apply_job ta c = Some (Inr ?c')"
    using apply_entries_eq [OF data b(1) w(1), of 0] t(1) by (simp add: apply_job_def Let_def b2_def)
  moreover have "tree_inv base b" "contents b = contents (kv c) ++ map_of (rev (map kv_of ?es))" "meta b = meta (kv c)" "fs_rootOffset b = fs_rootOffset (kv c)"
    "leaves b \<le> leaves (kv c) + length ?es"
    using b(2) by (auto simp: tree_store.good_def files_same_def)
  moreover have "leaves b2 = leaves b" "fs_rootOffset b2 = fs_rootOffset b" by (simp_all add: b2_def leaves_def root_node_def updateMeta_def)
  moreover have "tree_inv base b2" "contents b2 = contents b"
    using calculation(2) by (simp_all add: b2_def updateMeta_tree)
  moreover have "meta b2 = (if ?es = [] then meta b else meta (updateMeta (kv c) (Id (last ?es)) (taCommitIndex ta)))"
    using calculation(4) by (simp add: b2_def updateMeta_def)
  moreover have "tree_store.admissible b2 ys" if "tree_store.admissible (kv c) (map kv_of ?es @ ys)" for ys
    using tree_store.runs_admissible [OF inv(1) that b(1)] updateMeta_tree(1,3) [of b]
    by (simp add: b2_def tree_store.admissible_def)
  ultimately show ?thesis using w t by (intro exI [of _ ?c']) (simp add: core_ok_def)
qed

lemma apply_job_wakes:
  assumes "waiter_ok w" and "execs wait_exec w (map (\<lambda>e. WTrigger (request_of e)) es) = Inr w'" and "chans w i = Some ch"
  shows "ch \<in> closed (wheap w') \<longleftrightarrow> i \<in> request_of ` set es"
  using write_waits.woken_iff [OF assms(1,3,2)] by auto

lemma get_wait_ok: "core_ok base c \<Longrightarrow> get_wait c = (closec, c)"
  by (simp add: core_ok_def get_wait_def wt_Wait_def)

lemma get_select_ok:
  assumes "core_ok base c"
  shows "get_select c closec key False pick = Some (case contents (kv c) key of
    None \<Rightarrow> Inl (GoErr ''get: key not found'') | Some v \<Rightarrow> Inr (c, v))"
proof -
  have "closec \<in> closed (theap (applyWait c))" using assms by (simp add: core_ok_def wt_ok_def)
  moreover have "btree_Get (kv c) key = Some (case contents (kv c) key of
      None \<Rightarrow> Inl (GoErr ''key not found'') | Some v \<Rightarrow> Inr (kv c, v))"
    using assms tree_store.find_abs [of base "kv c" key] by (simp add: core_ok_def)
  ultimately show ?thesis by (simp add: get_select_def is_panic_def error_text_def split: option.split)
qed

section \<open>Properties\<close>

text \<open>
  A job applies its batch. For a batch of commands that the tree can take, the job neither panics
  nor blocks; afterwards the tree holds the old contents updated by the batch in its order, the
  metadata file records the batch's last index as applied and the commit index, exactly the writers
  whose requests are in the batch have been woken, and readers up to the commit index need not wait.
\<close>

theorem db_apply_correct:
  assumes "core_ok base c" and "taEntries ta \<noteq> []" and "\<forall>e \<in> set (taEntries ta). Data e \<noteq> None"
    and "tree_store.admissible (kv c) (map kv_of (taEntries ta))"
    and "leaves (kv c) + length (taEntries ta) \<le> maxInternalNodeCells"
    and "in_i64 (Id (last (taEntries ta)))" and "in_i64 (taCommitIndex ta)"
  shows "\<exists>c'. apply_job ta c = Some (Inr c') \<and> core_ok base c'
    \<and> contents (kv c') = contents (kv c) ++ map_of (rev (map kv_of (taEntries ta)))
    \<and> readMeta (kv c') = Inr (taCommitIndex ta, Id (last (taEntries ta)))
    \<and> lastCommitIndex c' = taCommitIndex ta
    \<and> (\<forall>i ch. chans (dwaiter c) i = Some ch \<longrightarrow>
         (ch \<in> closed (wheap (dwaiter c')) \<longleftrightarrow> i \<in> request_of ` set (taEntries ta)))"
proof -
  obtain c' where c': "apply_job ta c = Some (Inr c')" "core_ok base c'" "lastCommitIndex c' = taCommitIndex ta"
    "contents (kv c') = contents (kv c) ++ map_of (rev (map kv_of (taEntries ta)))"
    "meta (kv c') = meta (updateMeta (kv c) (Id (last (taEntries ta))) (taCommitIndex ta))"
    "execs wait_exec (dwaiter c) (map (\<lambda>e. WTrigger (request_of e)) (taEntries ta)) = Inr (dwaiter c')"
    using apply_job_ok [OF assms(1,3-5)] assms(2) by (elim exE conjE) simp
  have "readMeta (kv c') = readMeta (updateMeta (kv c) (Id (last (taEntries ta))) (taCommitIndex ta))"
    by (simp add: readMeta_def c'(5))
  moreover have "waiter_ok (dwaiter c)" using assms(1) by (simp add: core_ok_def)
  ultimately show ?thesis
    using c' readMeta_updateMeta [OF assms(6,7)] apply_job_wakes [OF _ c'(6)] by auto
qed

definition new_core :: "btree \<Rightarrow> db_core" where
  "new_core b = \<lparr>kv = b, dwaiter = newWaiter, applyWait = newWaitTime, lastCommitIndex = 0\<rparr>"

lemma new_core_ok: "tree_inv base b \<Longrightarrow> core_ok base (new_core b)"
  using waiter_ok_new wt_ok_new by (simp add: core_ok_def new_core_def) (simp add: newWaitTime_def)

definition one_entry :: "nat \<Rightarrow> to_apply" where
  "one_entry i = \<lparr>taEntries = [\<lparr>Term = 1, Id = 1, Data = Some \<lparr>Op = ''PUT'', Key = ''k'', Val = ''v'', RequestId = i\<rparr>\<rparr>],
     taCommitIndex = 1\<rparr>"

lemma one_entry_facts:
  "taEntries (one_entry i) \<noteq> []" "\<forall>e \<in> set (taEntries (one_entry i)). Data e \<noteq> None"
  "map kv_of (taEntries (one_entry i)) = [(''k'', ''v'')]" "Id (last (taEntries (one_entry i))) = 1"
  "taCommitIndex (one_entry i) = 1" "length (taEntries (one_entry i)) = 1" "request_of ` set (taEntries (one_entry i)) = {i}"
  by (simp_all add: one_entry_def kv_of_def cmd_key_def cmd_val_def request_of_def)

lemma one_entry_fits:
  assumes "contents b = Map.empty" and "isLeaf (root_node b)"
  shows "tree_store.admissible b (map kv_of (taEntries (one_entry i)))"
    and "leaves b + length (taEntries (one_entry i)) \<le> maxInternalNodeCells"
  using assms fresh_admissible [OF assms, of "[(''k'', ''v'')]"]
  by (simp_all add: one_entry_facts leaves_def maxInternalNodeCells_def)

theorem db_apply_correct_witness:
  "\<exists>b c. NewBTreeWithPath [] [] = Inr b \<and> apply_job (one_entry 7) (new_core b) = Some (Inr c)
     \<and> contents (kv c) = [''k'' \<mapsto> ''v''] \<and> readMeta (kv c) = Inr (1, 1)"
proof -
  obtain b where b: "NewBTreeWithPath [] [] = Inr b" "tree_inv 0 b" "contents b = Map.empty" "isLeaf (root_node b)"
    by (rule fresh_tree)
  have k: "kv (new_core b) = b" by (simp add: new_core_def)
  show ?thesis
    using db_apply_correct [OF new_core_ok [OF b(2)] one_entry_facts(1,2), of 7] one_entry_fits [OF b(3,4), of 7] b
    unfolding k by (auto simp: one_entry_facts in_i64_def)
qed

text \<open>
  \<^verbatim>\<open>Get\<close> answers from the local tree and never waits. Between jobs the read table has been triggered
  up to the last commit index, so the wait of \<^verbatim>\<open>Get\<close> gets the closed channel and the call returns the
  tree's value or the error of a missing key, whatever else has been committed meanwhile.
\<close>

theorem db_get_local:
  assumes "core_ok base c"
  shows "get_wait c = (closec, c) \<and> get_select c closec key False pick = Some (case contents (kv c) key of
    None \<Rightarrow> Inl (GoErr ''get: key not found'') | Some v \<Rightarrow> Inr (c, v))"
  using get_wait_ok [OF assms] get_select_ok [OF assms] by simp

theorem db_get_local_witness:
  "\<exists>b. NewBTreeWithPath [] [] = Inr b \<and> get_wait (new_core b) = (closec, new_core b)
     \<and> get_select (new_core b) closec ''k'' False False = Some (Inl (GoErr ''get: key not found''))"
proof -
  obtain b where b: "NewBTreeWithPath [] [] = Inr b" "tree_inv 0 b" "contents b = Map.empty"
    by (rule fresh_tree)
  show ?thesis using db_get_local [OF new_core_ok [OF b(2)]] b(1,3) by (auto simp: new_core_def)
qed

text \<open>
  A \<^verbatim>\<open>Put\<close> is acknowledged once its entry is applied, and is then visible. When \<^verbatim>\<open>Put\<close> has queued its
  proposal, and the node later hands out a batch with the entry of this request as the last one for
  the key, a round of the apply loop and a round of the scheduler's worker complete the call without
  an error and make \<^verbatim>\<open>Get\<close> return the value.
\<close>

theorem db_put_then_get:
  assumes "core d = Some (Inr c)" and "core_ok base c" and "queue (scheduler_q d) = []"
    and "db_Put d key val expired pick = Some (Inr ch, d1)"
    and "applyc n = ta # rest" and "\<forall>e \<in> set (taEntries ta). Data e \<noteq> None"
    and "unat (fst (gen_Next (dgen d))) \<in> request_of ` set (taEntries ta)"
    and "map_of (rev (map kv_of (taEntries ta))) key = Some val"
    and "tree_store.admissible (kv c) (map kv_of (taEntries ta))"
    and "leaves (kv c) + length (taEntries ta) \<le> maxInternalNodeCells"
  shows "\<exists>d2 d3 c'. applyLoop (d1\<lparr>dnode := n\<rparr>) = Some d2 \<and> db_worker d2 = Some d3 \<and> core d3 = Some (Inr c')
    \<and> put_select c' ch False p = Some (Inr ()) \<and> get_select c' closec key False q = Some (Inr (c', val))"
proof -
  let ?i = "unat (fst (gen_Next (dgen d)))"
  let ?w = "snd (waiter_Register (dwaiter c) ?i)"
  let ?c = "c\<lparr>dwaiter := ?w\<rparr>"
  have d1: "core d1 = Some (Inr ?c)" "ch = fst (waiter_Register (dwaiter c) ?i)" "scheduler_q d1 = scheduler_q d"
    using assms(1,4) by (auto simp: db_Put_def Let_def split_def split: option.splits sum.splits)
  have w: "waiter_ok (dwaiter c)" using assms(2) by (simp add: core_ok_def)
  note R = Register_ok [OF w, of ?i]
  have ok: "core_ok base ?c" using assms(2) R(1) by (simp add: core_ok_def)
  obtain c' where c': "apply_job ta ?c = Some (Inr c')" "core_ok base c'"
    "contents (kv c') = contents (kv c) ++ map_of (rev (map kv_of (taEntries ta)))"
    "execs wait_exec ?w (map (\<lambda>e. WTrigger (request_of e)) (taEntries ta)) = Inr (dwaiter c')"
    using apply_job_ok [OF ok assms(6)] assms(9,10) by auto
  have "ch \<in> closed (wheap (dwaiter c'))"
    using apply_job_wakes [OF R(1) c'(4) R(2)] assms(7) d1(2) by simp
  then have "put_select c' ch False p = Some (Inr ())" by (simp add: put_select_def)
  moreover have "contents (kv c') key = Some val" using c'(3) assms(8) by simp
  then have "get_select c' closec key False q = Some (Inr (c', val))" using get_select_ok [OF c'(2)] by simp
  ultimately show ?thesis
    using assms(3,5) d1 c'(1)
    by (simp add: applyLoop_def node_Apply_def db_worker_def take_task_def AddTask_def nextTask_def run_job_def NewJob_def
        job_of_def)
qed

text \<open>A database on a new tree whose node has just started.\<close>

definition new_db :: "btree \<Rightarrow> raft_node \<Rightarrow> db" where
  "new_db b n = \<lparr>core = Some (Inr (new_core b)), dnode = n, scheduler_q = NewFifoScheduler, dgen = NewGenerator 1 0,
     ProposalTimeout = 100000000, LinearizedReadTimeout = 100000000\<rparr>"

theorem db_put_then_get_witness:
  "\<exists>b n0 ch d1 d2 d3 c. NewBTreeWithPath [] [] = Inr b \<and> NewRaftNode (Inr three_nodes) [] up up = Inr n0
     \<and> db_Put (new_db b n0) ''k'' ''v'' False True = Some (Inr ch, d1)
     \<and> applyLoop (d1\<lparr>dnode := n0\<lparr>applyc := [one_entry (unat (fst (gen_Next (NewGenerator 1 0))))]\<rparr>\<rparr>) = Some d2
     \<and> db_worker d2 = Some d3 \<and> core d3 = Some (Inr c) \<and> put_select c ch False False = Some (Inr ())
     \<and> get_select c closec ''k'' False False = Some (Inr (c, ''v''))"
proof -
  obtain b where b: "NewBTreeWithPath [] [] = Inr b" "tree_inv 0 b" "contents b = Map.empty" "isLeaf (root_node b)"
    by (rule fresh_tree)
  obtain n0 where n0: "NewRaftNode (Inr three_nodes) [] up up = Inr n0" "propc n0 = []" by (rule three_nodes_up)
  let ?d = "new_db b n0" and ?i = "unat (fst (gen_Next (NewGenerator 1 0)))"
  have f: "core ?d = Some (Inr (new_core b))" "queue (scheduler_q ?d) = []" "dgen ?d = NewGenerator 1 0" "kv (new_core b) = b"
    by (simp_all add: new_db_def new_core_def NewFifoScheduler_def)
  obtain ch d1 where put: "db_Put ?d ''k'' ''v'' False True = Some (Inr ch, d1)"
    using n0(2) by (auto simp: db_Put_def new_db_def Let_def split_def node_Process_def stepSM_def)
  have app: "applyc (n0\<lparr>applyc := [one_entry ?i]\<rparr>) = one_entry ?i # []" by simp
  have "\<exists>d2 d3 c'. applyLoop (d1\<lparr>dnode := n0\<lparr>applyc := [one_entry ?i]\<rparr>\<rparr>) = Some d2 \<and> db_worker d2 = Some d3
    \<and> core d3 = Some (Inr c') \<and> put_select c' ch False False = Some (Inr ())
    \<and> get_select c' closec ''k'' False False = Some (Inr (c', ''v''))"
    using one_entry_fits [OF b(3,4), of ?i]
    by (intro db_put_then_get [OF f(1) new_core_ok [OF b(2)] f(2) put app]) (simp_all add: one_entry_facts f)
  then show ?thesis using b(1) n0(1) put by blast
qed

text \<open>
  C39: a restart loses what was acknowledged. Take a tree whose header records no root, and a non-empty
  batch of commands that fits it and whose last entry is the commit index of the batch. After a job has
  applied the batch, and after a flush of the tree, the tree reopened on the written files is empty, and
  the replay adds nothing to it, whatever the write-ahead log holds: the metadata says that all committed
  entries are applied.
\<close>

theorem db_restart_loses:
  assumes "core_ok 0 c" and "fs_rootOffset (kv c) = 0" and "taEntries ta \<noteq> []" and "\<forall>e \<in> set (taEntries ta). Data e \<noteq> None"
    and "tree_store.admissible (kv c) (map kv_of (taEntries ta))"
    and "leaves (kv c) + length (taEntries ta) \<le> maxInternalNodeCells"
    and "in_i64 (taCommitIndex ta)" and "Id (last (taEntries ta)) = taCommitIndex ta"
    and "apply_job ta c = Some (Inr c')" and "flushPages (kv c') = Inr b"
  shows "\<exists>b1. NewBTreeWithPath (disk b) (meta b) = Inr b1 \<and> (\<forall>lm. ReplayWAL b1 lm = Some (Inr b1))
    \<and> (\<forall>k. btree_Get b1 k = Some (Inl (GoErr ''key not found'')))"
proof -
  have c': "core_ok 0 c'" "fs_rootOffset (kv c') = 0"
    "meta (kv c') = meta (updateMeta (kv c) (taCommitIndex ta) (taCommitIndex ta))"
    using apply_job_ok [OF assms(1,4-6)] assms(2,3,8,9) by auto
  obtain b1 where b1: "NewBTreeWithPath (disk b) (meta b) = Inr b1" "tree_inv (nextFreeOffset (kv c')) b1"
    "contents b1 = Map.empty" "meta b1 = meta (kv c')"
    using reopen_empty [OF _ c'(2) assms(10)] c'(1) by (auto simp: core_ok_def)
  have "readMeta b1 = readMeta (updateMeta (kv c) (taCommitIndex ta) (taCommitIndex ta))"
    by (simp add: readMeta_def b1(4) c'(3))
  then have "readMeta b1 = Inr (taCommitIndex ta, taCommitIndex ta)" using readMeta_updateMeta [OF assms(7,7)] by simp
  then have "ReplayWAL b1 lm = Some (Inr b1)" for lm by (simp add: ReplayWAL_def)
  then show ?thesis using b1 tree_store.find_abs [OF b1(2)] by auto
qed

theorem db_restart_loses_witness:
  "\<exists>b c b2 b1. NewBTreeWithPath [] [] = Inr b \<and> apply_job (one_entry 7) (new_core b) = Some (Inr c) \<and> flushPages (kv c) = Inr b2
     \<and> NewBTreeWithPath (disk b2) (meta b2) = Inr b1
     \<and> ReplayWAL b1 \<lparr>logs = taEntries (one_entry 7), wfile = [], synced = 0, SyncThreshold = 10\<rparr> = Some (Inr b1)
     \<and> btree_Get b1 ''k'' = Some (Inl (GoErr ''key not found''))"
proof -
  obtain b where b: "NewBTreeWithPath [] [] = Inr b" "tree_inv 0 b" "contents b = Map.empty" "isLeaf (root_node b)"
    "fs_rootOffset b = 0" by (rule fresh_tree)
  have k: "kv (new_core b) = b" by (simp add: new_core_def)
  have "\<exists>b c b2. NewBTreeWithPath [] [] = Inr b \<and> apply_job (one_entry 7) (new_core b) = Some (Inr c) \<and> flushPages (kv c) = Inr b2"
    by (simp add: go_eval apply_job_def one_entry_def new_core_def cmd_key_def cmd_val_def waiter_Trigger_def newWaiter_def
        wt_Trigger_def newWaitTime_def updateMeta_def flushPages_def fs_update_def node_encode_def encodeLeaf_def pad_page_eq
        put_u8_def LeafNode_def cong: eval_congs)
  then obtain c b2 where c: "apply_job (one_entry 7) (new_core b) = Some (Inr c)" "flushPages (kv c) = Inr b2"
    using b(1) by auto
  obtain b1 where "NewBTreeWithPath (disk b2) (meta b2) = Inr b1" "\<forall>lm. ReplayWAL b1 lm = Some (Inr b1)"
    "\<forall>k. btree_Get b1 k = Some (Inl (GoErr ''key not found''))"
    using db_restart_loses [OF new_core_ok [OF b(2)] _ one_entry_facts(1,2) _ _ _ _ c] one_entry_fits [OF b(3,4), of 7] b(5)
    unfolding k by (auto simp: one_entry_facts in_i64_def)
  then show ?thesis using b(1) c by blast
qed

end
