(* ===== verification/Db_System.thy ===== *)
theory Db_System
  imports Harmony_Db "HOL-Library.Sublist"
begin

text \<open>
  A whole node of the database: clients, the network and the clock on one side, the Raft node's run
  loop, the apply loop and the worker of the scheduler as goroutines on the other, in any
  interleaving. It refines a map that is written by the applied entries of the Raft log, in the order
  of the log. Three ghost components record what the concrete state no longer shows: the batches whose
  jobs are queued, the entries whose jobs have run, and for each call of \<^verbatim>\<open>Put\<close> its request, its channel
  and the number of entries that had been applied when it was made.
\<close>

section \<open>Steps\<close>

record sys =
  sdb :: db
  batches :: "to_apply list"
  hist :: "log list"
  calls :: "(nat \<times> nat \<times> nat) list"

text \<open>The request identifier that the next \<^verbatim>\<open>Put\<close> takes.\<close>

definition next_id :: "db \<Rightarrow> nat" where
  "next_id d = unat (fst (gen_Next (dgen d)))"

inductive sys_step :: "sys \<Rightarrow> sys \<Rightarrow> bool" where
  client_put: "db_Put (sdb s) key val expired pick = Some (Inr ch, d) \<Longrightarrow>
     sys_step s (s\<lparr>sdb := d, calls := (next_id (sdb s), ch, length (hist s)) # calls s\<rparr>)"
| client_put_fails: "db_Put (sdb s) key val expired pick = Some (Inl e, d) \<Longrightarrow> sys_step s (s\<lparr>sdb := d\<rparr>)"
| client_get: "\<lbrakk>core (sdb s) = Some (Inr c); get_wait c = (ch, c')\<rbrakk> \<Longrightarrow> sys_step s (s\<lparr>sdb := (sdb s)\<lparr>core := Some (Inr c')\<rparr>\<rparr>)"
| client_got: "\<lbrakk>core (sdb s) = Some (Inr c); get_select c ch key expired pick = Some (Inr (c', v))\<rbrakk> \<Longrightarrow>
     sys_step s (s\<lparr>sdb := (sdb s)\<lparr>core := Some (Inr c')\<rparr>\<rparr>)"
| message: "node_Process (dnode (sdb s)) m expired pick = Some (Inr (n, resp)) \<Longrightarrow> sys_step s (s\<lparr>sdb := (sdb s)\<lparr>dnode := n\<rparr>\<rparr>)"
| clock: "sys_step s (s\<lparr>sdb := (sdb s)\<lparr>dnode := node_Tick (dnode (sdb s))\<rparr>\<rparr>)"
| raft_loop: "\<lbrakk>iter_fits (dnode (sdb s)) ch; run_iter (dnode (sdb s)) ch = Some (Inr n)\<rbrakk> \<Longrightarrow> sys_step s (s\<lparr>sdb := (sdb s)\<lparr>dnode := n\<rparr>\<rparr>)"
| apply_loop: "\<lbrakk>applyLoop (sdb s) = Some d; node_Apply (dnode (sdb s)) = Some (ta, n)\<rbrakk> \<Longrightarrow>
     sys_step s (s\<lparr>sdb := d, batches := batches s @ [ta]\<rparr>)"
| worker: "\<lbrakk>db_worker (sdb s) = Some d; batches s = ta # rest\<rbrakk> \<Longrightarrow>
     sys_step s (s\<lparr>sdb := d, batches := rest, hist := hist s @ taEntries ta\<rparr>)"

inductive_cases sys_stepE: "sys_step s s'"

definition sys_start :: "db \<Rightarrow> sys" where
  "sys_start d = \<lparr>sdb = d, batches = [], hist = [], calls = []\<rparr>"

inductive sys_reach :: "db \<Rightarrow> sys \<Rightarrow> bool" for d where
  start: "sys_reach d (sys_start d)"
| more: "sys_reach d s \<Longrightarrow> sys_step s s' \<Longrightarrow> sys_reach d s'"

section \<open>The invariant\<close>

text \<open>
  The log as far as the node has handed it out, and the logs considered: commands only, the first key
  is the smallest, fewer entries than the tree can hold.
\<close>

definition handed_out :: "sys \<Rightarrow> log list" where
  "handed_out s = applied (nraft (dnode (sdb s)))"

definition fits_tree :: "log list \<Rightarrow> bool" where
  "fits_tree es \<longleftrightarrow> (\<forall>e \<in> set es. Data e \<noteq> None) \<and> (\<forall>e \<in> set es. cmd_key (hd es) \<le> cmd_key e) \<and> length es < maxInternalNodeCells"

definition call_ok :: "log list \<Rightarrow> waiter \<Rightarrow> nat \<times> nat \<times> nat \<Rightarrow> bool" where
  "call_ok es w x = (case x of (i, ch, n) \<Rightarrow> n \<le> length es
     \<and> (if i \<in> request_of ` set (drop n es) then ch \<in> closed (wheap w) else chans w i = Some ch))"

definition calls_ok :: "sys \<Rightarrow> db_core \<Rightarrow> bool" where
  "calls_ok s c \<longleftrightarrow> (\<forall>x \<in> set (calls s). call_ok (hist s) (dwaiter c) x)"

definition tree_state :: "log list \<Rightarrow> log list \<Rightarrow> db_core \<Rightarrow> bool" where
  "tree_state F es c \<longleftrightarrow> core_ok 0 c \<and> contents (kv c) = map_of (rev (map kv_of es))
     \<and> leaves (kv c) \<le> Suc (length es) \<and> tree_store.admissible (kv c) (map kv_of (drop (length es) F))"

definition sys_inv :: "log list \<Rightarrow> sys \<Rightarrow> bool" where
  "sys_inv F s \<longleftrightarrow> node_ok (dnode (sdb s))
     \<and> queue (scheduler_q (sdb s)) = map (\<lambda>ta. NewJob ''applier'' (job_of ta)) (batches s)
     \<and> handed_out s = hist s @ concat (map taEntries (batches s)) @ concat (map taEntries (applyc (dnode (sdb s))))
     \<and> (\<exists>c. core (sdb s) = Some (Inr c) \<and> tree_state F (hist s) c \<and> calls_ok s c)"

lemma calls_ok_upd [simp]: "calls_ok (s\<lparr>sdb := d\<rparr>) c = calls_ok s c" "calls_ok (s\<lparr>batches := b\<rparr>) c = calls_ok s c"
  by (simp_all add: calls_ok_def)

lemma sys_invI:
  assumes "node_ok (dnode (sdb s))" and "queue (scheduler_q (sdb s)) = map (\<lambda>ta. NewJob ''applier'' (job_of ta)) (batches s)"
    and "handed_out s = hist s @ concat (map taEntries (batches s)) @ concat (map taEntries (applyc (dnode (sdb s))))"
    and "core (sdb s) = Some (Inr c)" and "tree_state F (hist s) c" and "calls_ok s c"
  shows "sys_inv F s"
  using assms by (auto simp: sys_inv_def)

lemma db_Put_parts:
  assumes "db_Put d key val expired pick = Some (resp, d')" and "core d = Some (Inr c)"
  defines "w \<equiv> snd (waiter_Register (dwaiter c) (next_id d))"
  shows "core d' = Some (Inr (c\<lparr>dwaiter := w\<rparr>))" and "scheduler_q d' = scheduler_q d"
    and "resp = Inr ch \<Longrightarrow> ch = fst (waiter_Register (dwaiter c) (next_id d))"
    and "dnode d' = dnode d \<or> (\<exists>m resp. node_Process (dnode d) m expired pick = Some (Inr (dnode d', resp)))"
  using assms(1,2) by (auto simp: db_Put_def Let_def split_def w_def next_id_def split: option.splits sum.splits)

lemma Process_parts:
  assumes "node_Process n m expired pick = Some (Inr (n', resp))"
  shows "nraft n' = nraft n" and "applyc n' = applyc n" and "nwal n' = nwal n"
  using assms by (auto simp: node_Process_def stepSM_def split: if_splits)

lemma call_ok_register:
  assumes "waiter_ok w" and "call_ok es w x"
  shows "call_ok es (snd (waiter_Register w i)) x"
proof -
  note R = Register_ok [OF assms(1)]
  have "chans (snd (waiter_Register w i)) j = Some ch" if "chans w j = Some ch" for j ch
    using that R(4) [of j i] by (cases "j = i") (auto simp: waiter_Register_def)
  then show ?thesis using assms(2) R(3) by (auto simp: call_ok_def split: prod.splits if_splits)
qed

lemma call_ok_new: "waiter_ok w \<Longrightarrow> call_ok es (snd (waiter_Register w i)) (i, fst (waiter_Register w i), length es)"
  by (simp add: call_ok_def Register_ok(2))

lemma call_ok_job:
  assumes w: "waiter_ok w" and ex: "execs wait_exec w (map (\<lambda>e. WTrigger (request_of e)) es) = Inr w'" and x: "call_ok old w x"
  shows "call_ok (old @ es) w' x"
proof -
  obtain i ch n where xs: "x = (i, ch, n)" by (cases x)
  have n: "n \<le> length old" "drop n (old @ es) = drop n old @ es" using x by (simp_all add: xs call_ok_def)
  show ?thesis
  proof (cases "i \<in> request_of ` set (drop n old)")
    case True
    then have "ch \<in> closed (wheap w)" using x by (simp add: xs call_ok_def)
    then show ?thesis using True n write_waits.execs_closed [OF w _ ex] by (simp add: xs call_ok_def image_Un)
  next
    case False
    then have ch: "chans w i = Some ch" using x by (simp add: xs call_ok_def)
    then show ?thesis
      using False n apply_job_wakes [OF w ex ch] write_waits.execs_waits [OF w ch ex] by (auto simp: xs call_ok_def)
  qed
qed

lemma put_inv:
  assumes inv: "sys_inv F s" and put: "db_Put (sdb s) key val expired pick = Some (resp, d)"
    and s': "sdb s' = d" "batches s' = batches s" "hist s' = hist s"
    and cs: "calls s' = calls s \<or> (\<exists>ch. resp = Inr ch \<and> calls s' = (next_id (sdb s), ch, length (hist s)) # calls s)"
  shows "sys_inv F s'"
proof -
  obtain c where c: "core (sdb s) = Some (Inr c)" "tree_state F (hist s) c" "calls_ok s c" using inv by (auto simp: sys_inv_def)
  note p = db_Put_parts [OF put c(1)]
  have n: "nraft (dnode d) = nraft (dnode (sdb s))" "applyc (dnode d) = applyc (dnode (sdb s))" "nwal (dnode d) = nwal (dnode (sdb s))"
    using p(4) Process_parts by metis+
  have w: "waiter_ok (dwaiter c)" using c(2) by (simp add: tree_state_def core_ok_def)
  let ?w = "snd (waiter_Register (dwaiter c) (next_id (sdb s)))"
  have ok: "calls_ok s' (c\<lparr>dwaiter := ?w\<rparr>)"
    using cs c(3) s'(3) p(3) call_ok_register [OF w] call_ok_new [OF w] by (auto simp: calls_ok_def)
  have "tree_state F (hist s') (c\<lparr>dwaiter := ?w\<rparr>)"
    using c(2) Register_ok(1) [OF w] s'(3) by (simp add: tree_state_def core_ok_def)
  moreover have "node_ok (dnode (sdb s'))" using inv n s'(1) by (simp add: sys_inv_def node_ok_def)
  ultimately show ?thesis
    using ok inv p(1,2) n s' by (intro sys_invI) (simp_all add: sys_inv_def handed_out_def)
qed

lemma node_inv_change:
  assumes inv: "sys_inv F s" and ok: "node_ok n" and app: "applyc n = applyc (dnode (sdb s)) @ tas"
    and out: "applied (nraft n) = applied (nraft (dnode (sdb s))) @ concat (map taEntries tas)"
  shows "sys_inv F (s\<lparr>sdb := (sdb s)\<lparr>dnode := n\<rparr>\<rparr>)"
proof -
  obtain c where c: "core (sdb s) = Some (Inr c)" "tree_state F (hist s) c" "calls_ok s c" using inv by (auto simp: sys_inv_def)
  show ?thesis
    using inv ok app out c by (intro sys_invI [where c = c]) (simp_all add: sys_inv_def handed_out_def)
qed

lemma get_same:
  assumes "core_ok base c"
  shows "get_wait c = (ch, c') \<Longrightarrow> c' = c" and "get_select c ch key expired pick = Some (Inr (c', v)) \<Longrightarrow> c' = c"
proof -
  show "get_wait c = (ch, c') \<Longrightarrow> c' = c" using get_wait_ok [OF assms] by simp
  have "tree_inv base (kv c)" using assms by (simp add: core_ok_def)
  from tree_store.find_abs [OF this, of key]
  show "get_select c ch key expired pick = Some (Inr (c', v)) \<Longrightarrow> c' = c"
    by (auto simp: get_select_def split: if_splits option.splits sum.splits)
qed

lemma core_inv_same: "sys_inv F s \<Longrightarrow> core (sdb s) = Some (Inr c) \<Longrightarrow> sys_inv F (s\<lparr>sdb := (sdb s)\<lparr>core := Some (Inr c)\<rparr>\<rparr>)"
  by (simp add: sys_inv_def handed_out_def)

lemma apply_loop_inv:
  assumes inv: "sys_inv F s" and d: "applyLoop (sdb s) = Some d" and ta: "node_Apply (dnode (sdb s)) = Some (ta, n)"
  shows "sys_inv F (s\<lparr>sdb := d, batches := batches s @ [ta]\<rparr>)"
proof -
  obtain c where c: "core (sdb s) = Some (Inr c)" "tree_state F (hist s) c" "calls_ok s c" using inv by (auto simp: sys_inv_def)
  obtain rest where rest: "applyc (dnode (sdb s)) = ta # rest" "n = (dnode (sdb s))\<lparr>applyc := rest\<rparr>"
    using ta by (auto simp: node_Apply_def split: list.splits)
  have d': "d = (sdb s)\<lparr>dnode := n, scheduler_q := AddTask (scheduler_q (sdb s)) (NewJob ''applier'' (job_of ta))\<rparr>"
    using d ta by (simp add: applyLoop_def)
  show ?thesis
    using inv c rest
    by (intro sys_invI [where c = c]) (simp_all add: d' sys_inv_def handed_out_def AddTask_def node_ok_def)
qed

lemma admissible_prefix: "tree_store.admissible b (xs @ ys) \<Longrightarrow> tree_store.admissible b xs"
  by (cases xs) (auto simp: tree_store.admissible_def)

lemma worker_inv:
  assumes inv: "sys_inv F s" and d: "db_worker (sdb s) = Some d" and b: "batches s = ta # rest"
    and F: "fits_tree F" "prefix (handed_out s) F"
  shows "sys_inv F (s\<lparr>sdb := d, batches := rest, hist := hist s @ taEntries ta\<rparr>)"
proof -
  let ?es = "taEntries ta" and ?s = "s\<lparr>sdb := d, batches := rest, hist := hist s @ taEntries ta\<rparr>"
  obtain c where c: "core (sdb s) = Some (Inr c)" "tree_state F (hist s) c" "calls_ok s c" using inv by (auto simp: sys_inv_def)
  have q: "queue (scheduler_q (sdb s)) = NewJob ''applier'' (job_of ta) # map (\<lambda>ta. NewJob ''applier'' (job_of ta)) rest"
    using inv b by (simp add: sys_inv_def)
  then have d': "d = (sdb s)\<lparr>scheduler_q := (scheduler_q (sdb s))\<lparr>queue := map (\<lambda>ta. NewJob ''applier'' (job_of ta)) rest\<rparr>, core := apply_job ta c\<rparr>"
    using d c(1) by (simp add: db_worker_def take_task_def nextTask_def run_job_def NewJob_def job_of_def)
  obtain zs where zs: "F = hist s @ ?es @ zs" using F(2) inv b by (auto simp: sys_inv_def prefix_def)
  have ok: "core_ok 0 c" and adm: "tree_store.admissible (kv c) (map kv_of ?es @ map kv_of zs)" and lv: "leaves (kv c) \<le> Suc (length (hist s))"
    using c(2) by (simp_all add: tree_state_def zs)
  have data: "\<forall>e \<in> set ?es. Data e \<noteq> None" and few: "leaves (kv c) + length ?es \<le> maxInternalNodeCells"
    using F(1) lv by (auto simp: fits_tree_def zs)
  obtain c' where c': "apply_job ta c = Some (Inr c')" "core_ok 0 c'"
    "contents (kv c') = contents (kv c) ++ map_of (rev (map kv_of ?es))" "leaves (kv c') \<le> leaves (kv c) + length ?es"
    "execs wait_exec (dwaiter c) (map (\<lambda>e. WTrigger (request_of e)) ?es) = Inr (dwaiter c')"
    "\<forall>ys. tree_store.admissible (kv c) (map kv_of ?es @ ys) \<longrightarrow> tree_store.admissible (kv c') ys"
    using apply_job_ok [OF ok data admissible_prefix [OF adm] few] by (elim exE conjE) (rule that)
  have "tree_store.admissible (kv c') (map kv_of zs)" using c'(6) adm by blast
  then have "tree_state F (hist ?s) c'"
    using c(2) c'(2-4) by (simp add: tree_state_def zs)
  moreover have "calls_ok ?s c'"
    using call_ok_job [OF _ c'(5)] ok c(3) by (simp add: calls_ok_def core_ok_def)
  ultimately show ?thesis
    using inv b c'(1) by (intro sys_invI [where c = c']) (simp_all add: sys_inv_def handed_out_def d')
qed

text \<open>What has been handed out is never taken back.\<close>

lemma sys_step_inv:
  assumes step: "sys_step s s'" and inv: "sys_inv F s" and F: "fits_tree F" "prefix (handed_out s) F"
  shows "sys_inv F s'"
  using step
proof cases
  case (client_put key val expired pick ch d)
  show ?thesis unfolding client_put(1) by (rule put_inv [OF inv client_put(2)]) auto
next
  case (client_put_fails key val expired pick e d)
  show ?thesis unfolding client_put_fails(1) by (rule put_inv [OF inv client_put_fails(2)]) auto
next
  case (client_get c ch c')
  have "core_ok 0 c" using inv client_get(2) by (auto simp: sys_inv_def tree_state_def)
  then have "c' = c" using client_get(3) by (rule get_same(1))
  then show ?thesis using core_inv_same [OF inv client_get(2)] client_get(1) by simp
next
  case (client_got c ch key expired pick c' v)
  have "core_ok 0 c" using inv client_got(2) by (auto simp: sys_inv_def tree_state_def)
  then have "c' = c" using client_got(3) by (rule get_same(2))
  then show ?thesis using core_inv_same [OF inv client_got(2)] client_got(1) by simp
next
  case (message m expired pick n resp)
  have "node_ok n" using inv node_step_ok [OF node_step.arrive [OF message(2)]] by (simp add: sys_inv_def)
  then show ?thesis unfolding message(1)
    using Process_parts [OF message(2)] by (intro node_inv_change [OF inv, where tas = "[]"]) simp_all
next
  case clock
  have "node_ok (node_Tick (dnode (sdb s)))" using inv node_step_ok [OF node_step.clock] by (simp add: sys_inv_def)
  then show ?thesis unfolding clock
    by (intro node_inv_change [OF inv, where tas = "[]"]) (simp_all add: node_Tick_def)
next
  case (raft_loop ch n)
  have ok: "node_ok (dnode (sdb s))" using inv by (simp add: sys_inv_def)
  from run_iter_ok [OF ok raft_loop(2,3)] show ?thesis unfolding raft_loop(1) using node_inv_change [OF inv] by blast
next
  case (apply_loop d ta n)
  then show ?thesis using apply_loop_inv [OF inv] by blast
next
  case (worker d ta rest)
  then show ?thesis using worker_inv [OF inv _ _ F] by blast
qed

lemma handed_out_grows:
  assumes step: "sys_step s s'" and ok: "node_ok (dnode (sdb s))"
  shows "prefix (handed_out s) (handed_out s')" and "node_ok (dnode (sdb s'))"
proof -
  have put: "applied (nraft (dnode d)) = applied (nraft (dnode (sdb s))) \<and> node_ok (dnode d)"
    if d: "db_Put (sdb s) key val expired pick = Some (resp, d)" for key val expired pick resp d
  proof -
    obtain c where c: "core (sdb s) = Some (Inr c)" using d by (auto simp: db_Put_def split: option.splits sum.splits)
    show ?thesis using db_Put_parts(4) [OF d c] Process_parts(1) node_step_ok [OF node_step.arrive ok] ok by metis
  qed
  have "prefix (handed_out s) (handed_out s') \<and> node_ok (dnode (sdb s'))"
    using step
  proof cases
    case (client_put key val expired pick ch d)
    then show ?thesis using put by (simp add: handed_out_def)
  next
    case (client_put_fails key val expired pick e d)
    then show ?thesis using put by (simp add: handed_out_def)
  next
    case (message m expired pick n resp)
    then show ?thesis using Process_parts(1) [OF message(2)] node_step_ok [OF node_step.arrive [OF message(2)] ok] by (simp add: handed_out_def)
  next
    case clock
    then show ?thesis using node_step_ok [OF node_step.clock ok] by (simp add: handed_out_def node_Tick_def)
  next
    case (raft_loop ch n)
    then show ?thesis using run_iter_ok [OF ok raft_loop(2,3)] by (auto simp: handed_out_def)
  qed (use ok in \<open>auto simp: handed_out_def applyLoop_def db_worker_def node_Apply_def node_ok_def split: option.splits list.splits\<close>)
  then show "prefix (handed_out s) (handed_out s')" "node_ok (dnode (sdb s'))" by simp_all
qed

section \<open>Reachable systems\<close>

lemma Open_db_new:
  assumes "Open_db load (\<lambda>_. []) dial listen nanos port pt rt = Some (Inr d)"
  obtains b where "NewBTreeWithPath [] [] = Inr b" and "core d = Some (Inr (new_core b))" and "queue (scheduler_q d) = []"
    and "node_ok (dnode d)" and "applyc (dnode d) = []" and "applied (nraft (dnode d)) = []"
proof -
  obtain b where b: "NewBTreeWithPath [] [] = Inr b" "meta b = []" by (rule fresh_tree)
  have "readMeta b = Inr (0, 0)" using b(2) by (simp add: readMeta_def read_i64_def read_uint_def read_full_def)
  then have rep: "ReplayWAL b lm = Some (Inr b)" for lm by (simp add: ReplayWAL_def)
  let ?conf = "load (config_path port)"
  have no: "(case ?conf of Inl _ \<Rightarrow> [] | Inr config \<Rightarrow> []) = []" by (simp split: sum.split)
  obtain rn where rn: "NewRaftNode ?conf [] dial listen = Inr rn" and d: "core d = Some (Inr (new_core b))"
    "scheduler_q d = NewFifoScheduler" "dnode d = rn"
    using assms b(1) rep unfolding Open_db_def Let_def no
    by (auto simp: new_core_def node_GetWAL_def split: sum.splits)
  obtain config :: cluster_config where
    "nraft rn = NewRaft (ThisNodeID config) (map niID (filter (\<lambda>x. niID x \<noteq> ThisNodeID config) (cfgNodes config)))" "applyc rn = []"
    using rn by (rule bootstrap_Inr) (rule that)
  then have "applied (nraft rn) = []" "applyc rn = []" by simp_all
  then show ?thesis using that [OF b(1) d(1)] d(2,3) bootstrap_ok [OF rn] by (simp add: NewFifoScheduler_def)
qed

lemma sys_start_inv:
  assumes open': "Open_db load (\<lambda>_. []) dial listen nanos port pt rt = Some (Inr d)" and F: "fits_tree F"
  shows "sys_inv F (sys_start d)"
proof -
  obtain b where b: "NewBTreeWithPath [] [] = Inr b" "core d = Some (Inr (new_core b))" "queue (scheduler_q d) = []"
    "node_ok (dnode d)" "applyc (dnode d) = []" "applied (nraft (dnode d)) = []" by (rule Open_db_new [OF open'])
  obtain b' where "NewBTreeWithPath [] [] = Inr b'" "tree_inv 0 b'" "contents b' = Map.empty" "isLeaf (root_node b')"
    by (rule fresh_tree)
  then have t: "tree_inv 0 b" "contents b = Map.empty" "isLeaf (root_node b)" using b(1) by simp_all
  have "\<forall>k \<in> fst ` set (map kv_of F). fst (hd (map kv_of F)) \<le> k"
    using F by (cases F) (auto simp: fits_tree_def kv_of_def)
  then have "tree_store.admissible b (map kv_of F)" by (rule fresh_admissible [OF t(2,3)])
  then have "tree_state F [] (new_core b)"
    using new_core_ok [OF t(1)] t by (simp add: tree_state_def) (simp add: new_core_def leaves_def)
  then show ?thesis
    using b by (intro sys_invI [where c = "new_core b"]) (simp_all add: sys_start_def handed_out_def calls_ok_def)
qed

lemma sys_reach_inv:
  assumes "Open_db load (\<lambda>_. []) dial listen nanos port pt rt = Some (Inr d)" and "sys_reach d s"
    and "fits_tree F" and "prefix (handed_out s) F"
  shows "sys_inv F s"
proof -
  have "node_ok (dnode (sdb s)) \<and> (prefix (handed_out s) F \<longrightarrow> sys_inv F s)"
    using assms(2)
  proof (induction rule: sys_reach.induct)
    case start
    show ?case using sys_start_inv [OF assms(1,3)] by (simp add: sys_inv_def)
  next
    case (more s s')
    note g = handed_out_grows [OF more(2) conjunct1 [OF more.IH]]
    have "sys_inv F s'" if "prefix (handed_out s') F"
    proof -
      have "prefix (handed_out s) F" using g(1) that by (rule prefix_order.trans)
      then show ?thesis using sys_step_inv [OF more(2) _ assms(3)] more.IH by blast
    qed
    then show ?case using g(2) by blast
  qed
  then show ?thesis using assms(4) by blast
qed

section \<open>Draining\<close>

text \<open>The apply loop and the worker alone bring the tree up to what has been handed out.\<close>

lemma sys_drain:
  assumes open': "Open_db load (\<lambda>_. []) dial listen nanos port pt rt = Some (Inr d)" and "sys_reach d s" and "fits_tree (handed_out s)"
  shows "\<exists>s'. sys_step\<^sup>*\<^sup>* s s' \<and> sys_reach d s' \<and> hist s' = handed_out s \<and> handed_out s' = handed_out s \<and> calls s' = calls s
    \<and> batches s' = [] \<and> applyc (dnode (sdb s')) = []"
  using assms(2,3)
proof (induction s rule: measure_induct_rule [of "\<lambda>s. 2 * length (applyc (dnode (sdb s))) + length (batches s)"])
  case (less s)
  have inv: "sys_inv (handed_out s) s" by (rule sys_reach_inv [OF open' less.prems]) simp
  have go: ?case if "sys_step s s1" "handed_out s1 = handed_out s" "calls s1 = calls s"
    "2 * length (applyc (dnode (sdb s1))) + length (batches s1) < 2 * length (applyc (dnode (sdb s))) + length (batches s)" for s1
  proof -
    have "sys_reach d s1" by (rule sys_reach.more [OF less.prems(1) that(1)])
    from less.IH [OF that(4) this] less.prems(2) that show ?thesis by (metis converse_rtranclp_into_rtranclp)
  qed
  show ?case
  proof (cases "applyc (dnode (sdb s))")
    case (Cons ta rest)
    then have ta: "node_Apply (dnode (sdb s)) = Some (ta, (dnode (sdb s))\<lparr>applyc := rest\<rparr>)" by (simp add: node_Apply_def)
    let ?d = "(sdb s)\<lparr>dnode := (dnode (sdb s))\<lparr>applyc := rest\<rparr>, scheduler_q := AddTask (scheduler_q (sdb s)) (NewJob ''applier'' (job_of ta))\<rparr>"
    have "applyLoop (sdb s) = Some ?d" using ta by (simp add: applyLoop_def)
    from sys_step.apply_loop [OF this ta] show ?thesis by (rule go) (simp_all add: Cons handed_out_def)
  next
    case Nil
    show ?thesis
    proof (cases "batches s")
      case (Cons ta rest)
      then have "queue (scheduler_q (sdb s)) \<noteq> []" using inv by (simp add: sys_inv_def)
      then obtain dd where dd: "db_worker (sdb s) = Some dd" by (simp add: db_worker_def take_task_def split_def)
      then have "dnode dd = dnode (sdb s)" by (auto simp: db_worker_def split: option.splits)
      then show ?thesis using go [OF sys_step.worker [OF dd Cons]] Cons by (simp add: handed_out_def)
    next
      case Nil
      then have "hist s = handed_out s" using inv \<open>applyc (dnode (sdb s)) = []\<close> by (simp add: sys_inv_def)
      then show ?thesis using Nil \<open>applyc (dnode (sdb s)) = []\<close> less.prems(1) by blast
    qed
  qed
qed

section \<open>A run that writes a key\<close>

lemma node_run_sys:
  "sys_reach d s \<Longrightarrow> node_run (dnode (sdb s)) as = Some n \<Longrightarrow> sys_reach d (s\<lparr>sdb := (sdb s)\<lparr>dnode := n\<rparr>\<rparr>)"
proof (induction as arbitrary: s)
  case (Cons a as)
  then obtain n1 where n1: "node_do (dnode (sdb s)) a = Some n1" "node_run n1 as = Some n" by (auto split: option.splits)
  let ?s = "s\<lparr>sdb := (sdb s)\<lparr>dnode := n1\<rparr>\<rparr>"
  have "sys_step s ?s"
  proof (cases a)
    case (NProcess m)
    then show ?thesis using n1(1) by (auto split: option.splits sum.splits intro: sys_step.message)
  next
    case NTick
    then show ?thesis using n1(1) sys_step.clock by auto
  next
    case (NLoop ch)
    then show ?thesis using n1(1) by (auto split: option.splits sum.splits if_splits intro: sys_step.raft_loop)
  qed
  then have "sys_reach d ?s" by (rule sys_reach.more [OF Cons.prems(1)])
  from Cons.IH [OF this] n1(2) show ?case by simp
next
  case Nil
  then have "s\<lparr>sdb := (sdb s)\<lparr>dnode := n\<rparr>\<rparr> = s" by (cases s; cases "sdb s") simp
  then show ?case using Nil.prems(1) by simp
qed

definition lead_run :: "nact list" where
  "lead_run = concat (replicate 9 [NTick, NLoop ChTick]) @ [NLoop ChReady, NProcess (no_message\<lparr>mType := MSG_VOTE_RESP, mTo := 1,
     mFrom := 2, mVoteResp := Some \<lparr>rTerm = 1, VoteGranted = True\<rparr>\<rparr>), NLoop ChProp]"

definition commit_run :: "nact list" where
  "commit_run = [NLoop ChProp, NLoop ChReady, NProcess (ack 2), NLoop ChProp, NLoop ChReady]"

definition put_entry :: "nat \<Rightarrow> log" where
  "put_entry i = \<lparr>Term = 1, Id = 1, Data = Some \<lparr>Op = ''PUT'', Key = ''k'', Val = ''v'', RequestId = i\<rparr>\<rparr>"

lemma lead_commit_run:
  assumes "nraft n0 = NewRaft 1 [2, 3]" "sent n0 = []" "members n0 = {2, 3}" "propc n0 = []" "applyc n0 = []" "tickc n0 = 0"
    "nwal n0 = \<lparr>logs = [], wfile = [], synced = 0, SyncThreshold = 10\<rparr>"
  obtains n n1 n2 where "node_run n0 lead_run = Some n" and "node_Process n (proposal ''k'' ''v'' i) False True = Some (Inr (n1, no_message))"
    and "node_run n1 commit_run = Some n2" and "applied (nraft n2) = [put_entry i]"
proof -
  have "\<exists>n n1 n2. node_run n0 lead_run = Some n \<and> node_Process n (proposal ''k'' ''v'' i) False True = Some (Inr (n1, no_message))
    \<and> node_run n1 commit_run = Some n2 \<and> applied (nraft n2) = [put_entry i]"
    by (simp add: lead_run_def commit_run_def put_entry_def proposal_def ack_def go_eval iter_fits_def msg_fits_def assms
        applied_def upto_rec1 numeral_eq_Suc replicate_empty cong: eval_congs)
  then show ?thesis by (elim exE conjE) (rule that)
qed

lemma open_three_nodes:
  obtains d where "Open_db (\<lambda>_. Inr three_nodes) (\<lambda>_. []) up up 0 5001 0 0 = Some (Inr d)"
    and "NewRaftNode (Inr three_nodes) [] up up = Inr (dnode d)"
proof -
  obtain n0 where n0: "NewRaftNode (Inr three_nodes) [] up up = Inr n0" by (rule three_nodes_up)
  obtain b where b: "NewBTreeWithPath [] [] = Inr b" "meta b = []" by (rule fresh_tree)
  have "readMeta b = Inr (0, 0)" using b(2) by (simp add: readMeta_def read_i64_def read_uint_def read_full_def)
  then have "ReplayWAL b lm = Some (Inr b)" for lm by (simp add: ReplayWAL_def)
  then have "\<exists>d. Open_db (\<lambda>_. Inr three_nodes) (\<lambda>_. []) up up 0 5001 0 0 = Some (Inr d) \<and> dnode d = n0"
    using n0 b(1) by (simp add: Open_db_def)
  then show ?thesis using n0 that by blast
qed

lemma written_run:
  obtains d s where "Open_db (\<lambda>_. Inr three_nodes) (\<lambda>_. []) up up 0 5001 0 0 = Some (Inr d)" and "sys_reach d s"
    and "hist s = [put_entry (next_id d)]" and "handed_out s = [put_entry (next_id d)]" and "\<exists>ch. calls s = [(next_id d, ch, 0)]"
    and "fits_tree (handed_out s)"
proof -
  obtain d where d: "Open_db (\<lambda>_. Inr three_nodes) (\<lambda>_. []) up up 0 5001 0 0 = Some (Inr d)"
    "NewRaftNode (Inr three_nodes) [] up up = Inr (dnode d)" by (rule open_three_nodes)
  obtain n0 where n0: "NewRaftNode (Inr three_nodes) [] up up = Inr n0" "nraft n0 = NewRaft 1 [2, 3]" "sent n0 = []"
    "members n0 = {2, 3}" "propc n0 = []" "applyc n0 = []" "tickc n0 = 0"
    "nwal n0 = \<lparr>logs = [], wfile = [], synced = 0, SyncThreshold = 10\<rparr>" by (rule three_nodes_up)
  have dn: "dnode d = n0" using d(2) n0(1) by simp
  obtain n n1 n2 where n: "node_run n0 lead_run = Some n" "node_Process n (proposal ''k'' ''v'' (next_id d)) False True = Some (Inr (n1, no_message))"
    "node_run n1 commit_run = Some n2" "applied (nraft n2) = [put_entry (next_id d)]"
    by (rule lead_commit_run [OF n0(2-8)])
  let ?s1 = "(sys_start d)\<lparr>sdb := d\<lparr>dnode := n\<rparr>\<rparr>"
  have s1: "sys_reach d ?s1" using node_run_sys [OF sys_reach.start, of d] n(1) dn by (simp add: sys_start_def)
  obtain b where b: "core d = Some (Inr (new_core b))" by (rule Open_db_new [OF d(1)])
  obtain ch d1 where put: "db_Put (d\<lparr>dnode := n\<rparr>) ''k'' ''v'' False True = Some (Inr ch, d1)" "dnode d1 = n1"
    using n(2) b by (auto simp: db_Put_def Let_def split_def next_id_def)
  have id: "next_id (d\<lparr>dnode := n\<rparr>) = next_id d" by (simp add: next_id_def)
  let ?s2 = "?s1\<lparr>sdb := d1, calls := [(next_id d, ch, 0)]\<rparr>"
  have "sys_step ?s1 ?s2"
    using sys_step.client_put [of ?s1 "''k''" "''v''" False True ch d1] put(1) id by (simp add: sys_start_def)
  then have s2: "sys_reach d ?s2" by (rule sys_reach.more [OF s1])
  let ?s3 = "?s2\<lparr>sdb := d1\<lparr>dnode := n2\<rparr>\<rparr>"
  have s3: "sys_reach d ?s3" using node_run_sys [OF s2, of commit_run n2] n(3) put(2) by simp
  have out: "handed_out ?s3 = [put_entry (next_id d)]" using n(4) by (simp add: handed_out_def)
  then have fit: "fits_tree (handed_out ?s3)" by (simp add: fits_tree_def put_entry_def maxInternalNodeCells_def)
  obtain s' where "sys_reach d s'" "hist s' = handed_out ?s3" "handed_out s' = handed_out ?s3" "calls s' = calls ?s3"
    using sys_drain [OF d(1) s3 fit] by blast
  then show ?thesis using that [OF d(1), of s'] out fit by simp
qed

section \<open>Properties\<close>

text \<open>
  C6: a node of the database refines its log. From a first start on empty files, in every interleaving of
  clients, messages, ticks, the run loop, the apply loop and the worker in which the appends a follower
  steps continue its log, proposals are stepped by leaders only, and terms stay below the end of \<^verbatim>\<open>int64\<close>,
  and as long as the log handed out for application fits the tree (commands only, fewer than 290 entries,
  no key below the first one's): no job has panicked or hangs, the entries executed are a prefix of those
  the Raft log has handed out, in the order of the log, and every \<^verbatim>\<open>Get\<close> returns at once with the value of
  the last executed entry for its key.
\<close>

theorem db_refines_log:
  assumes "Open_db load (\<lambda>_. []) dial listen nanos port pt rt = Some (Inr d)" and "sys_reach d s" and "fits_tree (handed_out s)"
  shows "\<exists>c. core (sdb s) = Some (Inr c) \<and> prefix (hist s) (handed_out s) \<and> get_wait c = (closec, c)
    \<and> (\<forall>key pick. get_select c closec key False pick = Some (case map_of (rev (map kv_of (hist s))) key of
         None \<Rightarrow> Inl (GoErr ''get: key not found'') | Some v \<Rightarrow> Inr (c, v)))"
proof -
  have inv: "sys_inv (handed_out s) s" by (rule sys_reach_inv [OF assms]) simp
  then obtain c where c: "core (sdb s) = Some (Inr c)" "core_ok 0 c" "contents (kv c) = map_of (rev (map kv_of (hist s)))"
    by (auto simp: sys_inv_def tree_state_def)
  moreover have "prefix (hist s) (handed_out s)" using inv by (auto simp: sys_inv_def)
  ultimately show ?thesis using get_wait_ok [OF c(2)] get_select_ok [OF c(2)] by auto
qed

theorem db_refines_log_witness:
  "\<exists>d s c. Open_db (\<lambda>_. Inr three_nodes) (\<lambda>_. []) up up 0 5001 0 0 = Some (Inr d) \<and> sys_reach d s
     \<and> core (sdb s) = Some (Inr c) \<and> get_select c closec ''k'' False False = Some (Inr (c, ''v''))"
proof -
  obtain d s where d: "Open_db (\<lambda>_. Inr three_nodes) (\<lambda>_. []) up up 0 5001 0 0 = Some (Inr d)" "sys_reach d s"
    "hist s = [put_entry (next_id d)]" "fits_tree (handed_out s)" by (rule written_run)
  have "map_of (rev (map kv_of (hist s))) ''k'' = Some ''v''" by (simp add: d(3) kv_of_def put_entry_def cmd_key_def cmd_val_def)
  then show ?thesis using db_refines_log [OF d(1,2,4)] d(1,2) by auto
qed

text \<open>
  C9: \<^verbatim>\<open>Put\<close> is acknowledged exactly when its entry has been applied. Under the conditions of the
  refinement (first start on empty files, appends that continue the log, a log handed out that fits the
  tree), a call of \<^verbatim>\<open>Put\<close> that is waiting on its channel and has not run into its timeout returns without
  an error if an entry with its request identifier has been executed since the call, and waits otherwise.
\<close>

theorem db_ack_applied:
  assumes "Open_db load (\<lambda>_. []) dial listen nanos port pt rt = Some (Inr d)" and "sys_reach d s" and "fits_tree (handed_out s)"
    and "(i, ch, n) \<in> set (calls s)"
  shows "\<exists>c. core (sdb s) = Some (Inr c)
    \<and> put_select c ch False pick = (if i \<in> request_of ` set (drop n (hist s)) then Some (Inr ()) else None)"
proof -
  have "sys_inv (handed_out s) s" by (rule sys_reach_inv [OF assms(1-3)]) simp
  then obtain c where c: "core (sdb s) = Some (Inr c)" "core_ok 0 c" "calls_ok s c" by (auto simp: sys_inv_def tree_state_def)
  have "chans (dwaiter c) i = Some ch \<Longrightarrow> ch \<notin> closed (wheap (dwaiter c))"
    using c(2) write_waits.waits_open by (auto simp: core_ok_def)
  moreover have "call_ok (hist s) (dwaiter c) (i, ch, n)" using c(3) assms(4) by (simp add: calls_ok_def)
  ultimately show ?thesis using c(1) by (auto simp: call_ok_def put_select_def split: if_splits)
qed

theorem db_ack_applied_witness:
  "\<exists>d s c ch. Open_db (\<lambda>_. Inr three_nodes) (\<lambda>_. []) up up 0 5001 0 0 = Some (Inr d) \<and> sys_reach d s
     \<and> calls s = [(next_id d, ch, 0)] \<and> core (sdb s) = Some (Inr c) \<and> put_select c ch False False = Some (Inr ())"
proof -
  obtain d s where d: "Open_db (\<lambda>_. Inr three_nodes) (\<lambda>_. []) up up 0 5001 0 0 = Some (Inr d)" "sys_reach d s"
    "hist s = [put_entry (next_id d)]" "\<exists>ch. calls s = [(next_id d, ch, 0)]" "fits_tree (handed_out s)" by (rule written_run)
  then obtain ch where ch: "calls s = [(next_id d, ch, 0)]" by blast
  have "next_id d \<in> request_of ` set (drop 0 (hist s))" by (simp add: d(3) request_of_def put_entry_def)
  then show ?thesis using db_ack_applied [OF d(1,2,5), of "next_id d" ch 0] ch d(1,2) by auto
qed



end
