(* ===== verification/Raft_Replication.thy ===== *)
theory Raft_Replication
  imports Raft_Cluster Raft_Props "HOL-Library.Multiset"
begin

text \<open>
  Log replication under a stable leader. The leader takes a proposal only when no append with
  entries and no acknowledgement is under way; appends and heartbeats may be delayed, reordered or
  lost, acknowledgements may be delayed, and every message is delivered at most once. Then the log of
  each follower is a prefix of the leader's log at any moment, and what is committed is on a majority
  of the nodes. The runs of the theory of anomalies show what happens without these conditions.
\<close>

section \<open>The cluster\<close>

record rep_cluster =
  rnodes :: "int \<Rightarrow> raft"
  flight :: "message multiset"

definition outq :: "raft \<Rightarrow> message multiset" where
  "outq r = mset (msgs r) + mset (msgsAfterAppend r)"

definition carries :: "message \<Rightarrow> bool" where
  "carries m \<longleftrightarrow> (case mEntries m of None \<Rightarrow> False | Some ae \<Rightarrow> Entries ae \<noteq> [])"

text \<open>The messages that matter for the log of peer \<open>p\<close>: an append with entries, or a response.\<close>

definition about :: "int \<Rightarrow> message \<Rightarrow> bool" where
  "about p m \<longleftrightarrow> (mType m = MSG_APP \<and> mTo m = p \<and> carries m) \<or> (mType m = MSG_APP_RESP \<and> mFrom m = p)"

definition quiet :: "int list \<Rightarrow> rep_cluster \<Rightarrow> bool" where
  "quiet ms c \<longleftrightarrow> (\<forall>i \<in> set ms. \<forall>m \<in># flight c + outq (rnodes c i). mType m \<noteq> MSG_APP_RESP \<and> \<not> carries m)"

definition put_rnode :: "rep_cluster \<Rightarrow> int \<Rightarrow> raft \<Rightarrow> message multiset \<Rightarrow> rep_cluster" where
  "put_rnode c i r q = \<lparr>rnodes = (rnodes c)(i := r), flight = q\<rparr>"

lemma put_rnode_sel [simp]: "rnodes (put_rnode c i r q) = (rnodes c)(i := r)" "flight (put_rnode c i r q) = q"
  by (simp_all add: put_rnode_def)

text \<open>
  The steps: a client's proposal at the leader \<open>l\<close> of a quiet cluster, the clock of a node (followers
  hear the leader in time), the exchange of a \<^verbatim>\<open>Ready\<close>, a delivery, and a loss.
\<close>

inductive rep_step :: "int list \<Rightarrow> int \<Rightarrow> rep_cluster \<Rightarrow> rep_cluster \<Rightarrow> bool" for ms l where
  propose: "\<lbrakk>quiet ms c; Step (rnodes c l) (proposal k v i) = Inr (r, e)\<rbrakk> \<Longrightarrow>
     rep_step ms l c (put_rnode c l r (flight c))"
| tick: "\<lbrakk>i \<in> set ms; i = l \<or> electionTick (rnodes c i) + 1 < electionTimeout (rnodes c i); Tick (rnodes c i) = Inr r\<rbrakk> \<Longrightarrow>
     rep_step ms l c (put_rnode c i r (flight c))"
| exchange: "\<lbrakk>i \<in> set ms; Ready (rnodes c i) = Some (Inr r); readyc r = [rd]\<rbrakk> \<Longrightarrow>
     rep_step ms l c (put_rnode c i (Advance (r\<lparr>readyc := []\<rparr>))
       (flight c + mset (rdMessages rd) + mset (rdMessagesAfterAppend rd)))"
| deliver: "\<lbrakk>m \<in># flight c; mTo m = i; i \<in> set ms; Step (rnodes c i) m = Inr (r, e)\<rbrakk> \<Longrightarrow>
     rep_step ms l c (put_rnode c i r (flight c - {#m#}))"
| lose: "\<lbrakk>m \<in># flight c; mType m \<noteq> MSG_APP_RESP\<rbrakk> \<Longrightarrow> rep_step ms l c (c\<lparr>flight := flight c - {#m#}\<rparr>)"

inductive_cases rep_stepE: "rep_step ms l c c'"

text \<open>The start: a leader whose peers follow, with the same log and nothing under way.\<close>

definition rep_start :: "int list \<Rightarrow> int \<Rightarrow> rep_cluster \<Rightarrow> bool" where
  "rep_start ms l c \<longleftrightarrow> distinct ms \<and> l \<in> set ms \<and> flight c = {#}
     \<and> state (rnodes c l) = StateLeader \<and> distinct (peers (rnodes c l)) \<and> set (peers (rnodes c l)) = set ms - {l}
     \<and> clusterSize (rnodes c l) = int (length ms) \<and> set (map fst (progress (rnodes c l))) \<subseteq> set ms - {l}
     \<and> (\<forall>p \<in> set ms - {l}. prog_of (rnodes c l) p = \<lparr>matchIndex = 0, nextIndex = lastIndex (raftlog (rnodes c l)) + 1\<rparr>)
     \<and> (\<forall>i \<in> set ms. raft_ok (rnodes c i) \<and> ID (rnodes c i) = i \<and> readyc (rnodes c i) = [] \<and> outq (rnodes c i) = {#}
          \<and> currentTerm (rnodes c i) \<le> currentTerm (rnodes c l)
          \<and> commitIndex (raftlog (rnodes c i)) \<le> commitIndex (raftlog (rnodes c l))
          \<and> entries (raftlog (rnodes c i)) = entries (raftlog (rnodes c l)) \<and> (i \<noteq> l \<longrightarrow> state (rnodes c i) = StateFollower))"

inductive rep_reach :: "int list \<Rightarrow> int \<Rightarrow> rep_cluster \<Rightarrow> bool" for ms l where
  start: "rep_start ms l c \<Longrightarrow> rep_reach ms l c"
| step: "rep_reach ms l c \<Longrightarrow> rep_step ms l c c' \<Longrightarrow> rep_reach ms l c'"

section \<open>The invariant\<close>

definition rlog :: "rep_cluster \<Rightarrow> int \<Rightarrow> log list" where
  "rlog c i = entries (raftlog (rnodes c i))"

definition rcommit :: "rep_cluster \<Rightarrow> int \<Rightarrow> int" where
  "rcommit c i = commitIndex (raftlog (rnodes c i))"

definition leader_inv :: "int list \<Rightarrow> int \<Rightarrow> raft \<Rightarrow> bool" where
  "leader_inv ms l r \<longleftrightarrow> raft_ok r \<and> ID r = l \<and> state r = StateLeader \<and> readyc r = [] \<and> distinct (peers r)
     \<and> set (peers r) = set ms - {l} \<and> clusterSize r = int (length ms) \<and> set (map fst (progress r)) \<subseteq> set ms - {l}"

definition follower_inv :: "raft \<Rightarrow> int \<Rightarrow> raft \<Rightarrow> bool" where
  "follower_inv lead p r \<longleftrightarrow> raft_ok r \<and> ID r = p \<and> state r = StateFollower \<and> readyc r = []
     \<and> currentTerm r \<le> currentTerm lead \<and> commitIndex (raftlog r) \<le> commitIndex (raftlog lead)
     \<and> matchIndex (prog_of lead p) \<le> int (length (entries (raftlog r)))
     \<and> (\<forall>m \<in># outq r. mType m = MSG_APP_RESP \<and> mFrom m = p)"

definition ack_of :: "raft \<Rightarrow> int \<Rightarrow> message" where
  "ack_of lead p = no_message\<lparr>mType := MSG_APP_RESP, mTo := ID lead, mFrom := p,
     mEntriesResp := Some \<lparr>CurrentTerm = currentTerm lead, Success = True\<rparr>\<rparr>"

definition append_of :: "raft \<Rightarrow> int \<Rightarrow> int \<Rightarrow> message" where
  "append_of lead p k = append_for (lead\<lparr>raftlog := (raftlog lead)\<lparr>commitIndex := k\<rparr>\<rparr>) (entries (raftlog lead)) p"

definition pend :: "message multiset \<Rightarrow> raft \<Rightarrow> int \<Rightarrow> raft \<Rightarrow> message multiset" where
  "pend q lead p r = filter_mset (about p) (q + outq lead + outq r)"

text \<open>Where the replication of the leader's log to a peer stands: nothing under way, the append, or its acknowledgement.\<close>

definition phase :: "message multiset \<Rightarrow> raft \<Rightarrow> int \<Rightarrow> raft \<Rightarrow> bool" where
  "phase q lead p r \<longleftrightarrow>
     (let es = entries (raftlog lead); known = take (nat (nextIndex (prog_of lead p) - 1)) es
      in pend q lead p r = {#} \<and> entries (raftlog r) = known
       \<or> (\<exists>k \<le> commitIndex (raftlog lead). pend q lead p r = {#append_of lead p k#} \<and> carries (append_of lead p k)
            \<and> entries (raftlog r) = known)
       \<or> pend q lead p r = {#ack_of lead p#} \<and> entries (raftlog r) = es)"

definition beat_ok :: "raft \<Rightarrow> message \<Rightarrow> raft \<Rightarrow> bool" where
  "beat_ok lead m r \<longleftrightarrow> mType m = MSG_APP \<and> mFrom m = ID lead \<and> (\<exists>prev prevTerm k.
     mEntries m = Some \<lparr>aTerm = currentTerm lead, LeaderId = ID lead, PrevLogIdx = prev, PrevLogTerm = prevTerm,
       Entries = [], LeaderCommitIdx = k\<rparr>
     \<and> 0 \<le> prev \<and> prev \<le> int (length (entries (raftlog r)))
     \<and> (0 < prev \<longrightarrow> prevTerm = Term (entries (raftlog r) ! nat (prev - 1))) \<and> k \<le> commitIndex (raftlog lead))"

definition rep_inv :: "int list \<Rightarrow> int \<Rightarrow> rep_cluster \<Rightarrow> bool" where
  "rep_inv ms l c \<longleftrightarrow> distinct ms \<and> l \<in> set ms \<and> leader_inv ms l (rnodes c l)
     \<and> (\<forall>p \<in> set ms - {l}. follower_inv (rnodes c l) p (rnodes c p) \<and> phase (flight c) (rnodes c l) p (rnodes c p))
     \<and> (\<forall>m \<in># flight c + outq (rnodes c l). \<exists>p \<in> set ms - {l}. about p m \<or> mTo m = p \<and> beat_ok (rnodes c l) m (rnodes c p))
     \<and> majority ms {i \<in> set ms. rcommit c l \<le> int (length (rlog c i))}"

section \<open>What a follower does with an append\<close>

definition prev_ok :: "raftLog \<Rightarrow> append_entries \<Rightarrow> bool" where
  "prev_ok lg ae \<longleftrightarrow> 0 \<le> PrevLogIdx ae \<and> PrevLogIdx ae \<le> int (length (entries lg))
     \<and> (0 < PrevLogIdx ae \<longrightarrow> PrevLogTerm ae = Term (entries lg ! nat (PrevLogIdx ae - 1)))"

lemma prev_ok_match:
  assumes "log_wf lg" and "prev_ok lg ae"
  shows "prev_mismatch lg (PrevLogIdx ae) (PrevLogTerm ae) = Inr False"
  using assms log_term_wf [of lg "PrevLogIdx ae"] by (auto simp: prev_mismatch_def prev_ok_def log_wf_def lastIndex_wf)

lemma follower_append:
  assumes ok: "raft_ok r" and st: "state r = StateFollower" and m: "mType m = MSG_APP" "mEntries m = Some ae"
    and t: "currentTerm r \<le> aTerm ae" and prev: "prev_ok (raftlog r) ae"
    and fits: "\<forall>i < length (Entries ae). Id (Entries ae ! i) = int (length (entries (raftlog r)) + i) + 1"
  shows "\<exists>r'. Step r m = Inr (r', None) \<and> raft_ok r' \<and> state r' = StateFollower \<and> ID r' = ID r \<and> readyc r' = readyc r
    \<and> currentTerm r' = aTerm ae \<and> entries (raftlog r') = entries (raftlog r) @ Entries ae
    \<and> commitIndex (raftlog r') \<le> max (commitIndex (raftlog r)) (LeaderCommitIdx ae)
    \<and> outq r' = outq r + (if Entries ae = [] then {#} else {#append_resp (r\<lparr>currentTerm := aTerm ae\<rparr>) (mFrom m) True#})"
proof -
  let ?z = "r\<lparr>electionTick := 0\<rparr>"
  define r1 where "r1 = (if aTerm ae > currentTerm ?z then becomeFollower ?z (aTerm ae) else ?z)"
  define r2 where "r2 = (if Entries ae \<noteq> [] then r1\<lparr>raftlog := log_append (raftlog r1) (Entries ae)\<rparr> else r1)"
  define r3 where "r3 = (if LeaderCommitIdx ae > commitIndex (raftlog r2)
    then r2\<lparr>raftlog := log_maybeCommit (raftlog r2) (min (LeaderCommitIdx ae) (lastIndex (raftlog r2)))\<rparr> else r2)"
  define r4 where "r4 = (if Entries ae \<noteq> [] then sendAppendResponseAfterPersist r3 (mFrom m) True else r3)"
  have r1: "raftlog r1 = raftlog r" "currentTerm r1 = aTerm ae" "state r1 = StateFollower" "ID r1 = ID r"
    "readyc r1 = readyc r" "msgs r1 = msgs r" "msgsAfterAppend r1 = msgsAfterAppend r"
    using t st by (auto simp: r1_def)
  have wf: "log_wf (raftlog r)" using ok by (simp add: raft_ok_def)
  have eq: "handleAppendEntries ?z m = Inr r4"
  proof -
    have "\<not> aTerm ae < currentTerm ?z" using t by simp
    moreover have "prev_mismatch (raftlog r1) (PrevLogIdx ae) (PrevLogTerm ae) = Inr False"
      using prev_ok_match [OF wf prev] r1(1) by simp
    ultimately show ?thesis
      by (simp only: handleAppendEntries_def m(2) option.case if_False Let_def r1_def [symmetric] bindr.simps
          r2_def [symmetric] r3_def [symmetric] r4_def [symmetric])
  qed
  have "\<exists>r'. handleAppendEntries ?z m = Inr r' \<and> raft_ok r'"
    by (rule handleAppendEntries_ok) (use ok m(2) fits in auto)
  then have ok4: "raft_ok r4" using eq by simp
  have "Step r m = Inr (r4, None)"
    using eq ok st m(1) by (simp add: Step_def stepFollower_def done_step_def raft_ok_def role_ok_def)
  moreover have "entries (raftlog r4) = entries (raftlog r) @ Entries ae"
    "commitIndex (raftlog r4) \<le> max (commitIndex (raftlog r)) (LeaderCommitIdx ae)"
    using r1(1) by (auto simp: r4_def r3_def r2_def log_append_def log_maybeCommit_def sendAppendResponseAfterPersist_def)
  moreover have "outq r4 = outq r + (if Entries ae = [] then {#} else {#append_resp (r\<lparr>currentTerm := aTerm ae\<rparr>) (mFrom m) True#})"
    using r1 by (auto simp: r4_def r3_def r2_def sendAppendResponseAfterPersist_def append_resp_def outq_def)
  moreover have "state r4 = StateFollower" "ID r4 = ID r" "readyc r4 = readyc r" "currentTerm r4 = aTerm ae"
    using r1 by (auto simp: r4_def r3_def r2_def sendAppendResponseAfterPersist_def)
  ultimately show ?thesis using ok4 by (intro exI [of _ r4]) simp
qed

section \<open>Replacing one node\<close>

lemma beat_ok_grow:
  assumes "beat_ok lead m r" and "ID lead' = ID lead" and "currentTerm lead' = currentTerm lead"
    and "commitIndex (raftlog lead) \<le> commitIndex (raftlog lead')" and "entries (raftlog r') = entries (raftlog r) @ xs"
  shows "beat_ok lead' m r'"
proof -
  from assms(1) obtain prev prevTerm k where m: "mType m = MSG_APP" "mFrom m = ID lead"
    "mEntries m = Some \<lparr>aTerm = currentTerm lead, LeaderId = ID lead, PrevLogIdx = prev, PrevLogTerm = prevTerm,
       Entries = [], LeaderCommitIdx = k\<rparr>" "0 \<le> prev" "prev \<le> int (length (entries (raftlog r)))"
    "0 < prev \<Longrightarrow> prevTerm = Term (entries (raftlog r) ! nat (prev - 1))" "k \<le> commitIndex (raftlog lead)"
    by (auto simp: beat_ok_def)
  then show ?thesis using assms(2-5) by (auto simp: beat_ok_def nth_append)
qed

lemma majority_mono:
  assumes "majority ms P" and "P \<subseteq> Q" and "Q \<subseteq> set ms"
  shows "majority ms Q"
proof -
  have "card P \<le> card Q" using assms(2,3) finite_subset by (intro card_mono) auto
  then show ?thesis using assms(1,3) by (simp add: majority_def)
qed

lemma rep_inv_follower:
  assumes inv: "rep_inv ms l c" and p: "p \<in> set ms - {l}" and f: "follower_inv (rnodes c l) p r"
    and ph: "phase q (rnodes c l) p r" and grow: "\<exists>xs. entries (raftlog r) = rlog c p @ xs"
    and q: "\<forall>p' \<in> set ms - {l}. p' \<noteq> p \<longrightarrow> filter_mset (about p') q = filter_mset (about p') (flight c)"
    and new: "\<forall>m \<in># q. m \<in># flight c \<or> about p m"
  shows "rep_inv ms l (put_rnode c p r q)"
proof -
  let ?lead = "rnodes c l"
  obtain xs where xs: "entries (raftlog r) = entries (raftlog (rnodes c p)) @ xs" using grow by (auto simp: rlog_def)
  have pl: "p \<noteq> l" using p by simp
  have "phase q ?lead p' (rnodes c p')" if p': "p' \<in> set ms - {l}" "p' \<noteq> p" for p'
  proof -
    have "pend q ?lead p' (rnodes c p') = pend (flight c) ?lead p' (rnodes c p')"
      using q p' by (simp add: pend_def)
    moreover have "phase (flight c) ?lead p' (rnodes c p')" using inv p'(1) by (simp add: rep_inv_def)
    ultimately show ?thesis by (simp add: phase_def)
  qed
  moreover have "\<exists>p' \<in> set ms - {l}. about p' m \<or> mTo m = p' \<and> beat_ok ?lead m (((rnodes c)(p := r)) p')"
    if m: "m \<in># q + outq ?lead" for m
  proof (cases "about p m")
    case False
    then have "m \<in># flight c + outq ?lead" using m new by auto
    then obtain p' where p': "p' \<in> set ms - {l}" "about p' m \<or> mTo m = p' \<and> beat_ok ?lead m (rnodes c p')"
      using inv unfolding rep_inv_def by blast
    then have "about p' m \<or> mTo m = p' \<and> beat_ok ?lead m (((rnodes c)(p := r)) p')"
      using beat_ok_grow [OF _ _ _ _ xs, of ?lead m ?lead] by auto
    with p'(1) show ?thesis by blast
  qed (use p in blast)
  moreover have "majority ms {i \<in> set ms. rcommit (put_rnode c p r q) l \<le> int (length (rlog (put_rnode c p r q) i))}"
  proof (rule majority_mono)
    show "majority ms {i \<in> set ms. rcommit c l \<le> int (length (rlog c i))}" using inv by (simp add: rep_inv_def)
  qed (use pl xs in \<open>auto simp: rcommit_def rlog_def\<close>)
  ultimately show ?thesis
    using inv f ph p pl unfolding rep_inv_def put_rnode_sel by (simp add: Ball_def)
qed

lemma rep_inv_leader:
  assumes inv: "rep_inv ms l c" and lead: "leader_inv ms l r"
    and t: "currentTerm r = currentTerm (rnodes c l)" and mono: "rcommit c l \<le> commitIndex (raftlog r)"
    and mt: "\<forall>p \<in> set ms - {l}. matchIndex (prog_of r p) \<le> int (length (rlog c p))"
    and ph: "\<forall>p \<in> set ms - {l}. phase q r p (rnodes c p)"
    and new: "\<forall>m \<in># q + outq r. m \<in># flight c + outq (rnodes c l)
      \<or> (\<exists>p \<in> set ms - {l}. about p m \<or> mTo m = p \<and> beat_ok r m (rnodes c p))"
    and maj: "majority ms {i \<in> set ms. commitIndex (raftlog r) \<le> int (length (if i = l then entries (raftlog r) else rlog c i))}"
  shows "rep_inv ms l (put_rnode c l r q)"
proof -
  let ?lead = "rnodes c l"
  have id: "ID r = ID ?lead" using inv lead by (simp add: rep_inv_def leader_inv_def)
  have "\<exists>p \<in> set ms - {l}. about p m \<or> mTo m = p \<and> beat_ok r m (rnodes c p)" if m: "m \<in># q + outq r" for m
  proof (cases "m \<in># flight c + outq ?lead")
    case True
    then obtain p where p: "p \<in> set ms - {l}" "about p m \<or> mTo m = p \<and> beat_ok ?lead m (rnodes c p)"
      using inv unfolding rep_inv_def by blast
    then have "about p m \<or> mTo m = p \<and> beat_ok r m (rnodes c p)"
      using beat_ok_grow [of ?lead m "rnodes c p" r "rnodes c p" "[]"] id t mono by (auto simp: rcommit_def)
    with p(1) show ?thesis by blast
  qed (use m new in blast)
  moreover have "follower_inv r p (rnodes c p)" if "p \<in> set ms - {l}" for p
  proof -
    have "follower_inv ?lead p (rnodes c p)" using inv that by (simp add: rep_inv_def)
    moreover have "matchIndex (prog_of r p) \<le> int (length (entries (raftlog (rnodes c p))))"
      using mt that by (simp add: rlog_def)
    ultimately show ?thesis using t mono by (simp add: follower_inv_def rcommit_def)
  qed
  moreover have "{i \<in> set ms. rcommit (put_rnode c l r q) l \<le> int (length (rlog (put_rnode c l r q) i))}
      = {i \<in> set ms. commitIndex (raftlog r) \<le> int (length (if i = l then entries (raftlog r) else rlog c i))}"
    by (auto simp: rcommit_def rlog_def)
  ultimately show ?thesis
    using inv lead ph maj unfolding rep_inv_def put_rnode_sel by (simp add: Ball_def)
qed

section \<open>Every step keeps the invariant\<close>

lemma exchange_node:
  assumes "raft_ok r" and "readyc r = []" and "Ready r = Some (Inr r1)" and "readyc r1 = [rd]"
  defines "r' \<equiv> Advance (r1\<lparr>readyc := []\<rparr>)"
  shows "raft_ok r' \<and> readyc r' = [] \<and> outq r' = {#} \<and> mset (rdMessages rd) + mset (rdMessagesAfterAppend rd) = outq r"
    and "entries (raftlog r') = entries (raftlog r) \<and> commitIndex (raftlog r') = commitIndex (raftlog r) \<and> currentTerm r' = currentTerm r
      \<and> state r' = state r \<and> ID r' = ID r \<and> peers r' = peers r \<and> clusterSize r' = clusterSize r \<and> progress r' = progress r"
proof -
  have wf: "log_wf (raftlog r)" using assms(1) by (simp add: raft_ok_def)
  have has: "has_ready r" using assms(2-4) Ready_eq [OF wf assms(2)] by (auto split: if_splits)
  let ?r = "r\<lparr>msgs := [], msgsAfterAppend := [], readyc := []\<rparr>"
  have r: "raft_ok ?r" using assms(1) by (simp add: raft_ok_def role_ok_def votes_ok_def prog_ok_def prog_of_def)
  have r1: "r1\<lparr>readyc := []\<rparr> = ?r" "rdMessages rd = msgs r" "rdMessagesAfterAppend rd = msgsAfterAppend r"
    using assms(3,4) Ready_eq [OF wf assms(2)] has by auto
  have adv: "Advance ?r = ?r\<lparr>raftlog := raftlog (Advance ?r)\<rparr>" by (simp add: Advance_def Let_def)
  have lg: "raftlog (Advance ?r) = (raftlog r)\<lparr>stableIndex := int (length (entries (raftlog r))), lastApplied := commitIndex (raftlog r)\<rparr>"
    using Advance_log [of ?r] wf by simp
  have r': "r' = ?r\<lparr>raftlog := raftlog (Advance ?r)\<rparr>" unfolding r'_def r1(1) by (rule adv)
  show "raft_ok r' \<and> readyc r' = [] \<and> outq r' = {#} \<and> mset (rdMessages rd) + mset (rdMessagesAfterAppend rd) = outq r"
    using Advance_ok [OF r] r1 by (simp add: r'_def outq_def) (simp add: Advance_def Let_def)
  show "entries (raftlog r') = entries (raftlog r) \<and> commitIndex (raftlog r') = commitIndex (raftlog r) \<and> currentTerm r' = currentTerm r
      \<and> state r' = state r \<and> ID r' = ID r \<and> peers r' = peers r \<and> clusterSize r' = clusterSize r \<and> progress r' = progress r"
    unfolding r' lg by simp
qed

lemma phase_cong:
  assumes "phase q lead p r" and "pend q' lead' p r' = pend q lead p r"
    and "entries (raftlog lead') = entries (raftlog lead)" and "prog_of lead' p = prog_of lead p" and "ID lead' = ID lead"
    and "currentTerm lead' = currentTerm lead" and "commitIndex (raftlog lead) \<le> commitIndex (raftlog lead')"
    and "entries (raftlog r') = entries (raftlog r)"
  shows "phase q' lead' p r'"
proof -
  have "append_of lead' p k = append_of lead p k" for k
    using assms(3-6) by (simp add: append_of_def append_for_def prog_of_def Let_def)
  moreover have "ack_of lead' p = ack_of lead p" using assms(5,6) by (simp add: ack_of_def)
  moreover have "k \<le> commitIndex (raftlog lead) \<Longrightarrow> k \<le> commitIndex (raftlog lead')" for k using assms(7) by simp
  ultimately show ?thesis using assms(1,2,3,4,8) unfolding phase_def Let_def by metis
qed

lemma exchange_inv:
  assumes inv: "rep_inv ms l c" and i: "i \<in> set ms" and r: "Ready (rnodes c i) = Some (Inr r)" "readyc r = [rd]"
  shows "rep_inv ms l (put_rnode c i (Advance (r\<lparr>readyc := []\<rparr>))
    (flight c + mset (rdMessages rd) + mset (rdMessagesAfterAppend rd)))"
proof -
  let ?r = "Advance (r\<lparr>readyc := []\<rparr>)" and ?lead = "rnodes c l"
  have lead: "leader_inv ms l ?lead" using inv by (simp add: rep_inv_def)
  have foll: "follower_inv ?lead p (rnodes c p)" "phase (flight c) ?lead p (rnodes c p)" if "p \<in> set ms - {l}" for p
    using inv that by (simp_all add: rep_inv_def)
  have ok: "raft_ok (rnodes c i)" "readyc (rnodes c i) = []"
    using lead foll(1) [of i] i by (cases "i = l"; simp add: leader_inv_def follower_inv_def)+
  note ex = exchange_node [OF ok r]
  have q: "flight c + mset (rdMessages rd) + mset (rdMessagesAfterAppend rd) = flight c + outq (rnodes c i)"
    using ex(1) by (metis add.assoc)
  show ?thesis unfolding q
  proof (cases "i = l")
    case True
    have pr: "prog_of ?r p = prog_of ?lead p" for p using ex(2) True by (simp add: prog_of_def)
    show "rep_inv ms l (put_rnode c i ?r (flight c + outq (rnodes c i)))" unfolding True
    proof (rule rep_inv_leader [OF inv])
      show "leader_inv ms l ?r" using lead ex True by (simp add: leader_inv_def)
      show "\<forall>p \<in> set ms - {l}. phase (flight c + outq ?lead) ?r p (rnodes c p)"
        using phase_cong [OF foll(2)] ex pr True by (simp add: pend_def)
      show "\<forall>p \<in> set ms - {l}. matchIndex (prog_of ?r p) \<le> int (length (rlog c p))"
        using foll(1) pr by (simp add: follower_inv_def rlog_def)
      have "{i \<in> set ms. commitIndex (raftlog ?r) \<le> int (length (if i = l then entries (raftlog ?r) else rlog c i))}
          = {i \<in> set ms. rcommit c l \<le> int (length (rlog c i))}"
        using ex(2) True by (auto simp: rcommit_def rlog_def)
      then show "majority ms {i \<in> set ms. commitIndex (raftlog ?r) \<le> int (length (if i = l then entries (raftlog ?r) else rlog c i))}"
        using inv by (simp add: rep_inv_def)
    qed (use ex True in \<open>simp_all add: rcommit_def\<close>)
  next
    case False
    with i have p: "i \<in> set ms - {l}" by simp
    show "rep_inv ms l (put_rnode c i ?r (flight c + outq (rnodes c i)))"
    proof (rule rep_inv_follower [OF inv p])
      show "follower_inv ?lead i ?r" using foll(1) [OF p] ex by (simp add: follower_inv_def)
      show "phase (flight c + outq (rnodes c i)) ?lead i ?r"
        by (rule phase_cong [OF foll(2) [OF p]]) (use ex in \<open>simp_all add: pend_def\<close>)
      have out: "\<forall>m \<in># outq (rnodes c i). mType m = MSG_APP_RESP \<and> mFrom m = i" using foll(1) [OF p] by (simp add: follower_inv_def)
      then have "filter_mset (about p') (outq (rnodes c i)) = {#}" if "p' \<noteq> i" for p'
        using that by (auto simp: about_def filter_mset_eq_conv)
      then show "\<forall>p' \<in> set ms - {l}. p' \<noteq> i \<longrightarrow> filter_mset (about p') (flight c + outq (rnodes c i)) = filter_mset (about p') (flight c)"
        by simp
      show "\<forall>m \<in># flight c + outq (rnodes c i). m \<in># flight c \<or> about i m" using out by (auto simp: about_def)
    qed (use ex in \<open>simp add: rlog_def\<close>)
  qed
qed

lemma phase_prefix:
  assumes "phase q lead p r"
  shows "entries (raftlog r) = take (length (entries (raftlog r))) (entries (raftlog lead))"
  using assms by (auto simp: phase_def Let_def min_def)

lemma phase_nth:
  assumes "phase q lead p r" and "j < length (entries (raftlog r))"
  shows "entries (raftlog r) ! j = entries (raftlog lead) ! j"
  using phase_prefix [OF assms(1)] assms(2) by (metis nth_take)

lemma heartbeat_msgs_each:
  "heartbeat_msgs r ps = Inr hs \<Longrightarrow> m \<in> set hs \<Longrightarrow> \<exists>p \<in> set ps. heartbeat_msg r p = Inr m"
  by (induction ps arbitrary: hs) (auto simp: bindr_Inr_iff)

lemma Tick_leader:
  assumes "raft_ok r" and "state r = StateLeader" and "Tick r = Inr r'"
  shows "\<exists>hs t. r' = r\<lparr>heartbeatTick := t, msgs := msgs r @ hs\<rparr> \<and> (\<forall>m \<in> set hs. \<exists>p \<in> set (peers r). heartbeat_msg r p = Inr m)"
proof -
  have roles: "tickf r = Some StateLeader" "stepf r = Some StateLeader" using assms(1,2) by (simp_all add: raft_ok_def role_ok_def)
  show ?thesis
  proof (cases "heartbeatTick r + 1 \<ge> heartbeatTimeout r")
    case False
    then have "r' = r\<lparr>heartbeatTick := heartbeatTick r + 1, msgs := msgs r @ []\<rparr>"
      using assms(3) roles by (auto simp: Tick_def tickLeader_def Let_def)
    then show ?thesis by (intro exI [of _ "[]"] exI [of _ "heartbeatTick r + 1"]) simp
  next
    case True
    let ?z = "r\<lparr>heartbeatTick := 0\<rparr>"
    have eq: "heartbeat_msg ?z p = heartbeat_msg r p" for p by (simp add: heartbeat_msg_def prog_of_def)
    obtain hs where hs: "heartbeat_msgs ?z (peers ?z) = Inr hs" using heartbeat_msgs_ok [of ?z] assms(1) by auto
    then have "r' = ?z\<lparr>msgs := msgs ?z @ hs\<rparr>"
      using True assms(3) roles by (simp add: Tick_def tickLeader_def Let_def Step_def stepLeader_def no_message_def done_step_def broadcastHeartbeat_def)
    moreover have "\<forall>m \<in> set hs. \<exists>p \<in> set (peers r). heartbeat_msg r p = Inr m"
      using heartbeat_msgs_each [OF hs] unfolding eq by simp
    ultimately show ?thesis by (intro exI [of _ hs] exI [of _ 0]) simp
  qed
qed

lemma heartbeat_ok:
  assumes lead: "leader_inv ms l lead" and f: "follower_inv lead p r" and ph: "phase q lead p r" and m: "heartbeat_msg lead p = Inr m"
  shows "mTo m = p \<and> beat_ok lead m r \<and> \<not> about p' m"
proof -
  let ?k = "matchIndex (prog_of lead p)"
  have pos: "positions (entries (raftlog lead))" and k: "0 \<le> ?k" "?k \<le> int (length (entries (raftlog r)))"
    using lead f by (auto simp: leader_inv_def follower_inv_def raft_ok_def log_wf_def prog_ok_def)
  have le: "length (entries (raftlog r)) \<le> length (entries (raftlog lead))"
    using phase_prefix [OF ph] by (metis length_take min.cobounded1 min_def nat_le_linear)
  have "log_term (raftlog lead) ?k = Inr (if ?k = 0 then 0 else Term (entries (raftlog lead) ! nat (?k - 1)))"
    using log_term_wf [OF pos k(1)] k le by simp
  moreover have "Term (entries (raftlog lead) ! nat (?k - 1)) = Term (entries (raftlog r) ! nat (?k - 1))" if "?k > 0"
    using phase_nth [OF ph, of "nat (?k - 1)"] k that by simp
  ultimately show ?thesis
    using m k by (auto simp: heartbeat_msg_def Let_def beat_ok_def no_message_def about_def carries_def)
qed

lemma tick_inv:
  assumes inv: "rep_inv ms l c" and i: "i \<in> set ms" and r: "Tick (rnodes c i) = Inr r"
    and calm: "i = l \<or> electionTick (rnodes c i) + 1 < electionTimeout (rnodes c i)"
  shows "rep_inv ms l (put_rnode c i r (flight c))"
proof (cases "i = l")
  case True
  let ?lead = "rnodes c l"
  have lead: "leader_inv ms l ?lead" using inv by (simp add: rep_inv_def)
  have foll: "follower_inv ?lead p (rnodes c p)" "phase (flight c) ?lead p (rnodes c p)" if "p \<in> set ms - {l}" for p
    using inv that by (simp_all add: rep_inv_def)
  obtain hs t where r': "r = ?lead\<lparr>heartbeatTick := t, msgs := msgs ?lead @ hs\<rparr>"
    and hs: "\<forall>m \<in> set hs. \<exists>p \<in> set (peers ?lead). heartbeat_msg ?lead p = Inr m"
    using Tick_leader [of ?lead r] lead r True by (auto simp: leader_inv_def)
  have beat: "\<exists>p \<in> set ms - {l}. mTo m = p \<and> beat_ok r m (rnodes c p) \<and> (\<forall>p'. \<not> about p' m)" if m: "m \<in> set hs" for m
  proof -
    obtain p where p: "p \<in> set ms - {l}" "heartbeat_msg ?lead p = Inr m" using hs m lead unfolding leader_inv_def by blast
    then have "mTo m = p \<and> beat_ok ?lead m (rnodes c p) \<and> (\<forall>p'. \<not> about p' m)"
      using heartbeat_ok [OF lead foll [OF p(1)] p(2)] by blast
    with p(1) show ?thesis using beat_ok_grow [of ?lead m "rnodes c p" r "rnodes c p" "[]"] r' by auto
  qed
  show ?thesis unfolding True
  proof (rule rep_inv_leader [OF inv])
    show "leader_inv ms l r" using lead r' by (simp add: leader_inv_def)
    show "\<forall>p \<in> set ms - {l}. phase (flight c) r p (rnodes c p)"
    proof
      fix p assume p: "p \<in> set ms - {l}"
      have "filter_mset (about p) (mset hs) = {#}" using beat by auto
      then show "phase (flight c) r p (rnodes c p)"
        by (intro phase_cong [OF foll(2) [OF p]]) (simp_all add: pend_def outq_def r' prog_of_def)
    qed
    show "\<forall>p \<in> set ms - {l}. matchIndex (prog_of r p) \<le> int (length (rlog c p))"
      using foll(1) r' by (simp add: follower_inv_def rlog_def prog_of_def)
    show "\<forall>m \<in># flight c + outq r. m \<in># flight c + outq ?lead
      \<or> (\<exists>p \<in> set ms - {l}. about p m \<or> mTo m = p \<and> beat_ok r m (rnodes c p))"
      using beat by (auto simp: outq_def r')
    have "{i \<in> set ms. commitIndex (raftlog r) \<le> int (length (if i = l then entries (raftlog r) else rlog c i))}
        = {i \<in> set ms. rcommit c l \<le> int (length (rlog c i))}"
      by (auto simp: rcommit_def rlog_def r')
    then show "majority ms {i \<in> set ms. commitIndex (raftlog r) \<le> int (length (if i = l then entries (raftlog r) else rlog c i))}"
      using inv by (simp add: rep_inv_def)
  qed (simp_all add: r' rcommit_def)
next
  case False
  then have p: "i \<in> set ms - {l}" using i by simp
  have foll: "follower_inv (rnodes c l) i (rnodes c i)" "phase (flight c) (rnodes c l) i (rnodes c i)"
    using inv p by (simp_all add: rep_inv_def)
  have r': "r = (rnodes c i)\<lparr>electionTick := electionTick (rnodes c i) + 1\<rparr>"
    using Tick_waits [of "rnodes c i"] foll(1) calm False r by (simp add: follower_inv_def raft_ok_def)
  show ?thesis
  proof (rule rep_inv_follower [OF inv p])
    show "phase (flight c) (rnodes c l) i r"
      by (rule phase_cong [OF foll(2)]) (simp_all add: pend_def outq_def r')
  qed (use foll(1) in \<open>simp_all add: follower_inv_def r' outq_def rlog_def\<close>)
qed

lemma filter_one: "distinct xs \<Longrightarrow> p \<in> set xs \<Longrightarrow> filter (\<lambda>x. x = p) xs = [p]"
  by (induction xs) (auto simp: filter_empty_conv)

lemma leader_next:
  assumes "leader_inv ms l lead" and "p \<in> set ms - {l}"
  shows "0 \<le> nextIndex (prog_of lead p) - 1 \<and> nextIndex (prog_of lead p) - 1 \<le> int (length (entries (raftlog lead)))"
proof -
  have "p \<in> set (peers lead)" "prog_ok lead" "state lead = StateLeader" "log_wf (raftlog lead)"
    using assms by (simp_all add: leader_inv_def raft_ok_def)
  then have "1 \<le> nextIndex (prog_of lead p) \<and> nextIndex (prog_of lead p) \<le> int (length (entries (raftlog lead))) + 1"
    by (simp add: prog_ok_def log_wf_def lastIndex_wf)
  then show ?thesis by simp
qed

lemma propose_inv:
  assumes inv: "rep_inv ms l c" and quiet: "quiet ms c" and r: "Step (rnodes c l) (proposal k v i) = Inr (r, e)"
  shows "rep_inv ms l (put_rnode c l r (flight c))"
proof -
  let ?lead = "rnodes c l"
  have lead: "leader_inv ms l ?lead" and l: "l \<in> set ms" using inv by (simp_all add: rep_inv_def)
  have foll: "follower_inv ?lead p (rnodes c p)" "phase (flight c) ?lead p (rnodes c p)" if "p \<in> set ms - {l}" for p
    using inv that by (simp_all add: rep_inv_def)
  let ?es = "entries (raftlog ?lead)"
  obtain new where new: "new \<noteq> []" and r': "r = ?lead\<lparr>raftlog := (raftlog ?lead)\<lparr>entries := ?es @ new\<rparr>,
      msgsAfterAppend := msgsAfterAppend ?lead @ map (append_for ?lead (?es @ new)) (peers ?lead)\<rparr>" and ok: "raft_ok r"
    using Step_proposes [of ?lead "proposal k v i"] lead r by (auto simp: leader_inv_def proposal_def no_message_def)
  have next_le: "0 \<le> nextIndex (prog_of ?lead p) - 1 \<and> nextIndex (prog_of ?lead p) - 1 \<le> int (length ?es)" if "p \<in> set ms - {l}" for p
    using leader_next [OF lead that] .
  have about_iff: "about p (append_for ?lead (?es @ new) p') \<longleftrightarrow> p' = p" if "p' \<in> set ms - {l}" for p p'
    using next_le [OF that] new by (auto simp: about_def append_for_def carries_def no_message_def Let_def)
  have none: "filter_mset (about p) (flight c + outq ?lead + outq (rnodes c p)) = {#}" if "p \<in> set ms" for p
    using quiet l that by (auto simp: quiet_def about_def)
  have pend_new: "pend (flight c) r p (rnodes c p) = {#append_for ?lead (?es @ new) p#}" if p: "p \<in> set ms - {l}" for p
  proof -
    have sp: "set (peers ?lead) = set ms - {l}" "distinct (peers ?lead)" using lead by (simp_all add: leader_inv_def)
    have "filter (about p \<circ> append_for ?lead (?es @ new)) (peers ?lead) = filter (\<lambda>p'. p' = p) (peers ?lead)"
      using about_iff sp(1) by (intro filter_cong) simp_all
    then have "filter (about p) (map (append_for ?lead (?es @ new)) (peers ?lead)) = map (append_for ?lead (?es @ new)) (filter (\<lambda>p'. p' = p) (peers ?lead))"
      by (simp add: filter_map)
    also have "\<dots> = [append_for ?lead (?es @ new) p]" using filter_one [OF sp(2), of p] sp(1) p by simp
    finally have "filter_mset (about p) (mset (map (append_for ?lead (?es @ new)) (peers ?lead))) = {#append_for ?lead (?es @ new) p#}"
      by (simp only: mset_filter [symmetric] mset_single_iff mset.simps)
    moreover have "outq r = outq ?lead + mset (map (append_for ?lead (?es @ new)) (peers ?lead))" by (simp add: r' outq_def)
    ultimately show ?thesis using none [of p] p by (simp add: pend_def)
  qed
  have prog: "prog_of r p = prog_of ?lead p" for p by (simp add: r' prog_of_def)
  show ?thesis
  proof (rule rep_inv_leader [OF inv])
    show "leader_inv ms l r" using lead ok by (simp add: leader_inv_def r')
    show "\<forall>p \<in> set ms - {l}. phase (flight c) r p (rnodes c p)"
    proof
      fix p assume p: "p \<in> set ms - {l}"
      have eq: "append_of r p (commitIndex (raftlog ?lead)) = append_for ?lead (?es @ new) p"
        by (simp add: append_of_def append_for_def r' prog_of_def Let_def)
      have "pend (flight c) ?lead p (rnodes c p) = {#}" using none [of p] p by (simp add: pend_def)
      then have "entries (raftlog (rnodes c p)) = take (nat (nextIndex (prog_of ?lead p) - 1)) ?es"
        using foll(2) [OF p] by (simp add: phase_def Let_def)
      then show "phase (flight c) r p (rnodes c p)"
        unfolding phase_def Let_def prog using eq pend_new [OF p] next_le [OF p] about_iff [OF p, of p]
        by (auto simp: r' about_def append_for_def no_message_def Let_def)
    qed
    show "\<forall>p \<in> set ms - {l}. matchIndex (prog_of r p) \<le> int (length (rlog c p))"
      using foll(1) prog by (simp add: follower_inv_def rlog_def)
    show "\<forall>m \<in># flight c + outq r. m \<in># flight c + outq ?lead
      \<or> (\<exists>p \<in> set ms - {l}. about p m \<or> mTo m = p \<and> beat_ok r m (rnodes c p))"
    proof
      fix m assume "m \<in># flight c + outq r"
      then consider "m \<in># flight c + outq ?lead" | p where "p \<in> set ms - {l}" "m = append_for ?lead (?es @ new) p"
        using lead by (auto simp: r' outq_def leader_inv_def)
      then show "m \<in># flight c + outq ?lead \<or> (\<exists>p \<in> set ms - {l}. about p m \<or> mTo m = p \<and> beat_ok r m (rnodes c p))"
        using about_iff by cases blast+
    qed
    show "majority ms {i \<in> set ms. commitIndex (raftlog r) \<le> int (length (if i = l then entries (raftlog r) else rlog c i))}"
    proof (rule majority_mono)
      show "majority ms {i \<in> set ms. rcommit c l \<le> int (length (rlog c i))}" using inv by (simp add: rep_inv_def)
    qed (auto simp: r' rcommit_def rlog_def)
  qed (simp_all add: r' rcommit_def)
qed

lemma lose_inv:
  assumes inv: "rep_inv ms l c" and m: "m \<in># flight c" "mType m \<noteq> MSG_APP_RESP"
  shows "rep_inv ms l (c\<lparr>flight := flight c - {#m#}\<rparr>)"
proof -
  let ?lead = "rnodes c l"
  obtain p where p: "p \<in> set ms - {l}" "about p m \<or> mTo m = p \<and> beat_ok ?lead m (rnodes c p)"
    using inv m(1) unfolding rep_inv_def by (meson union_iff)
  have f: "follower_inv ?lead p (rnodes c p)" "phase (flight c) ?lead p (rnodes c p)" using inv p(1) by (simp_all add: rep_inv_def)
  have split: "flight c = add_mset m (flight c - {#m#})" using m(1) by simp
  have only: "\<not> about p' m" if "p' \<noteq> p" for p' using p(2) that m(2) by (auto simp: about_def beat_ok_def carries_def)
  have eq: "c\<lparr>flight := flight c - {#m#}\<rparr> = put_rnode c p (rnodes c p) (flight c - {#m#})" by (simp add: put_rnode_def)
  have "rep_inv ms l (put_rnode c p (rnodes c p) (flight c - {#m#}))"
  proof (rule rep_inv_follower [OF inv p(1) f(1)])
    show "phase (flight c - {#m#}) ?lead p (rnodes c p)"
    proof (cases "about p m")
      case True
      have "add_mset m (pend (flight c - {#m#}) ?lead p (rnodes c p)) = pend (flight c) ?lead p (rnodes c p)"
        using True by (subst (2) split) (simp add: pend_def)
      moreover have "m \<noteq> ack_of ?lead p" using m(2) by (auto simp: ack_of_def no_message_def)
      ultimately have "pend (flight c - {#m#}) ?lead p (rnodes c p) = {#}
          \<and> entries (raftlog (rnodes c p)) = take (nat (nextIndex (prog_of ?lead p) - 1)) (entries (raftlog ?lead))"
        using f(2) unfolding phase_def Let_def by (auto simp: add_mset_eq_single dest: sym)
      then show ?thesis by (simp add: phase_def Let_def)
    next
      case False
      then have "pend (flight c - {#m#}) ?lead p (rnodes c p) = pend (flight c) ?lead p (rnodes c p)"
        by (subst (2) split) (simp add: pend_def)
      then show ?thesis using phase_cong [OF f(2)] by simp
    qed
    show "\<forall>p' \<in> set ms - {l}. p' \<noteq> p \<longrightarrow> filter_mset (about p') (flight c - {#m#}) = filter_mset (about p') (flight c)"
      using only by (subst (2) split) simp
  qed (auto simp: rlog_def dest: in_diffD)
  then show ?thesis unfolding eq .
qed

lemma pend_about:
  assumes "phase q lead p r" and "m \<in># q" and "about p m"
  obtains k where "k \<le> commitIndex (raftlog lead)" and "m = append_of lead p k" and "carries m"
      and "pend q lead p r = {#m#}" and "entries (raftlog r) = take (nat (nextIndex (prog_of lead p) - 1)) (entries (raftlog lead))"
    | "m = ack_of lead p" and "pend q lead p r = {#m#}" and "entries (raftlog r) = entries (raftlog lead)"
proof -
  have "m \<in># pend q lead p r" using assms(2,3) by (simp add: pend_def)
  then show ?thesis using assms(1) that unfolding phase_def Let_def by fastforce
qed

lemma pend_deliver:
  assumes "m \<in># q" and "pend q lead p r = {#m#}" and "about p m"
  shows "pend (q - {#m#}) lead p r = {#}"
proof -
  have "pend q lead p r = add_mset m (pend (q - {#m#}) lead p r)"
    using assms(1,3) by (subst insert_DiffM [OF assms(1), symmetric]) (simp only: pend_def union_mset_add_mset_left filter_mset_add_mset if_True)
  then show ?thesis using assms(2) by simp
qed

lemma append_resp_ack:
  "ID r = p \<Longrightarrow> append_resp (r\<lparr>currentTerm := currentTerm lead\<rparr>) (ID lead) True = ack_of lead p"
  by (simp add: append_resp_def ack_of_def)

lemma append_of_sel:
  "mType (append_of lead p k) = MSG_APP" "mTo (append_of lead p k) = p" "mFrom (append_of lead p k) = ID lead"
  "mType (ack_of lead p) = MSG_APP_RESP" "mTo (ack_of lead p) = ID lead" "mFrom (ack_of lead p) = p"
  by (simp_all add: append_of_def append_for_def ack_of_def no_message_def Let_def)

lemma append_of_entries:
  "mEntries (append_of lead p k) = Some (let n = nextIndex (prog_of lead p) - 1 in
     \<lparr>aTerm = currentTerm lead, LeaderId = ID lead, PrevLogIdx = n,
      PrevLogTerm = (if n = 0 then 0 else Term (entries (raftlog lead) ! nat (n - 1))),
      Entries = drop (nat n) (entries (raftlog lead)), LeaderCommitIdx = k\<rparr>)"
  by (simp add: append_of_def append_for_def no_message_def Let_def prog_of_def)

text \<open>The append that is under way makes the log of its receiver equal to the leader's.\<close>

lemma append_received:
  assumes lead: "leader_inv ms l lead" and p: "p \<in> set ms - {l}" and f: "follower_inv lead p r"
    and known: "entries (raftlog r) = take (nat (nextIndex (prog_of lead p) - 1)) (entries (raftlog lead))"
    and k: "k \<le> commitIndex (raftlog lead)" and cs: "carries (append_of lead p k)"
  obtains r' where "Step r (append_of lead p k) = Inr (r', None)" and "follower_inv lead p r'"
    and "entries (raftlog r') = entries (raftlog lead)" and "outq r' = outq r + {#ack_of lead p#}"
proof -
  let ?n = "nextIndex (prog_of lead p) - 1" and ?es = "entries (raftlog lead)"
  define ae where "ae = \<lparr>aTerm = currentTerm lead, LeaderId = ID lead, PrevLogIdx = ?n,
    PrevLogTerm = (if ?n = 0 then 0 else Term (?es ! nat (?n - 1))), Entries = drop (nat ?n) ?es, LeaderCommitIdx = k\<rparr>"
  have m: "mEntries (append_of lead p k) = Some ae" by (simp add: append_of_entries ae_def Let_def)
  have n: "0 \<le> ?n" "?n \<le> int (length ?es)" using leader_next [OF lead p] by simp_all
  have pos: "positions ?es" using lead by (simp add: leader_inv_def raft_ok_def log_wf_def)
  have len: "length (entries (raftlog r)) = nat ?n" using known n by simp
  have t: "currentTerm r \<le> aTerm ae" using f by (simp add: ae_def follower_inv_def)
  have prev: "prev_ok (raftlog r) ae"
    using n len known by (auto simp: prev_ok_def ae_def)
  have fits: "\<forall>i < length (Entries ae). Id (Entries ae ! i) = int (length (entries (raftlog r)) + i) + 1"
    using pos len n by (auto simp: ae_def positions_def)
  have f': "raft_ok r" "state r = StateFollower" "ID r = p" "readyc r = []" using f by (simp_all add: follower_inv_def)
  obtain r2 where r2: "Step r (append_of lead p k) = Inr (r2, None)" "raft_ok r2" "state r2 = StateFollower" "ID r2 = ID r"
    "readyc r2 = readyc r" "currentTerm r2 = aTerm ae" "entries (raftlog r2) = entries (raftlog r) @ Entries ae"
    "commitIndex (raftlog r2) \<le> max (commitIndex (raftlog r)) (LeaderCommitIdx ae)"
    "outq r2 = outq r + (if Entries ae = [] then {#} else {#append_resp (r\<lparr>currentTerm := aTerm ae\<rparr>) (mFrom (append_of lead p k)) True#})"
    using follower_append [OF f'(1,2) append_of_sel(1) m t prev fits] by (elim exE conjE) (rule that)
  have es: "entries (raftlog r2) = ?es" using r2(7) known by (simp add: ae_def)
  have out: "outq r2 = outq r + {#ack_of lead p#}"
    using r2(9) m cs append_resp_ack [OF f'(3), of lead] by (auto simp: carries_def append_of_sel) (simp_all add: ae_def)
  have "\<forall>m \<in># outq r2. mType m = MSG_APP_RESP \<and> mFrom m = p"
    using f by (auto simp: out follower_inv_def append_of_sel)
  moreover have "length (entries (raftlog r)) \<le> length (entries (raftlog r2))" using r2(7) by simp
  moreover have "commitIndex (raftlog r2) \<le> commitIndex (raftlog lead)"
    using r2(8) f k by (simp add: follower_inv_def ae_def max_def split: if_splits)
  ultimately have "follower_inv lead p r2" using f r2(2-6) by (simp add: follower_inv_def ae_def)
  with r2(1) show ?thesis using es out by (rule that)
qed

lemma beat_received:
  assumes f: "follower_inv lead p r" and m: "beat_ok lead m r" and step: "Step r m = Inr (r', e)"
  shows "follower_inv lead p r' \<and> entries (raftlog r') = entries (raftlog r) \<and> outq r' = outq r"
proof -
  obtain ae where ae: "mType m = MSG_APP" "mEntries m = Some ae" "aTerm ae = currentTerm lead" "Entries ae = []" "prev_ok (raftlog r) ae"
    "LeaderCommitIdx ae \<le> commitIndex (raftlog lead)"
    using m by (auto simp: beat_ok_def prev_ok_def)
  have f': "raft_ok r" "state r = StateFollower" "currentTerm r \<le> aTerm ae" using f ae(3) by (simp_all add: follower_inv_def)
  have fits: "\<forall>i < length (Entries ae). Id (Entries ae ! i) = int (length (entries (raftlog r)) + i) + 1" using ae(4) by simp
  obtain r2 where r2: "Step r m = Inr (r2, None)" "raft_ok r2" "state r2 = StateFollower" "ID r2 = ID r"
    "readyc r2 = readyc r" "currentTerm r2 = aTerm ae" "entries (raftlog r2) = entries (raftlog r) @ Entries ae"
    "commitIndex (raftlog r2) \<le> max (commitIndex (raftlog r)) (LeaderCommitIdx ae)"
    "outq r2 = outq r + (if Entries ae = [] then {#} else {#append_resp (r\<lparr>currentTerm := aTerm ae\<rparr>) (mFrom m) True#})"
    using follower_append [OF f'(1,2) ae(1,2) f'(3) ae(5) fits] by (elim exE conjE) (rule that)
  moreover have "r' = r2" using step r2(1) by simp
  ultimately show ?thesis using f ae by (auto simp: follower_inv_def)
qed

lemma deliver_follower_inv:
  assumes inv: "rep_inv ms l c" and m: "m \<in># flight c" and p: "mTo m = p" "p \<in> set ms - {l}" and step: "Step (rnodes c p) m = Inr (r, e)"
  shows "rep_inv ms l (put_rnode c p r (flight c - {#m#}))"
proof -
  let ?lead = "rnodes c l"
  have lead: "leader_inv ms l ?lead" using inv by (simp add: rep_inv_def)
  have foll: "follower_inv ?lead p (rnodes c p)" "phase (flight c) ?lead p (rnodes c p)" if "p \<in> set ms - {l}" for p
    using inv that by (simp_all add: rep_inv_def)
  have ID: "ID ?lead = l" using lead by (simp add: leader_inv_def)
  obtain p' where p': "p' \<in> set ms - {l}" "about p' m \<or> mTo m = p' \<and> beat_ok ?lead m (rnodes c p')"
    using inv m unfolding rep_inv_def by (meson union_iff)
  have split: "flight c = add_mset m (flight c - {#m#})" using m by simp
  have kind: "mType m = MSG_APP" "about p m \<or> beat_ok ?lead m (rnodes c p)"
  proof -
    have "mType m = MSG_APP \<and> (about p m \<or> beat_ok ?lead m (rnodes c p))"
    proof (cases "about p' m")
      case True
      from pend_about [OF foll(2) [OF p'(1)] m True] show ?thesis
      proof cases
        case 1
        then show ?thesis using True p(1) append_of_sel by metis
      next
        case 2
        then have "mTo m = l" using ID append_of_sel(5) by simp
        then show ?thesis using p by simp
      qed
    qed (use p' p(1) in \<open>auto simp: beat_ok_def\<close>)
    then show "mType m = MSG_APP" "about p m \<or> beat_ok ?lead m (rnodes c p)" by simp_all
  qed
  have others: "\<forall>p' \<in> set ms - {l}. p' \<noteq> p \<longrightarrow> filter_mset (about p') (flight c - {#m#}) = filter_mset (about p') (flight c)"
    using kind(1) p(1) by (subst (2) split) (auto simp: about_def)
  show ?thesis
  proof (cases "about p m")
    case True
    obtain k where k: "k \<le> commitIndex (raftlog ?lead)" "m = append_of ?lead p k" "carries m"
      "pend (flight c) ?lead p (rnodes c p) = {#m#}"
      "entries (raftlog (rnodes c p)) = take (nat (nextIndex (prog_of ?lead p) - 1)) (entries (raftlog ?lead))"
    proof (rule pend_about [OF foll(2) [OF p(2)] m True])
      assume "m = ack_of ?lead p"
      then show thesis using kind(1) by (simp add: append_of_sel)
    qed (rule that)
    have r: "follower_inv ?lead p r" "entries (raftlog r) = entries (raftlog ?lead)" "outq r = outq (rnodes c p) + {#ack_of ?lead p#}"
      using append_received [OF lead p(2) foll(1) [OF p(2)] k(5,1)] k(2,3) step by (metis Inr_inject prod.inject)+
    have "pend (flight c - {#m#}) ?lead p r = {#ack_of ?lead p#}"
      using pend_deliver [OF m k(4) True] r(3) by (auto simp: pend_def about_def append_of_sel)
    then have "phase (flight c - {#m#}) ?lead p r" using r(2) by (simp add: phase_def Let_def)
    moreover have "\<exists>xs. entries (raftlog r) = rlog c p @ xs"
      using r(2) k(5) append_take_drop_id [of "nat (nextIndex (prog_of ?lead p) - 1)" "entries (raftlog ?lead)"] by (metis rlog_def)
    ultimately show ?thesis
      using r(1) others by (intro rep_inv_follower [OF inv p(2)]) (auto dest: in_diffD)
  next
    case False
    then have r: "follower_inv ?lead p r" "entries (raftlog r) = entries (raftlog (rnodes c p))" "outq r = outq (rnodes c p)"
      using beat_received [OF foll(1) [OF p(2)] _ step] kind(2) by auto
    have "pend (flight c - {#m#}) ?lead p r = pend (flight c) ?lead p (rnodes c p)"
      using False r(3) by (subst (2) split) (simp add: pend_def)
    from phase_cong [OF foll(2) [OF p(2)] this] have "phase (flight c - {#m#}) ?lead p r" using r(2) by simp
    then show ?thesis
      using r(1,2) others by (intro rep_inv_follower [OF inv p(2)]) (auto dest: in_diffD simp: rlog_def)
  qed
qed

text \<open>The nodes a leader counts for an index, itself included.\<close>

lemma replicated_majority:
  assumes ms: "distinct ms" "l \<in> set ms" and size: "clusterSize r = int (length ms)"
    and keys: "distinct (map fst (progress r))" "set (map fst (progress r)) \<subseteq> set ms - {l}"
    and quorum: "quorum r \<le> replicatedCount r i"
    and has: "\<And>p. p \<in> set ms - {l} \<Longrightarrow> i \<le> matchIndex (prog_of r p) \<Longrightarrow> P p" and own: "P l"
  shows "majority ms {p \<in> set ms. P p}"
proof (rule majority_mono)
  let ?f = "filter (\<lambda>(p, q). i \<le> matchIndex q) (progress r)"
  let ?Q = "insert l (fst ` set ?f)"
  have "distinct (map fst ?f)" using keys(1) by (simp add: distinct_map_filter)
  then have "card (fst ` set ?f) = length ?f" using distinct_card [of "map fst ?f"] by simp
  moreover have "l \<notin> fst ` set ?f" using keys(2) by auto
  ultimately have "int (card ?Q) = replicatedCount r i" by (simp add: replicatedCount_def card_insert_if)
  then show "majority ms ?Q" using quorum size ms keys(2) by (auto simp: majority_def quorum_def)
  have "P p" if pq: "(p, q) \<in> set (progress r)" "i \<le> matchIndex q" for p q
  proof (rule has)
    show "p \<in> set ms - {l}" using pq(1) keys(2) by force
    show "i \<le> matchIndex (prog_of r p)" using map_of_is_SomeI [OF keys(1) pq(1)] pq(2) by (simp add: prog_of_def)
  qed
  then show "?Q \<subseteq> {p \<in> set ms. P p}" using own ms(2) keys(2) by force
qed simp

lemma leader_ack_step:
  assumes ok: "raft_ok r" and st: "state r = StateLeader" and step: "Step r (ack_of r p) = Inr (r', e)"
  defines "r1 \<equiv> r\<lparr>progress := AList.update p \<lparr>matchIndex = lastIndex (raftlog r), nextIndex = lastIndex (raftlog r) + 1\<rparr> (progress r)\<rparr>"
  defines "C \<equiv> Max (insert (commitIndex (raftlog r)) {i. commitIndex (raftlog r) < i \<and> committable r1 i})"
  shows "r' = r1\<lparr>raftlog := (raftlog r)\<lparr>commitIndex := C\<rparr>\<rparr>" and "raft_ok r'"
    and "C = commitIndex (raftlog r) \<or> commitIndex (raftlog r) < C \<and> committable r1 C"
proof -
  have resp: "mEntriesResp (ack_of r p) = Some \<lparr>CurrentTerm = currentTerm r, Success = True\<rparr>" by (simp add: ack_of_def)
  have "Step r (ack_of r p) = done_step (handleAppendResponse r (ack_of r p))"
    using ok st by (simp add: Step_def stepLeader_def append_of_sel raft_ok_def role_ok_def)
  also have "\<dots> = Inr (r1\<lparr>raftlog := (raftlog r)\<lparr>commitIndex := C\<rparr>\<rparr>, None)"
    using handleAppendResponse_success [OF ok resp] by (simp add: done_step_def append_of_sel r1_def C_def)
  finally show r': "r' = r1\<lparr>raftlog := (raftlog r)\<lparr>commitIndex := C\<rparr>\<rparr>" using step by simp
  show "raft_ok r'"
    using handleAppendResponse_ok [OF ok st, of "ack_of r p"] handleAppendResponse_success [OF ok resp]
    by (simp add: r' r1_def C_def append_of_sel)
  have "C \<in> insert (commitIndex (raftlog r)) {i. commitIndex (raftlog r) < i \<and> committable r1 i}"
    unfolding C_def using finite_committable by (intro Max_in) auto
  then show "C = commitIndex (raftlog r) \<or> commitIndex (raftlog r) < C \<and> committable r1 C" by simp
qed

lemma deliver_leader_inv:
  assumes inv: "rep_inv ms l c" and m: "m \<in># flight c" "mTo m = l" and step: "Step (rnodes c l) m = Inr (r, e)"
  shows "rep_inv ms l (put_rnode c l r (flight c - {#m#}))"
proof -
  let ?lead = "rnodes c l"
  have lead: "leader_inv ms l ?lead" and ms: "distinct ms" "l \<in> set ms" using inv by (simp_all add: rep_inv_def)
  have foll: "follower_inv ?lead p (rnodes c p)" "phase (flight c) ?lead p (rnodes c p)" if "p \<in> set ms - {l}" for p
    using inv that by (simp_all add: rep_inv_def)
  obtain p where p: "p \<in> set ms - {l}" "about p m"
    using inv m unfolding rep_inv_def by (metis DiffE insertI1 union_iff)
  have ack: "m = ack_of ?lead p" "pend (flight c) ?lead p (rnodes c p) = {#m#}" "entries (raftlog (rnodes c p)) = entries (raftlog ?lead)"
    using pend_about [OF foll(2) [OF p(1)] m(1) p(2)] p(1) m(2) append_of_sel(2) by (metis DiffD2 singletonI)+
  define r1 where "r1 = ?lead\<lparr>progress := AList.update p \<lparr>matchIndex = lastIndex (raftlog ?lead), nextIndex = lastIndex (raftlog ?lead) + 1\<rparr> (progress ?lead)\<rparr>"
  define C where "C = Max (insert (commitIndex (raftlog ?lead)) {i. commitIndex (raftlog ?lead) < i \<and> committable r1 i})"
  have ok: "raft_ok ?lead" "state ?lead = StateLeader" using lead by (simp_all add: leader_inv_def)
  have st: "Step ?lead (ack_of ?lead p) = Inr (r, e)" using step ack(1) by simp
  note acked = leader_ack_step [OF ok st, folded r1_def C_def]
  have last: "lastIndex (raftlog ?lead) = int (length (entries (raftlog ?lead)))" using ok by (simp add: raft_ok_def log_wf_def lastIndex_wf)
  have prog: "prog_of r p' = (if p' = p then \<lparr>matchIndex = int (length (entries (raftlog ?lead))), nextIndex = int (length (entries (raftlog ?lead))) + 1\<rparr>
      else prog_of ?lead p')" for p'
    by (simp add: acked(1) r1_def prog_of_def update_conv' last)
  have cle: "commitIndex (raftlog ?lead) \<le> C" using acked(3) by auto
  have linv: "leader_inv ms l r"
    using lead acked(2) p(1) by (auto simp: leader_inv_def acked(1) r1_def dom_update)
  have mt: "\<forall>p' \<in> set ms - {l}. matchIndex (prog_of r p') \<le> int (length (rlog c p'))"
    using foll(1) ack(3) by (simp add: prog follower_inv_def rlog_def)
  show ?thesis
  proof (rule rep_inv_leader [OF inv linv])
    show "\<forall>p' \<in> set ms - {l}. phase (flight c - {#m#}) r p' (rnodes c p')"
    proof
      fix p' assume p': "p' \<in> set ms - {l}"
      have out: "outq r = outq ?lead" by (simp add: acked(1) r1_def outq_def)
      show "phase (flight c - {#m#}) r p' (rnodes c p')"
      proof (cases "p' = p")
        case True
        have "pend (flight c - {#m#}) r p (rnodes c p) = {#}"
          using pend_deliver [OF m(1) ack(2) p(2)] out by (simp add: pend_def)
        moreover have "entries (raftlog r) = entries (raftlog ?lead)" by (simp add: acked(1))
        ultimately show ?thesis using ack(3) True by (simp add: phase_def Let_def prog)
      next
        case False
        then have "\<not> about p' m" using ack(1) by (simp add: about_def append_of_sel)
        then have "pend (flight c - {#m#}) r p' (rnodes c p') = pend (flight c) ?lead p' (rnodes c p')"
          using out by (subst (2) insert_DiffM [OF m(1), symmetric]) (simp add: pend_def del: insert_DiffM)
        moreover have "prog_of r p' = prog_of ?lead p'" using False by (simp add: prog)
        ultimately show ?thesis using cle phase_cong [OF foll(2) [OF p']] by (simp add: acked(1) r1_def)
      qed
    qed
    show "\<forall>m' \<in># flight c - {#m#} + outq r. m' \<in># flight c + outq ?lead
      \<or> (\<exists>p \<in> set ms - {l}. about p m' \<or> mTo m' = p \<and> beat_ok r m' (rnodes c p))"
      by (auto simp: acked(1) r1_def outq_def dest: in_diffD)
    show "majority ms {i \<in> set ms. commitIndex (raftlog r) \<le> int (length (if i = l then entries (raftlog r) else rlog c i))}"
      using acked(3)
    proof (elim disjE conjE)
      assume "C = commitIndex (raftlog ?lead)"
      then have "{i \<in> set ms. commitIndex (raftlog r) \<le> int (length (if i = l then entries (raftlog r) else rlog c i))}
          = {i \<in> set ms. rcommit c l \<le> int (length (rlog c i))}"
        by (auto simp: acked(1) r1_def rcommit_def rlog_def)
      then show ?thesis using inv by (simp add: rep_inv_def)
    next
      assume C: "committable r1 C"
      have q: "quorum r \<le> replicatedCount r C" "C \<le> int (length (entries (raftlog ?lead)))"
        using C last by (auto simp: committable_def acked(1) quorum_def replicatedCount_def r1_def)
      show ?thesis
      proof (rule replicated_majority [OF ms _ _ _ q(1)])
        show "clusterSize r = int (length ms)" "set (map fst (progress r)) \<subseteq> set ms - {l}" using linv by (simp_all add: leader_inv_def)
        show "distinct (map fst (progress r))" using acked(2) by (simp add: raft_ok_def prog_ok_def)
        show "commitIndex (raftlog r) \<le> int (length (if p' = l then entries (raftlog r) else rlog c p'))"
          if "p' \<in> set ms - {l}" "C \<le> matchIndex (prog_of r p')" for p'
        proof -
          have "commitIndex (raftlog r) = C" by (simp add: acked(1))
          moreover have "matchIndex (prog_of r p') \<le> int (length (rlog c p'))" using mt that(1) by blast
          ultimately show ?thesis using that by simp
        qed
        show "commitIndex (raftlog r) \<le> int (length (if l = l then entries (raftlog r) else rlog c l))"
          using q(2) by (simp add: acked(1))
      qed
    qed
  qed (use mt cle in \<open>simp_all add: acked(1) r1_def rcommit_def\<close>)
qed

lemma rep_start_inv:
  assumes "rep_start ms l c"
  shows "rep_inv ms l c"
proof -
  let ?lead = "rnodes c l"
  have ms: "distinct ms" "l \<in> set ms" and fl: "flight c = {#}" using assms by (simp_all add: rep_start_def)
  have n: "raft_ok (rnodes c i)" "ID (rnodes c i) = i" "readyc (rnodes c i) = []" "outq (rnodes c i) = {#}"
    "currentTerm (rnodes c i) \<le> currentTerm ?lead" "commitIndex (raftlog (rnodes c i)) \<le> commitIndex (raftlog ?lead)"
    "entries (raftlog (rnodes c i)) = entries (raftlog ?lead)" "i \<noteq> l \<Longrightarrow> state (rnodes c i) = StateFollower"
    if "i \<in> set ms" for i using assms that unfolding rep_start_def by blast+
  have wf: "log_wf (raftlog ?lead)" using n(1) [OF ms(2)] by (simp add: raft_ok_def)
  have last: "lastIndex (raftlog ?lead) = int (length (entries (raftlog ?lead)))" using wf by (simp add: log_wf_def lastIndex_wf)
  have prog: "prog_of ?lead p = \<lparr>matchIndex = 0, nextIndex = int (length (entries (raftlog ?lead))) + 1\<rparr>" if "p \<in> set ms - {l}" for p
    using assms that unfolding rep_start_def last by blast
  have "state ?lead = StateLeader" "distinct (peers ?lead)" "set (peers ?lead) = set ms - {l}"
    "clusterSize ?lead = int (length ms)" "set (map fst (progress ?lead)) \<subseteq> set ms - {l}"
    using assms unfolding rep_start_def by blast+
  then have "leader_inv ms l ?lead" using n(1-3) [OF ms(2)] by (simp add: leader_inv_def)
  moreover have "follower_inv ?lead p (rnodes c p) \<and> phase (flight c) ?lead p (rnodes c p)" if p: "p \<in> set ms - {l}" for p
  proof -
    have "p \<in> set ms" "p \<noteq> l" using p by simp_all
    note f = n(1-7) [OF this(1)] n(8) [OF this]
    have "phase (flight c) ?lead p (rnodes c p)"
      using f(4,7) n(4) [OF ms(2)] fl by (simp add: phase_def Let_def pend_def prog [OF p])
    then show ?thesis using f by (simp add: follower_inv_def prog [OF p])
  qed
  moreover have "majority ms {i \<in> set ms. rcommit c l \<le> int (length (rlog c i))}"
  proof -
    have "{i \<in> set ms. rcommit c l \<le> int (length (rlog c i))} = set ms"
      using n(7) wf by (auto simp: rcommit_def rlog_def log_wf_def)
    moreover have "0 < int (length ms)" using ms(2) by (cases ms) simp_all
    then have "int (length ms) div 2 + 1 \<le> int (length ms)" by presburger
    ultimately show ?thesis using ms(1) by (simp add: majority_def distinct_card)
  qed
  ultimately show ?thesis using ms fl n(4) [OF ms(2)] by (simp add: rep_inv_def)
qed

lemma rep_step_inv:
  assumes "rep_inv ms l c" and "rep_step ms l c c'"
  shows "rep_inv ms l c'"
  using assms(2)
proof cases
  case (deliver m i r e)
  then show ?thesis using deliver_follower_inv [OF assms(1)] deliver_leader_inv [OF assms(1)] by (cases "i = l") auto
qed (use assms(1) propose_inv tick_inv exchange_inv lose_inv in auto)

lemma rep_reach_inv: "rep_reach ms l c \<Longrightarrow> rep_inv ms l c"
  by (induction rule: rep_reach.induct) (auto intro: rep_start_inv rep_step_inv)

end
