(* ===== verification/Raft_Agreement.thy ===== *)
theory Raft_Agreement
  imports Raft_Replication "HOL-Library.Sublist"
begin

text \<open>
  What the replication of the log amounts to for the clients of a cluster: one log of decided entries
  that is only ever extended and of which every node has applied a prefix, and a round of messages
  that commits a proposal.
\<close>

section \<open>One decided log\<close>

text \<open>
  The specification the clients of the cluster rely on: there is one sequence of decided entries that
  is only ever extended, and every node has seen a prefix of it. Then what two nodes have seen, even
  at different times, never disagrees.
\<close>

locale decided_log =
  fixes reach :: "'s \<Rightarrow> bool" and step :: "'s \<Rightarrow> 's \<Rightarrow> bool"
    and decided :: "'s \<Rightarrow> 'e list" and seen :: "'s \<Rightarrow> 'n \<Rightarrow> 'e list" and node :: "'n \<Rightarrow> bool"
  assumes keeps: "reach s \<Longrightarrow> step s s' \<Longrightarrow> reach s'"
    and extends: "reach s \<Longrightarrow> step s s' \<Longrightarrow> prefix (decided s) (decided s')"
    and sees: "reach s \<Longrightarrow> node i \<Longrightarrow> prefix (seen s i) (decided s)"
begin

lemma run_extends: "step\<^sup>*\<^sup>* s s' \<Longrightarrow> reach s \<Longrightarrow> reach s' \<and> prefix (decided s) (decided s')"
proof (induction rule: rtranclp_induct)
  case (step y z)
  then show ?case using keeps extends prefix_order.trans by blast
qed simp

lemma never_disagree:
  assumes "reach s" and "step\<^sup>*\<^sup>* s s'" and "node i" and "node j"
  shows "prefix (seen s i) (seen s' j) \<or> prefix (seen s' j) (seen s i)"
proof -
  have s': "reach s'" "prefix (decided s) (decided s')" using run_extends [OF assms(2,1)] by simp_all
  then have "prefix (seen s i) (decided s')" using sees [OF assms(1,3)] prefix_order.trans by blast
  then show ?thesis using sees [OF s'(1) assms(4)] by (rule prefix_same_cases)
qed

end

definition decided_entries :: "int \<Rightarrow> rep_cluster \<Rightarrow> log list" where
  "decided_entries l c = take (nat (rcommit c l)) (rlog c l)"

definition applied_at :: "rep_cluster \<Rightarrow> int \<Rightarrow> log list" where
  "applied_at c i = take (nat (lastApplied (raftlog (rnodes c i)))) (rlog c i)"

lemma rep_log_prefix:
  assumes "rep_inv ms l c" and "i \<in> set ms"
  shows "prefix (rlog c i) (rlog c l)" and "rcommit c i \<le> rcommit c l" and "log_wf (raftlog (rnodes c i))"
proof -
  have "prefix (rlog c i) (rlog c l) \<and> rcommit c i \<le> rcommit c l \<and> log_wf (raftlog (rnodes c i))"
  proof (cases "i = l")
    case True
    then show ?thesis using assms by (simp add: rep_inv_def leader_inv_def raft_ok_def)
  next
    case False
    then have f: "follower_inv (rnodes c l) i (rnodes c i)" "phase (flight c) (rnodes c l) i (rnodes c i)"
      using assms by (simp_all add: rep_inv_def)
    have "prefix (rlog c i) (rlog c l)" using phase_prefix [OF f(2)] by (metis rlog_def take_is_prefix)
    then show ?thesis using f(1) by (simp add: follower_inv_def raft_ok_def rcommit_def)
  qed
  then show "prefix (rlog c i) (rlog c l)" "rcommit c i \<le> rcommit c l" "log_wf (raftlog (rnodes c i))" by simp_all
qed

lemma take_prefix_eq: "prefix xs ys \<Longrightarrow> n \<le> length xs \<Longrightarrow> take n xs = take n ys"
  by (auto simp: prefix_def)

lemma take_take_prefix: "m \<le> n \<Longrightarrow> prefix (take m xs) (take n xs)"
  by (metis min.absorb1 take_is_prefix take_take)

lemma applied_at_prefix:
  assumes "rep_inv ms l c" and "i \<in> set ms"
  shows "prefix (applied_at c i) (decided_entries l c)"
proof -
  note p = rep_log_prefix [OF assms]
  let ?a = "nat (lastApplied (raftlog (rnodes c i)))"
  have "?a \<le> length (rlog c i)" "?a \<le> nat (rcommit c l)" using p(2,3) by (auto simp: log_wf_def rlog_def rcommit_def)
  then show ?thesis
    using take_prefix_eq [OF p(1)] take_take_prefix by (simp add: applied_at_def decided_entries_def)
qed

lemma rep_step_leader:
  assumes inv: "rep_inv ms l c" and step: "rep_step ms l c c'"
  shows "(\<exists>xs. rlog c' l = rlog c l @ xs) \<and> rcommit c l \<le> rcommit c' l"
proof -
  have gr: "(\<exists>xs. rlog (put_rnode c i r q) l = rlog c l @ xs) \<and> rcommit c l \<le> rcommit (put_rnode c i r q) l"
    if "grows (rnodes c i) r" for i r q
    using that by (auto simp: grows_def rlog_def rcommit_def)
  show ?thesis
    using step
  proof cases
    case (propose k v i r e)
    show ?thesis unfolding propose(1) by (rule gr) (rule Step_grows [OF propose(3)])
  next
    case (tick i r)
    show ?thesis unfolding tick(1) by (rule gr) (rule Tick_grows [OF tick(4)])
  next
    case (deliver m i r e)
    show ?thesis unfolding deliver(1) by (rule gr) (rule Step_grows [OF deliver(5)])
  next
    case (exchange i r rd)
    then have "raft_ok (rnodes c i)" "readyc (rnodes c i) = []"
      using inv by (cases "i = l"; auto simp: rep_inv_def leader_inv_def follower_inv_def)+
    from exchange_node(2) [OF this exchange(3,4)] show ?thesis by (auto simp: exchange(1) rlog_def rcommit_def)
  qed (simp add: rlog_def rcommit_def)
qed

lemma decided_extends:
  assumes "rep_inv ms l c" and "rep_step ms l c c'"
  shows "prefix (decided_entries l c) (decided_entries l c')"
proof -
  obtain xs where xs: "rlog c' l = rlog c l @ xs" and le: "rcommit c l \<le> rcommit c' l" using rep_step_leader [OF assms] by blast
  have "l \<in> set ms" using assms(1) by (simp add: rep_inv_def)
  then have "nat (rcommit c l) \<le> length (rlog c l)" using rep_log_prefix(3) [OF assms(1), of l] by (auto simp: log_wf_def rlog_def rcommit_def)
  then have "decided_entries l c = take (nat (rcommit c l)) (rlog c' l)" by (simp add: decided_entries_def xs)
  then show ?thesis using le by (simp add: decided_entries_def take_take_prefix nat_mono)
qed

interpretation replicated: decided_log "rep_reach ms l" "rep_step ms l" "decided_entries l" applied_at "\<lambda>i. i \<in> set ms" for ms l
  by unfold_locales (auto intro: rep_reach.step decided_extends applied_at_prefix dest: rep_reach_inv)

section \<open>Progress\<close>

text \<open>What the leader knows about its last entry: it is committed once a quorum is known to have it.\<close>

definition counted :: "raft \<Rightarrow> bool" where
  "counted r \<longleftrightarrow> (quorum r \<le> replicatedCount r (lastIndex (raftlog r)) \<longrightarrow> commitIndex (raftlog r) = lastIndex (raftlog r))"

lemma leader_ack_counted:
  assumes ok: "raft_ok r" and st: "state r = StateLeader" and step: "Step r (ack_of r p) = Inr (r', e)"
    and own: "entries (raftlog r) \<noteq> []" "Term (last (entries (raftlog r))) = currentTerm r"
  shows "counted r'"
proof -
  define r1 where "r1 = r\<lparr>progress := AList.update p \<lparr>matchIndex = lastIndex (raftlog r), nextIndex = lastIndex (raftlog r) + 1\<rparr> (progress r)\<rparr>"
  define C where "C = Max (insert (commitIndex (raftlog r)) {i. commitIndex (raftlog r) < i \<and> committable r1 i})"
  note acked = leader_ack_step [OF ok st step, folded r1_def C_def]
  have wf: "log_wf (raftlog r)" using ok by (simp add: raft_ok_def)
  then have last: "lastIndex (raftlog r) = int (length (entries (raftlog r)))" "commitIndex (raftlog r) \<le> lastIndex (raftlog r)"
    by (simp_all add: log_wf_def lastIndex_wf)
  have le: "C \<le> lastIndex (raftlog r)" using acked(3) last(2) by (auto simp: committable_def r1_def)
  have "lastIndex (raftlog r) \<le> C" if q: "quorum r1 \<le> replicatedCount r1 (lastIndex (raftlog r))"
  proof (cases "commitIndex (raftlog r) < lastIndex (raftlog r)")
    case True
    have "nat (lastIndex (raftlog r) - 1) = length (entries (raftlog r)) - 1" using last(1) by simp
    then have "committable r1 (lastIndex (raftlog r))"
      using q own last(1) by (simp add: committable_def r1_def last_conv_nth)
    then show ?thesis unfolding C_def using True finite_committable [of "commitIndex (raftlog r)" r1] by (intro Max_ge) simp_all
  next
    case False
    then have "lastIndex (raftlog r) \<le> commitIndex (raftlog r)" by simp
    also have "\<dots> \<le> C" using acked(3) by auto
    finally show ?thesis .
  qed
  then show ?thesis
    using le by (auto simp: counted_def acked(1) r1_def lastIndex_def quorum_def replicatedCount_def)
qed

lemma has_ready_outq: "outq r \<noteq> {#} \<Longrightarrow> has_ready r"
  by (auto simp: outq_def has_ready_def)

lemma exchange_possible:
  assumes inv: "rep_inv ms l c" and i: "i \<in> set ms" and out: "outq (rnodes c i) \<noteq> {#}"
  obtains r where "rep_step ms l c (put_rnode c i r (flight c + outq (rnodes c i)))" and "outq r = {#}"
    and "raftlog r = (raftlog (rnodes c i))\<lparr>stableIndex := stableIndex (raftlog r), lastApplied := lastApplied (raftlog r)\<rparr>"
    and "currentTerm r = currentTerm (rnodes c i)" and "ID r = ID (rnodes c i)" and "progress r = progress (rnodes c i)"
proof -
  let ?n = "rnodes c i"
  have ok: "raft_ok ?n" "readyc ?n = []"
    using inv i by (cases "i = l"; simp add: rep_inv_def leader_inv_def follower_inv_def)+
  have wf: "log_wf (raftlog ?n)" using ok(1) by (simp add: raft_ok_def)
  obtain r1 rd where r1: "Ready ?n = Some (Inr r1)" "readyc r1 = [rd]"
    using Ready_eq [OF wf ok(2)] has_ready_outq [OF out] by simp
  note ex = exchange_node [OF ok r1]
  let ?r = "Advance (r1\<lparr>readyc := []\<rparr>)"
  have "rep_step ms l c (put_rnode c i ?r (flight c + mset (rdMessages rd) + mset (rdMessagesAfterAppend rd)))"
    by (rule rep_step.exchange [OF i r1])
  then have "rep_step ms l c (put_rnode c i ?r (flight c + outq ?n))" using ex(1) by (metis add.assoc)
  moreover have "raftlog ?r = (raftlog ?n)\<lparr>stableIndex := stableIndex (raftlog ?r), lastApplied := lastApplied (raftlog ?r)\<rparr>"
    using ex(2) by simp
  ultimately show ?thesis using ex by (intro that [of ?r]) simp_all
qed

text \<open>The append for one peer is delivered, its acknowledgement is sent and delivered.\<close>

lemma round_trip:
  assumes inv: "rep_inv ms l c" and p: "p \<in> set ms - {l}"
    and m: "append_of (rnodes c l) p k \<in># flight c" "carries (append_of (rnodes c l) p k)"
  obtains r2 r3 where "(rep_step ms l)\<^sup>*\<^sup>* c \<lparr>rnodes = (rnodes c)(p := r2, l := r3), flight = flight c - {#append_of (rnodes c l) p k#}\<rparr>"
    and "outq r2 = {#}" and "Step (rnodes c l) (ack_of (rnodes c l) p) = Inr (r3, None)"
    and "pend (flight c - {#append_of (rnodes c l) p k#}) (rnodes c l) p r2 = {#}"
proof -
  let ?lead = "rnodes c l" and ?a = "rnodes c p" and ?m = "append_of (rnodes c l) p k" and ?ack = "ack_of (rnodes c l) p"
  have lead: "leader_inv ms l ?lead" and ms: "l \<in> set ms" using inv by (simp_all add: rep_inv_def)
  have f: "follower_inv ?lead p ?a" "phase (flight c) ?lead p ?a" using inv p by (simp_all add: rep_inv_def)
  have ab: "about p ?m" using m(2) by (simp add: about_def append_of_sel)
  obtain k' where k': "k' \<le> commitIndex (raftlog ?lead)" "?m = append_of ?lead p k'" "pend (flight c) ?lead p ?a = {#?m#}"
    "entries (raftlog ?a) = take (nat (nextIndex (prog_of ?lead p) - 1)) (entries (raftlog ?lead))"
  proof (rule pend_about [OF f(2) m(1) ab])
    assume "?m = ?ack"
    then have "mType ?m = mType ?ack" by simp
    then show thesis by (simp add: append_of_sel)
  qed (rule that)
  have out: "outq ?a = {#}"
  proof -
    have "filter_mset (about p) (flight c - {#?m#} + outq ?lead + outq ?a) = {#}"
      using pend_deliver [OF m(1) k'(3) ab] by (simp add: pend_def)
    moreover have "\<forall>x \<in># outq ?a. about p x" using f(1) by (simp add: follower_inv_def about_def)
    ultimately show ?thesis by (metis filter_mset_eq_mempty_iff multiset_nonemptyE union_iff)
  qed
  obtain r1 where r1: "Step ?a ?m = Inr (r1, None)" "outq r1 = {#?ack#}"
  proof (rule append_received [OF lead p f(1) k'(4,1)])
    show "carries (append_of ?lead p k')" using m(2) k'(2) by simp
  qed (use k'(2) out that in simp)
  let ?c1 = "put_rnode c p r1 (flight c - {#?m#})"
  have s1: "rep_step ms l c ?c1" using rep_step.deliver [OF m(1) _ _ r1(1)] p by (simp add: append_of_sel)
  have inv1: "rep_inv ms l ?c1" by (rule rep_step_inv [OF inv s1])
  have pl: "p \<noteq> l" "p \<in> set ms" using p by simp_all
  obtain r2 where r2: "rep_step ms l ?c1 (put_rnode ?c1 p r2 (flight ?c1 + outq r1))" "outq r2 = {#}"
    using exchange_possible [OF inv1 pl(2)] r1(2) by auto
  let ?c2 = "put_rnode ?c1 p r2 (flight ?c1 + outq r1)"
  have ok: "raft_ok ?lead" "state ?lead = StateLeader" and ID: "ID ?lead = l" using lead by (simp_all add: leader_inv_def)
  obtain r3 where r3: "Step ?lead ?ack = Inr (r3, None)"
    using handleAppendResponse_ok [OF ok, of ?ack] ok by (auto simp: Step_def stepLeader_def append_of_sel raft_ok_def role_ok_def done_step_def)
  have "?ack \<in># flight ?c2" using r1(2) by simp
  moreover have "mTo ?ack = l" by (simp add: append_of_sel ID)
  moreover have "Step (rnodes ?c2 l) ?ack = Inr (r3, None)" using r3 pl by simp
  ultimately have s3: "rep_step ms l ?c2 (put_rnode ?c2 l r3 (flight ?c2 - {#?ack#}))" using ms by (blast intro: rep_step.deliver)
  have eq: "put_rnode ?c2 l r3 (flight ?c2 - {#?ack#}) = \<lparr>rnodes = (rnodes c)(p := r2, l := r3), flight = flight c - {#?m#}\<rparr>"
    by (simp add: put_rnode_def r1(2))
  have "(rep_step ms l)\<^sup>*\<^sup>* c \<lparr>rnodes = (rnodes c)(p := r2, l := r3), flight = flight c - {#?m#}\<rparr>"
    using rtranclp.rtrancl_into_rtrancl [of "rep_step ms l" c, OF _ s3] r2(1) r_into_rtranclp [of "rep_step ms l", OF s1]
    unfolding eq by (meson rtranclp.rtrancl_into_rtrancl)
  moreover have "pend (flight c - {#?m#}) ?lead p r2 = {#}"
    using pend_deliver [OF m(1) k'(3) ab] out r2(2) by (simp add: pend_def)
  ultimately show ?thesis using r2(2) r3 by (intro that)
qed

text \<open>The peers that still have to take part in the round, and what the others leave behind.\<close>

definition round_state :: "int list \<Rightarrow> int \<Rightarrow> log list \<Rightarrow> int list \<Rightarrow> rep_cluster \<Rightarrow> bool" where
  "round_state ms l es ps c \<longleftrightarrow> rlog c l = es \<and> Term (last es) = currentTerm (rnodes c l)
     \<and> (\<forall>p \<in> set ps. \<exists>k. append_of (rnodes c l) p k \<in># flight c \<and> carries (append_of (rnodes c l) p k))
     \<and> (\<forall>p \<in> set ms - {l} - set ps. pend (flight c) (rnodes c l) p (rnodes c p) = {#}
          \<and> matchIndex (prog_of (rnodes c l) p) = int (length es))
     \<and> (set ps \<subset> set ms - {l} \<longrightarrow> counted (rnodes c l))"

lemma round_state_step:
  assumes inv: "rep_inv ms l c" and es: "es \<noteq> []" and st: "round_state ms l es (p # ps) c"
    and ps: "set (p # ps) \<subseteq> set ms - {l}" "distinct (p # ps)"
  obtains c' where "(rep_step ms l)\<^sup>*\<^sup>* c c'" and "round_state ms l es ps c'"
proof -
  let ?lead = "rnodes c l"
  have p: "p \<in> set ms - {l}" using ps(1) by simp
  obtain k where k: "append_of ?lead p k \<in># flight c" "carries (append_of ?lead p k)" using st by (auto simp: round_state_def)
  let ?m = "append_of ?lead p k"
  obtain r2 r3 where r: "(rep_step ms l)\<^sup>*\<^sup>* c \<lparr>rnodes = (rnodes c)(p := r2, l := r3), flight = flight c - {#?m#}\<rparr>"
    "outq r2 = {#}" "Step ?lead (ack_of ?lead p) = Inr (r3, None)" "pend (flight c - {#?m#}) ?lead p r2 = {#}"
    by (rule round_trip [OF inv p k])
  let ?c = "\<lparr>rnodes = (rnodes c)(p := r2, l := r3), flight = flight c - {#?m#}\<rparr>"
  have ok: "raft_ok ?lead" "state ?lead = StateLeader" using inv by (simp_all add: rep_inv_def leader_inv_def)
  have log: "entries (raftlog ?lead) = es" "Term (last es) = currentTerm ?lead" using st by (simp_all add: round_state_def rlog_def)
  have last: "lastIndex (raftlog ?lead) = int (length es)" using ok(1) log(1) by (simp add: raft_ok_def log_wf_def lastIndex_wf)
  note acked = leader_ack_step [OF ok r(3)]
  have r3: "entries (raftlog r3) = es" "currentTerm r3 = currentTerm ?lead" "ID r3 = ID ?lead" "outq r3 = outq ?lead"
    using log(1) by (simp_all add: acked(1) outq_def)
  have prog: "prog_of r3 p' = (if p' = p then \<lparr>matchIndex = int (length es), nextIndex = int (length es) + 1\<rparr> else prog_of ?lead p')" for p'
    by (simp add: acked(1) prog_of_def update_conv' last)
  have app: "append_of r3 p' k' = append_of ?lead p' k'" if "p' \<noteq> p" for p' k'
    using that prog [of p'] r3 log(1) by (simp add: append_of_def append_for_def prog_of_def Let_def)
  have other: "mTo ?m = p" "\<And>p'. p' \<noteq> p \<Longrightarrow> \<not> about p' ?m" by (simp_all add: append_of_sel about_def)
  have counted: "counted r3" using leader_ack_counted [OF ok r(3)] es log by simp
  have "round_state ms l es ps ?c"
    unfolding round_state_def
  proof (intro conjI ballI impI)
    fix p' assume p': "p' \<in> set ps"
    then obtain k' where "append_of ?lead p' k' \<in># flight c" "carries (append_of ?lead p' k')"
      using st unfolding round_state_def by (meson list.set_intros(2))
    moreover have "p' \<noteq> p" using p' ps(2) by auto
    moreover have "append_of ?lead p' k' \<noteq> ?m" using calculation(3) append_of_sel(2) by metis
    ultimately show "\<exists>k. append_of (rnodes ?c l) p' k \<in># flight ?c \<and> carries (append_of (rnodes ?c l) p' k)"
      using app by (intro exI [of _ k']) (simp add: in_diff_count not_in_iff)
  next
    fix p' assume p': "p' \<in> set ms - {l} - set ps"
    show "pend (flight ?c) (rnodes ?c l) p' (rnodes ?c p') = {#}" "matchIndex (prog_of (rnodes ?c l) p') = int (length es)"
    proof -
      have "pend (flight ?c) (rnodes ?c l) p' (rnodes ?c p') = {#} \<and> matchIndex (prog_of r3 p') = int (length es)"
      proof (cases "p' = p")
        case True
        then show ?thesis using r(4) p r3(4) prog [of p] by (simp add: pend_def)
      next
        case False
        then have "pend (flight c) ?lead p' (rnodes c p') = {#}" "matchIndex (prog_of ?lead p') = int (length es)"
          using st p' by (simp_all add: round_state_def)
        then show ?thesis using False p' r3(4) prog [of p'] other(2) [OF False] by (simp add: pend_def)
      qed
      then show "pend (flight ?c) (rnodes ?c l) p' (rnodes ?c p') = {#}" "matchIndex (prog_of (rnodes ?c l) p') = int (length es)"
        by simp_all
    qed
  qed (use r3 log counted in \<open>simp_all add: rlog_def\<close>)
  with r(1) show ?thesis by (rule that)
qed

lemma round_state_all:
  assumes "rep_inv ms l c" and "es \<noteq> []" and "round_state ms l es ps c" and "set ps \<subseteq> set ms - {l}" and "distinct ps"
  shows "\<exists>c'. (rep_step ms l)\<^sup>*\<^sup>* c c' \<and> rep_inv ms l c' \<and> round_state ms l es [] c'"
  using assms
proof (induction ps arbitrary: c)
  case (Cons p ps)
  obtain c1 where c1: "(rep_step ms l)\<^sup>*\<^sup>* c c1" "round_state ms l es ps c1"
    by (rule round_state_step [OF Cons.prems(1-5)])
  have "rep_inv ms l c1" using c1(1) Cons.prems(1) by (induction rule: rtranclp_induct) (auto intro: rep_step_inv)
  then obtain c' where "(rep_step ms l)\<^sup>*\<^sup>* c1 c'" "rep_inv ms l c'" "round_state ms l es [] c'"
    using Cons.IH [OF _ _ c1(2)] Cons.prems by auto
  then show ?case using c1(1) by (meson rtranclp_trans)
qed auto

lemma pend_quiet:
  assumes inv: "rep_inv ms l c" and none: "\<forall>p \<in> set ms - {l}. pend (flight c) (rnodes c l) p (rnodes c p) = {#}"
  shows "quiet ms c"
proof -
  have l: "l \<in> set ms" using inv by (simp add: rep_inv_def)
  have no: "\<not> about p m" if "p \<in> set ms - {l}" "m \<in># flight c + outq (rnodes c l) + outq (rnodes c p)" for p m
    using none that by (auto simp: pend_def)
  have calm: "mType m \<noteq> MSG_APP_RESP \<and> \<not> carries m" if m: "m \<in># flight c + outq (rnodes c l)" for m
  proof -
    obtain p where p: "p \<in> set ms - {l}" "about p m \<or> mTo m = p \<and> beat_ok (rnodes c l) m (rnodes c p)"
      using inv m unfolding rep_inv_def by blast
    moreover have "\<not> about p m" using no [OF p(1)] m by auto
    ultimately show ?thesis by (auto simp: beat_ok_def carries_def)
  qed
  have "outq (rnodes c i) = {#}" if i: "i \<in> set ms - {l}" for i
  proof (rule ccontr)
    assume "outq (rnodes c i) \<noteq> {#}"
    then obtain m where m: "m \<in># outq (rnodes c i)" by (meson multiset_nonemptyE)
    have "follower_inv (rnodes c l) i (rnodes c i)" using inv i by (simp add: rep_inv_def)
    then have "about i m" using m by (simp add: follower_inv_def about_def)
    then show False using no [OF i, of m] m by simp
  qed
  then have "m \<in># flight c + outq (rnodes c l)" if "i \<in> set ms" "m \<in># flight c + outq (rnodes c i)" for i m
    using that by (cases "i = l") auto
  then show ?thesis unfolding quiet_def using calm by blast
qed

lemma round_state_committed:
  assumes inv: "rep_inv ms l c" and st: "round_state ms l es [] c" and es: "es \<noteq> []" and two: "2 \<le> length ms"
  shows "rcommit c l = int (length es) \<and> quiet ms c"
proof -
  let ?r = "rnodes c l"
  have lead: "leader_inv ms l ?r" and ms: "distinct ms" "l \<in> set ms" using inv by (simp_all add: rep_inv_def)
  have keys: "distinct (map fst (progress ?r))" "set (map fst (progress ?r)) \<subseteq> set ms - {l}" and size: "clusterSize ?r = int (length ms)"
    using lead by (simp_all add: leader_inv_def raft_ok_def prog_ok_def)
  have card: "card (set ms - {l}) = length ms - 1" using ms by (simp add: distinct_card)
  have "card (set ms - {l}) \<noteq> 0" using card two by simp
  then have peer: "set ms - {l} \<noteq> {}" by (metis card.empty)
  have m: "matchIndex (prog_of ?r p) = int (length es)" if "p \<in> set ms - {l}" for p using st that by (simp add: round_state_def)
  have last: "lastIndex (raftlog ?r) = int (length es)"
    using lead st by (simp add: leader_inv_def raft_ok_def log_wf_def lastIndex_wf round_state_def rlog_def)
  let ?f = "filter (\<lambda>(p, q). int (length es) \<le> matchIndex q) (progress ?r)"
  have "set ms - {l} \<subseteq> fst ` set ?f"
  proof
    fix p assume p: "p \<in> set ms - {l}"
    have "map_of (progress ?r) p \<noteq> None" using m [OF p] es by (auto simp: prog_of_def split: option.splits)
    then obtain q where q: "map_of (progress ?r) p = Some q" by blast
    then have "(p, q) \<in> set ?f" using m [OF p] map_of_SomeD [OF q] by (simp add: prog_of_def)
    then show "p \<in> fst ` set ?f" by force
  qed
  then have "length ms - 1 \<le> card (fst ` set ?f)" using card card_mono [of "fst ` set ?f" "set ms - {l}"] by simp
  also have "\<dots> \<le> length ?f" using card_image_le [of "set ?f" fst] card_length [of ?f] by (meson List.finite_set order_trans)
  finally have "int (length ms) \<le> replicatedCount ?r (int (length es))" by (simp add: replicatedCount_def)
  moreover have "quorum ?r \<le> int (length ms)" using size two by (simp add: quorum_def)
  moreover have "counted ?r" using st peer by (auto simp: round_state_def)
  ultimately have "commitIndex (raftlog ?r) = int (length es)" unfolding counted_def last by simp
  moreover have "quiet ms c" using st by (intro pend_quiet [OF inv]) (simp add: round_state_def)
  ultimately show ?thesis by (simp add: rcommit_def)
qed

text \<open>A proposal is appended and, after the exchange of a \<^verbatim>\<open>Ready\<close>, an append for every peer is under way.\<close>

lemma propose_round:
  fixes k v :: bytes and i :: nat
  assumes inv: "rep_inv ms l c" and quiet: "quiet ms c" and two: "2 \<le> length ms"
  defines "es \<equiv> rlog c l @ [\<lparr>Term = currentTerm (rnodes c l), Id = int (length (rlog c l)) + 1,
    Data = Some \<lparr>Op = ''PUT'', Key = k, Val = v, RequestId = i\<rparr>\<rparr>]"
  obtains c' where "(rep_step ms l)\<^sup>*\<^sup>* c c'" and "rep_inv ms l c'" and "round_state ms l es (peers (rnodes c l)) c'"
proof -
  let ?lead = "rnodes c l"
  have lead: "leader_inv ms l ?lead" and ms: "distinct ms" "l \<in> set ms" using inv by (simp_all add: rep_inv_def)
  have sp: "set (peers ?lead) = set ms - {l}" and ok: "raft_ok ?lead" "state ?lead = StateLeader" using lead by (simp_all add: leader_inv_def)
  let ?r = "?lead\<lparr>raftlog := (raftlog ?lead)\<lparr>entries := es\<rparr>, msgsAfterAppend := msgsAfterAppend ?lead @ map (append_for ?lead es) (peers ?lead)\<rparr>"
  have step: "Step ?lead (proposal k v i) = Inr (?r, None)"
    using Step_proposes(1) [OF ok, of "proposal k v i"] by (simp add: proposal_def no_message_def es_def rlog_def)
  let ?c0 = "put_rnode c l ?r (flight c)"
  have s0: "rep_step ms l c ?c0" by (rule rep_step.propose [OF quiet step])
  have inv0: "rep_inv ms l ?c0" by (rule rep_step_inv [OF inv s0])
  have "card (set ms - {l}) \<noteq> 0" using ms two by (simp add: distinct_card)
  then have "peers ?lead \<noteq> []" using sp by (metis card.empty list.set(1))
  then have out: "outq (rnodes ?c0 l) \<noteq> {#}" by (simp add: outq_def)
  obtain r' where r': "rep_step ms l ?c0 (put_rnode ?c0 l r' (flight ?c0 + outq (rnodes ?c0 l)))"
    "raftlog r' = (raftlog ?r)\<lparr>stableIndex := stableIndex (raftlog r'), lastApplied := lastApplied (raftlog r')\<rparr>"
    "currentTerm r' = currentTerm ?r" "ID r' = ID ?r" "progress r' = progress ?r"
    using exchange_possible [OF inv0 ms(2) out] by auto
  let ?c1 = "put_rnode ?c0 l r' (flight ?c0 + outq (rnodes ?c0 l))"
  have s: "(rep_step ms l)\<^sup>*\<^sup>* c ?c1" using s0 r'(1) by (meson rtranclp.rtrancl_into_rtrancl rtranclp.rtrancl_refl)
  have es': "entries (raftlog r') = es" using arg_cong [OF r'(2), of entries] by simp
  have "append_of r' p (commitIndex (raftlog ?lead)) = append_for ?lead es p" for p
    using r'(3-5) es' by (simp add: append_of_def append_for_def prog_of_def Let_def)
  moreover have "carries (append_for ?lead es p)" if "p \<in> set ms - {l}" for p
    using leader_next [OF lead that] by (auto simp: carries_def append_for_def no_message_def Let_def es_def rlog_def)
  moreover have "append_for ?lead es p \<in># outq ?r" if "p \<in> set (peers ?lead)" for p using that by (simp add: outq_def)
  ultimately have "\<exists>k. append_of r' p k \<in># flight ?c1 \<and> carries (append_of r' p k)" if "p \<in> set (peers ?lead)" for p
    using that sp by (intro exI [of _ "commitIndex (raftlog ?lead)"]) simp
  then have "round_state ms l es (peers ?lead) ?c1"
    using es' r'(3) sp by (simp add: round_state_def rlog_def) (simp add: es_def)
  then show ?thesis using that s rep_step_inv [OF inv0 r'(1)] by blast
qed

lemma round_commits:
  fixes k v :: bytes and i :: nat
  assumes "rep_reach ms l c" and "quiet ms c" and "2 \<le> length ms"
  shows "\<exists>c'. (rep_step ms l)\<^sup>*\<^sup>* c c' \<and> quiet ms c' \<and> rcommit c' l = int (length (rlog c l)) + 1
    \<and> rlog c' l = rlog c l @ [\<lparr>Term = currentTerm (rnodes c l), Id = int (length (rlog c l)) + 1,
         Data = Some \<lparr>Op = ''PUT'', Key = k, Val = v, RequestId = i\<rparr>\<rparr>]"
proof -
  let ?es = "rlog c l @ [\<lparr>Term = currentTerm (rnodes c l), Id = int (length (rlog c l)) + 1,
    Data = Some \<lparr>Op = ''PUT'', Key = k, Val = v, RequestId = i\<rparr>\<rparr>]"
  have inv: "rep_inv ms l c" by (rule rep_reach_inv [OF assms(1)])
  then have lead: "set (peers (rnodes c l)) \<subseteq> set ms - {l}" "distinct (peers (rnodes c l))" by (simp_all add: rep_inv_def leader_inv_def)
  obtain c1 where c1: "(rep_step ms l)\<^sup>*\<^sup>* c c1" "rep_inv ms l c1" "round_state ms l ?es (peers (rnodes c l)) c1"
    by (rule propose_round [OF inv assms(2,3)])
  obtain c' where c': "(rep_step ms l)\<^sup>*\<^sup>* c1 c'" "rep_inv ms l c'" "round_state ms l ?es [] c'"
    using round_state_all [OF c1(2) _ c1(3) lead] by blast
  have "rcommit c' l = int (length ?es) \<and> quiet ms c'" by (rule round_state_committed [OF c'(2,3) _ assms(3)]) simp
  moreover have "rlog c' l = ?es" using c'(3) by (simp add: round_state_def)
  ultimately show ?thesis using rtranclp_trans [OF c1(1) c'(1)] by auto
qed

section \<open>A cluster that has just elected its leader\<close>

definition elected :: rep_cluster where
  "elected = \<lparr>rnodes = (\<lambda>i. if i = 1 then becomeLeader ((candidate (NewRaft 1 [2, 3]))\<lparr>votes := Some [(1, True), (2, True)]\<rparr>)
       else if i = 2 then (becomeFollower (NewRaft 2 [1, 3]) 1)\<lparr>votedFor := [1 \<mapsto> 1]\<rparr>
       else NewRaft i (filter (\<lambda>j. j \<noteq> i) [1, 2, 3])), flight = {#}\<rparr>"

lemma elected_start: "rep_start [1, 2, 3] 1 elected"
proof -
  let ?c = "(candidate (NewRaft 1 [2, 3]))\<lparr>votes := Some [(1, True), (2, True)]\<rparr>"
  let ?f = "(becomeFollower (NewRaft 2 [1, 3]) 1)\<lparr>votedFor := [1 \<mapsto> 1]\<rparr>"
  have cand: "raft_ok (candidate (NewRaft 1 [2, 3]))" "currentTerm (candidate (NewRaft 1 [2, 3])) = 1"
    using candidate_ok [OF NewRaft_ok, of 1 "[2, 3]"] by (simp_all add: NewRaft_fields)
  then have "raft_ok ?c" by (simp add: raft_ok_def role_ok_def votes_ok_def prog_ok_def prog_of_def candidate_def)
  then have lead: "raft_ok (becomeLeader ?c)" by (intro becomeLeader_ok) (simp_all add: raft_ok_def role_ok_def)
  have "raft_ok (becomeFollower (NewRaft 2 [1, 3]) 1)" by (rule becomeFollower_ok [OF NewRaft_ok]) (simp add: NewRaft_fields)
  then have foll: "raft_ok ?f" by (simp add: raft_ok_def role_ok_def votes_ok_def prog_ok_def prog_of_def)
  have "msgs (NewRaft i ps) = []" "msgsAfterAppend (NewRaft i ps) = []" "progress (NewRaft i ps) = []" for i ps
    by (simp_all add: NewRaft_def becomeFollower_def Let_def)
  then show ?thesis
    using lead foll cand NewRaft_ok [of 3 "[1, 2]"] becomeLeader_prog [of ?c]
    by (simp add: rep_start_def elected_def NewRaft_fields outq_def candidate_def newRaftLog_def lastIndex_def)
      (simp add: becomeLeader_def Let_def candidate_def NewRaft_fields becomeCandidate_def)
qed

lemma elected_reach: "rep_reach [1, 2, 3] 1 elected"
  by (rule rep_reach.start [OF elected_start])

lemma elected_quiet: "quiet [1, 2, 3] elected" and elected_empty: "rlog elected 1 = []"
  using elected_start unfolding rep_start_def quiet_def by (simp_all add: rlog_def elected_def NewRaft_fields newRaftLog_def)

lemma elected_run:
  obtains c where "(rep_step [1, 2, 3] 1)\<^sup>*\<^sup>* elected c" and "rcommit c 1 = 1" and "rep_reach [1, 2, 3] 1 c"
proof -
  obtain c where c: "(rep_step [1, 2, 3] 1)\<^sup>*\<^sup>* elected c" "rcommit c 1 = 1"
    using round_commits [OF elected_reach elected_quiet, of "''k''" "''v''" 7] elected_empty by auto
  moreover have "rep_reach [1, 2, 3] 1 c"
    using c(1) elected_reach by (induction rule: rtranclp_induct) (auto intro: rep_reach.step)
  ultimately show ?thesis by (rule that)
qed

section \<open>Properties\<close>



text \<open>
  The cluster implements one decided log. Under the same conditions the entries that two nodes have
  handed out for application, one of them at any later time than the other, agree: one sequence is a
  prefix of the other.
\<close>

theorem replication_one_log:
  assumes "rep_reach ms l c" and "(rep_step ms l)\<^sup>*\<^sup>* c c'" and "i \<in> set ms" and "j \<in> set ms"
  shows "prefix (applied_at c i) (applied_at c' j) \<or> prefix (applied_at c' j) (applied_at c i)"
  by (rule replicated.never_disagree [OF assms])

theorem replication_one_log_witness:
  "\<exists>c. rep_reach [1, 2, 3] 1 c \<and> rcommit c 1 = 1
     \<and> (prefix (applied_at elected 2) (applied_at c 3) \<or> prefix (applied_at c 3) (applied_at elected 2))"
proof -
  obtain c where c: "(rep_step [1, 2, 3] 1)\<^sup>*\<^sup>* elected c" "rcommit c 1 = 1" and reach: "rep_reach [1, 2, 3] 1 c"
    by (rule elected_run)
  then show ?thesis using replication_one_log [OF elected_reach c(1), of 2 3] c(2) by auto
qed



end
