(* ===== verification/Raft_Pending.thy ===== *)
theory Raft_Pending
  imports Raft_Node
begin

text \<open>
  A \<^verbatim>\<open>Ready\<close> that has been put into the channel of the run loop and not yet been taken. The select of the loop
  may take another case first, so the state machine runs on while its messages wait in the channel. The
  handlers only ever add messages behind those that wait, so the state machine with the waiting messages
  put back behaves like one whose messages had not been collected yet.
\<close>

section \<open>Messages in front\<close>

definition behind :: "message list \<Rightarrow> message list \<Rightarrow> ready list \<Rightarrow> raft \<Rightarrow> raft" where
  "behind x y z r = r\<lparr>msgs := x @ msgs r, msgsAfterAppend := y @ msgsAfterAppend r, readyc := z\<rparr>"

lemma behind_sel [simp]:
  "ID (behind x y z r) = ID r" "currentTerm (behind x y z r) = currentTerm r" "votedFor (behind x y z r) = votedFor r"
  "state (behind x y z r) = state r" "electionTick (behind x y z r) = electionTick r" "electionTimeout (behind x y z r) = electionTimeout r"
  "randomizedTimeout (behind x y z r) = randomizedTimeout r" "heartbeatTick (behind x y z r) = heartbeatTick r"
  "heartbeatTimeout (behind x y z r) = heartbeatTimeout r" "clusterSize (behind x y z r) = clusterSize r" "peers (behind x y z r) = peers r"
  "stepf (behind x y z r) = stepf r" "tickf (behind x y z r) = tickf r" "votes (behind x y z r) = votes r"
  "raftlog (behind x y z r) = raftlog r" "progress (behind x y z r) = progress r" "readyc (behind x y z r) = z"
  "msgs (behind x y z r) = x @ msgs r" "msgsAfterAppend (behind x y z r) = y @ msgsAfterAppend r"
  by (simp_all add: behind_def)

lemma behind_fields:
  "prog_of (behind x y z r) = prog_of r" "quorum (behind x y z r) = quorum r" "replicatedCount (behind x y z r) = replicatedCount r"
  "vote_msg (behind x y z r) = vote_msg r" "append_resp (behind x y z r) = append_resp r" "append_msg (behind x y z r) = append_msg r"
  "heartbeat_msg (behind x y z r) = heartbeat_msg r" "isLead (behind x y z r) = isLead r"
  by (simp_all add: fun_eq_iff prog_of_def quorum_def replicatedCount_def vote_msg_def append_resp_def append_msg_def heartbeat_msg_def isLead_def Let_def
      cong: if_cong)

lemma behind_upd:
  "(behind x y z r)\<lparr>state := a\<rparr> = behind x y z (r\<lparr>state := a\<rparr>)" "(behind x y z r)\<lparr>currentTerm := b\<rparr> = behind x y z (r\<lparr>currentTerm := b\<rparr>)"
  "(behind x y z r)\<lparr>votedFor := c\<rparr> = behind x y z (r\<lparr>votedFor := c\<rparr>)" "(behind x y z r)\<lparr>stepf := d\<rparr> = behind x y z (r\<lparr>stepf := d\<rparr>)"
  "(behind x y z r)\<lparr>tickf := d\<rparr> = behind x y z (r\<lparr>tickf := d\<rparr>)" "(behind x y z r)\<lparr>electionTick := i\<rparr> = behind x y z (r\<lparr>electionTick := i\<rparr>)"
  "(behind x y z r)\<lparr>heartbeatTick := i\<rparr> = behind x y z (r\<lparr>heartbeatTick := i\<rparr>)"
  "(behind x y z r)\<lparr>randomizedTimeout := i\<rparr> = behind x y z (r\<lparr>randomizedTimeout := i\<rparr>)"
  "(behind x y z r)\<lparr>votes := e\<rparr> = behind x y z (r\<lparr>votes := e\<rparr>)" "(behind x y z r)\<lparr>raftlog := f\<rparr> = behind x y z (r\<lparr>raftlog := f\<rparr>)"
  "(behind x y z r)\<lparr>progress := g\<rparr> = behind x y z (r\<lparr>progress := g\<rparr>)"
  "(behind x y z r)\<lparr>msgs := x @ ms\<rparr> = behind x y z (r\<lparr>msgs := ms\<rparr>)"
  "(behind x y z r)\<lparr>msgsAfterAppend := y @ ms\<rparr> = behind x y z (r\<lparr>msgsAfterAppend := ms\<rparr>)"
  by (simp_all add: behind_def)

lemmas behind_simps = behind_fields behind_upd

lemma behind_roles:
  "becomeFollower (behind x y z r) t = behind x y z (becomeFollower r t)"
  "becomeCandidate (behind x y z r) = behind x y z (becomeCandidate r)"
  "becomeLeader (behind x y z r) = behind x y z (becomeLeader r)"
  "sendVoteResponse (behind x y z r) p g t = behind x y z (sendVoteResponse r p g t)"
  "sendAppendResponse (behind x y z r) p s = behind x y z (sendAppendResponse r p s)"
  "sendAppendResponseAfterPersist (behind x y z r) p s = behind x y z (sendAppendResponseAfterPersist r p s)"
  by (simp_all add: becomeFollower_def becomeCandidate_def becomeLeader_def sendVoteResponse_def sendAppendResponse_def
      sendAppendResponseAfterPersist_def Let_def behind_simps)

lemma campaign_behind: "campaign (behind x y z r) = behind x y z (campaign r)"
  by (simp add: campaign_def Let_def behind_roles behind_simps)

lemma handleVoteRequest_behind: "handleVoteRequest (behind x y z r) m = behind x y z (handleVoteRequest r m)"
  by (simp add: handleVoteRequest_def Let_def behind_roles behind_simps split: option.split)

lemma handleVoteResponse_behind:
  "handleVoteResponse (behind x y z r) m = bindr (handleVoteResponse r m) (\<lambda>r'. Inr (behind x y z r'))"
  by (simp add: handleVoteResponse_def Let_def behind_roles behind_simps split: option.split)

lemma handleAppendEntries_behind:
  "handleAppendEntries (behind x y z r) m = bindr (handleAppendEntries r m) (\<lambda>r'. Inr (behind x y z r'))"
proof (cases "mEntries m")
  case (Some ae)
  then show ?thesis
    by (cases "prev_mismatch (raftlog r) (PrevLogIdx ae) (PrevLogTerm ae)")
      (simp_all add: handleAppendEntries_def Let_def behind_roles behind_simps)
qed (simp add: handleAppendEntries_def)

lemma commit_loop_behind: "commit_loop (behind x y z r) js = bindr (commit_loop r js) (\<lambda>r'. Inr (behind x y z r'))"
proof (induction js arbitrary: r)
  case (Cons j js)
  then show ?case by (cases "log_term (raftlog r) j") (simp_all add: behind_simps)
qed simp

lemma handleAppendResponse_behind:
  "handleAppendResponse (behind x y z r) m = bindr (handleAppendResponse r m) (\<lambda>r'. Inr (behind x y z r'))"
  by (simp add: handleAppendResponse_def maybeCommit_def Let_def behind_roles behind_simps commit_loop_behind split: option.split)

lemma msgs_behind:
  "append_msgs (behind x y z r) ps = append_msgs r ps" "heartbeat_msgs (behind x y z r) ps = heartbeat_msgs r ps"
  by (induction ps) (simp_all add: behind_fields)

lemma raft_replicate_behind:
  "raft_replicate (behind x y z r) m = bindr (raft_replicate r m) (\<lambda>(r', e). Inr (behind x y z r', e))"
  by (simp add: raft_replicate_def Let_def behind_simps msgs_behind bindr_assoc split: option.split)

lemma broadcastHeartbeat_behind:
  "broadcastHeartbeat (behind x y z r) = bindr (broadcastHeartbeat r) (\<lambda>r'. Inr (behind x y z r'))"
  by (simp add: broadcastHeartbeat_def behind_simps msgs_behind bindr_assoc)

lemma Step_behind: "Step (behind x y z r) m = bindr (Step r m) (\<lambda>(r', e). Inr (behind x y z r', e))"
  by (simp add: Step_def stepFollower_def stepCandidate_def stepLeader_def vote_or_campaign_def done_step_def behind_simps
      campaign_behind handleVoteRequest_behind handleVoteResponse_behind handleAppendEntries_behind handleAppendResponse_behind
      raft_replicate_behind broadcastHeartbeat_behind bindr_assoc split: option.split role.split message_type.split)

lemma Tick_behind: "Tick (behind x y z r) = bindr (Tick r) (\<lambda>r'. Inr (behind x y z r'))"
  by (simp add: Tick_def tickFollower_def tickCandidate_def tickLeader_def Let_def behind_simps Step_behind bindr_assoc split_def
      split: option.split role.split)

section \<open>Putting the messages back\<close>

definition restore :: "raft \<Rightarrow> raft" where
  "restore r = (case readyc r of [] \<Rightarrow> r | rd # _ \<Rightarrow> behind (rdMessages rd) (rdMessagesAfterAppend rd) [] r)"

lemma restore_sel [simp]:
  "ID (restore r) = ID r" "currentTerm (restore r) = currentTerm r" "state (restore r) = state r" "raftlog (restore r) = raftlog r"
  "electionTick (restore r) = electionTick r" "electionTimeout (restore r) = electionTimeout r" "readyc (restore r) = []"
  by (simp_all add: restore_def split: list.split)

lemma restore_Nil: "readyc r = [] \<Longrightarrow> restore r = r"
  by (simp add: restore_def)

lemma msg_fits_restore [simp]: "msg_fits (restore r) m = msg_fits r m"
  unfolding msg_fits_def restore_sel ..

lemma restore_Step:
  assumes "Step r m = Inr (r', e)"
  shows "Step (restore r) m = Inr (restore r', e)"
proof -
  have "readyc r' = readyc r" using Step_grows [OF assms] by (simp add: grows_def)
  then show ?thesis using assms by (simp add: restore_def Step_behind split: list.split)
qed

lemma restore_Tick:
  assumes "Tick r = Inr r'"
  shows "Tick (restore r) = Inr (restore r')"
proof -
  have "readyc r' = readyc r" using Tick_grows [OF assms] by (simp add: grows_def)
  then show ?thesis using assms by (simp add: restore_def Tick_behind split: list.split)
qed

text \<open>Collecting a \<^verbatim>\<open>Ready\<close> does not change the restored state machine.\<close>

lemma restore_Ready:
  assumes "log_wf (raftlog r)" and "Ready r = Some (Inr r1)" and "length (readyc r) \<le> 1"
  shows "restore r1 = restore r"
proof (cases "readyc r")
  case Nil
  then show ?thesis using assms(2) Ready_eq [OF assms(1)] by (auto simp: restore_def behind_def split: if_splits)
next
  case (Cons rd rest)
  then have "\<not> has_ready r" using assms by (auto simp: Ready_def split: sum.splits if_splits)
  then show ?thesis using assms(2) by (simp add: Ready_def)
qed

lemma Advance_idle: "\<not> has_ready r \<Longrightarrow> Advance (r\<lparr>readyc := z\<rparr>) = r\<lparr>readyc := z\<rparr>"
  by (simp add: has_ready_def Advance_def Let_def)

text \<open>
  What an iteration of the run loop does to the restored state machine, whichever case the select takes: it
  sends what waits and advances, steps a message or a proposal, ticks, or does nothing.
\<close>

definition sent_by :: "raft_node \<Rightarrow> ready \<Rightarrow> message list" where
  "sent_by n rd = filter (\<lambda>m. mTo m \<noteq> 0 \<and> mTo m \<in> members n) (rdMessages rd @ rdMessagesAfterAppend rd)"

lemma handle_ready_frame: "handle_ready n rd = Some n' \<Longrightarrow> propc n' = propc n \<and> members n' = members n"
  by (auto simp: handle_ready_def Let_def saveToWAL_eq node_send_fields split: if_splits)

lemma loop_cases:
  assumes ok: "raft_ok (nraft n)" "length (readyc (nraft n)) \<le> 1" and it: "run_iter n ch = Some (Inr n')"
  obtains (ready) r rd where "Ready (restore (nraft n)) = Some (Inr r)" "readyc r = [rd]" "restore (nraft n') = Advance (r\<lparr>readyc := []\<rparr>)"
      "propc n' = propc n" "members n' = members n" "sent n' = sent n @ sent_by n rd"
    | (step) m e where "ch = ChProp" "propc n = m # propc n'" "Step (restore (nraft n)) m = Inr (restore (nraft n'), e)"
      "members n' = members n" "sent n' = sent n"
    | (tick) "ch = ChTick" "Tick (restore (nraft n)) = Inr (restore (nraft n'))" "propc n' = propc n" "members n' = members n" "sent n' = sent n"
    | (idle) "restore (nraft n') = restore (nraft n)" "propc n' = propc n" "members n' = members n" "sent n' = sent n"
proof -
  have wf: "log_wf (raftlog (nraft n))" using ok(1) by (simp add: raft_ok_def)
  obtain r1 where r1: "Ready (nraft n) = Some (Inr r1)" and en: "ch_enabled (n\<lparr>nraft := r1\<rparr>) ch"
    and case': "run_case (n\<lparr>nraft := r1\<rparr>) ch = Some (Inr n')"
    using it by (auto simp: run_iter_def run_eval_def split: option.splits sum.splits if_splits)
  have res: "restore r1 = restore (nraft n)" by (rule restore_Ready [OF wf r1 ok(2)])
  show ?thesis
  proof (cases ch)
    case ChProp
    then obtain m e where "propc n = m # propc n'" "Step r1 m = Inr (nraft n', e)" "members n' = members n" "sent n' = sent n"
      using case' by (auto simp: run_case_def bindr_Inr_iff split: list.splits)
    then show ?thesis using step [OF ChProp, of m e] restore_Step [of r1 m] res by simp
  next
    case ChTick
    then have "Tick r1 = Inr (nraft n')" "propc n' = propc n" "members n' = members n" "sent n' = sent n"
      using case' by (auto simp: run_case_def bindr_Inr_iff split: if_splits)
    then show ?thesis using tick [OF ChTick] restore_Tick [of r1] res by simp
  next
    case ChDefault
    then have "n' = n\<lparr>nraft := r1\<rparr>" using case' by (simp add: run_case_def)
    then show ?thesis using idle res by simp
  next
    case ChReady
    then obtain rd where rd: "readyc r1 = [rd]"
      using en r1 ok(2) Ready_eq [OF wf] by (cases "readyc (nraft n)") (auto simp: ch_enabled_def Ready_def split: if_splits sum.splits)
    then have h: "handle_ready (n\<lparr>nraft := r1\<lparr>readyc := []\<rparr>\<rparr>) rd = Some n'" using case' ChReady by (simp add: run_case_def)
    have n': "nraft n' = Advance (r1\<lparr>readyc := []\<rparr>)" "propc n' = propc n" "members n' = members n" "sent n' = sent n @ sent_by n rd"
      using handle_ready_fields [OF h] handle_ready_frame [OF h] by (simp_all add: sent_by_def)
    have res': "restore (nraft n') = Advance (r1\<lparr>readyc := []\<rparr>)" using n'(1) by (simp add: restore_Nil Advance_def Let_def)
    show ?thesis
    proof (cases "readyc (nraft n)")
      case Nil
      then show ?thesis using ready [of r1 rd] r1 rd n' res' by (simp add: restore_Nil)
    next
      case (Cons rd' rest)
      then have idle': "\<not> has_ready (nraft n)" "r1 = nraft n" "rd' = rd"
        using r1 rd by (auto simp: Ready_def split: if_splits sum.splits)
      let ?a = "restore (nraft n)"
      have a: "?a = (nraft n)\<lparr>msgs := rdMessages rd, msgsAfterAppend := rdMessagesAfterAppend rd, readyc := []\<rparr>"
        using idle' Cons by (simp add: restore_def behind_def has_ready_def)
      have adv: "restore (nraft n') = (nraft n)\<lparr>readyc := []\<rparr>" using res' idle' Advance_idle by simp
      have no: "(nraft n)\<lparr>msgs := [], msgsAfterAppend := [], readyc := []\<rparr> = (nraft n)\<lparr>readyc := []\<rparr>"
        using idle'(1) by (simp add: has_ready_def)
      show ?thesis
      proof (cases "has_ready ?a")
        case True
        have "log_wf (raftlog ?a)" "readyc ?a = []" using wf by simp_all
        from Ready_eq [OF this] True obtain r2 rd2 where r2: "Ready ?a = Some (Inr r2)" "readyc r2 = [rd2]"
          "r2\<lparr>readyc := []\<rparr> = (nraft n)\<lparr>readyc := []\<rparr>" "rdMessages rd2 = rdMessages rd" "rdMessagesAfterAppend rd2 = rdMessagesAfterAppend rd"
          using no by (simp add: a)
        have "Advance (r2\<lparr>readyc := []\<rparr>) = restore (nraft n')" using r2(3) adv Advance_idle [OF idle'(1)] by simp
        then show ?thesis using ready [OF r2(1,2)] n' r2(4,5) by (simp add: sent_by_def)
      next
        case False
        then have "sent_by n rd = []" "?a = (nraft n)\<lparr>readyc := []\<rparr>" using no by (auto simp: has_ready_def sent_by_def a)
        then show ?thesis using idle n' adv by simp
      qed
    qed
  qed
qed

end
