(* ===== verification/Db_Cluster.thy ===== *)
theory Db_Cluster
  imports Db_System Raft_Agreement Raft_Pending
begin

text \<open>
  The whole system: a cluster in which every member is a database node with its clients, run loop, apply
  loop and worker, and the members exchange messages over a network. The conditions are those of the
  theory of replication, seen from the code: the leader does not change, clients write through the
  leader, a proposal is taken up by the run loop when no entries and no acknowledgements are under way,
  and acknowledgements are not lost. The select of a run loop may take any of its cases, and a loop that
  blocks on its own channel stays blocked.
  The cluster is then simulated by the cluster of state machines, and the databases implement one store.
\<close>

section \<open>The cluster\<close>

record kv_cluster =
  reps :: "int \<Rightarrow> sys"
  net :: "message multiset"

abbreviation rnode :: "kv_cluster \<Rightarrow> int \<Rightarrow> raft_node" where
  "rnode C i \<equiv> dnode (sdb (reps C i))"

definition set_rep :: "kv_cluster \<Rightarrow> int \<Rightarrow> sys \<Rightarrow> message multiset \<Rightarrow> kv_cluster" where
  "set_rep C i s q = \<lparr>reps = (reps C)(i := s), net = q\<rparr>"

lemma set_rep_sel [simp]: "reps (set_rep C i s q) = (reps C)(i := s)" "net (set_rep C i s q) = q"
  by (simp_all add: set_rep_def)

abbreviation with_node :: "sys \<Rightarrow> raft_node \<Rightarrow> sys" where
  "with_node s n \<equiv> s\<lparr>sdb := (sdb s)\<lparr>dnode := n\<rparr>\<rparr>"

text \<open>
  The state machines and the messages between them. A message that has reached the channel of a node but
  not its state machine is still under way; proposals of clients, which have no receiver, are not messages.
  Messages that wait in the \<^verbatim>\<open>Ready\<close> channel of a node have not been sent.
\<close>

definition queued :: "raft_node \<Rightarrow> message multiset" where
  "queued n = mset (filter (\<lambda>m. mTo m \<noteq> 0) (propc n))"

definition machines :: "int list \<Rightarrow> kv_cluster \<Rightarrow> rep_cluster" where
  "machines ms C = \<lparr>rnodes = (\<lambda>i. restore (nraft (rnode C i))), flight = net C + (\<Sum>i \<in> set ms. queued (rnode C i))\<rparr>"

text \<open>A step of a replica that neither takes nor sends a message and leaves the state machine alone.\<close>

definition inner :: "sys \<Rightarrow> sys \<Rightarrow> bool" where
  "inner s s' \<longleftrightarrow> sys_step s s' \<and> nraft (dnode (sdb s')) = nraft (dnode (sdb s)) \<and> propc (dnode (sdb s')) = propc (dnode (sdb s))
     \<and> sent (dnode (sdb s')) = sent (dnode (sdb s)) \<and> members (dnode (sdb s')) = members (dnode (sdb s))"

text \<open>When the run loop may take a case.\<close>

definition may_take :: "int list \<Rightarrow> int \<Rightarrow> kv_cluster \<Rightarrow> int \<Rightarrow> choice \<Rightarrow> bool" where
  "may_take ms l C i ch \<longleftrightarrow> currentTerm (nraft (rnode C i)) < 2 ^ 63 - 1
     \<and> (ch = ChTick \<longrightarrow> i = l \<or> electionTick (nraft (rnode C i)) + 1 < electionTimeout (nraft (rnode C i)))
     \<and> (ch = ChProp \<and> propc (rnode C i) \<noteq> [] \<and> mTo (hd (propc (rnode C i))) = 0 \<longrightarrow> quiet ms (machines ms C))"

inductive kv_step :: "int list \<Rightarrow> int \<Rightarrow> kv_cluster \<Rightarrow> kv_cluster \<Rightarrow> bool" for ms l where
  client_write: "db_Put (sdb (reps C l)) key val expired pick = Some (Inr ch, d) \<Longrightarrow>
     kv_step ms l C (set_rep C l ((reps C l)\<lparr>sdb := d,
       calls := (next_id (sdb (reps C l)), ch, length (hist (reps C l))) # calls (reps C l)\<rparr>) (net C))"
| inside: "\<lbrakk>i \<in> set ms; inner (reps C i) s\<rbrakk> \<Longrightarrow> kv_step ms l C (set_rep C i s (net C))"
| receive: "\<lbrakk>m \<in># net C; mTo m = i; i \<in> set ms; node_Process (rnode C i) m expired pick = Some (Inr (n, resp))\<rbrakk> \<Longrightarrow>
     kv_step ms l C (set_rep C i (with_node (reps C i) n) (net C - {#m#}))"
| lose: "\<lbrakk>m \<in># net C; mType m \<noteq> MSG_APP_RESP\<rbrakk> \<Longrightarrow> kv_step ms l C (C\<lparr>net := net C - {#m#}\<rparr>)"
| loop: "\<lbrakk>i \<in> set ms; may_take ms l C i ch; run_iter (rnode C i) ch = Some (Inr n)\<rbrakk> \<Longrightarrow>
     kv_step ms l C (set_rep C i (with_node (reps C i) n) (net C + mset (drop (length (sent (rnode C i))) (sent n))))"

inductive_cases kv_stepE: "kv_step ms l C C'"

text \<open>Every member was opened for the first time, each with its own configuration.\<close>

definition opened :: "int list \<Rightarrow> (int \<Rightarrow> db) \<Rightarrow> bool" where
  "opened ms dbs \<longleftrightarrow> (\<forall>i \<in> set ms. \<exists>load dial listen nanos port pt rt.
     Open_db load (\<lambda>_. []) dial listen nanos port pt rt = Some (Inr (dbs i)))"

text \<open>
  The start: every member has reached its state from a first start on empty files, the leader has been
  elected, and nothing is under way.
\<close>

definition kv_start :: "(int \<Rightarrow> db) \<Rightarrow> int list \<Rightarrow> int \<Rightarrow> kv_cluster \<Rightarrow> bool" where
  "kv_start dbs ms l C \<longleftrightarrow> 0 \<notin> set ms \<and> opened ms dbs \<and> rep_start ms l (machines ms C)
     \<and> (\<forall>i \<in> set ms. sys_reach (dbs i) (reps C i) \<and> members (rnode C i) = set ms - {i} \<and> propc (rnode C i) = [])"

inductive kv_reach :: "(int \<Rightarrow> db) \<Rightarrow> int list \<Rightarrow> int \<Rightarrow> kv_cluster \<Rightarrow> bool" for dbs ms l where
  start: "kv_start dbs ms l C \<Longrightarrow> kv_reach dbs ms l C"
| step: "kv_reach dbs ms l C \<Longrightarrow> kv_step ms l C C' \<Longrightarrow> kv_reach dbs ms l C'"

section \<open>What the leader sends\<close>

definition leader_appends :: "raft \<Rightarrow> bool" where
  "leader_appends r \<longleftrightarrow> (\<forall>m \<in># outq r. mType m = MSG_APP)"

text \<open>The only message that reaches the leader is the acknowledgement of its last append.\<close>

lemma leader_gets_ack:
  assumes inv: "rep_inv ms l c" and m: "m \<in># flight c" "mTo m = l"
  obtains p where "m = ack_of (rnodes c l) p"
proof -
  obtain p where p: "p \<in> set ms - {l}" "about p m \<or> mTo m = p \<and> beat_ok (rnodes c l) m (rnodes c p)"
    using inv m(1) unfolding rep_inv_def by (meson union_iff)
  then have ab: "about p m" using m(2) by auto
  have "phase (flight c) (rnodes c l) p (rnodes c p)" using inv p(1) by (simp add: rep_inv_def)
  from pend_about [OF this m(1) ab] have "m = ack_of (rnodes c l) p" using m(2) p(1) append_of_sel(2) by (metis DiffE insertI1)
  then show ?thesis by (rule that)
qed

lemma proposal_appends:
  assumes ok: "raft_ok r" "state r = StateLeader" and out: "leader_appends r" and step: "Step r (proposal k v i) = Inr (r', e)"
  shows "leader_appends r'"
proof -
  obtain ae where ae: "mEntries (proposal k v i) = Some ae" "Entries ae \<noteq> []" by (simp add: proposal_def)
  obtain es where r': "r' = r\<lparr>raftlog := (raftlog r)\<lparr>entries := es\<rparr>, msgsAfterAppend := msgsAfterAppend r @ map (append_for r es) (peers r)\<rparr>"
    using step Step_proposes(1) [OF ok proposal_fields(1) ae] by (auto simp del: number_entries.simps)
  have "mType (append_for r es p) = MSG_APP" for p by (simp add: append_for_def Let_def no_message_def)
  then show ?thesis using out by (auto simp: leader_appends_def outq_def r')
qed

lemma beats_append:
  assumes inv: "rep_inv ms l c" and out: "leader_appends (rnodes c l)" and tick: "Tick (rnodes c l) = Inr r"
  shows "leader_appends r"
proof -
  let ?lead = "rnodes c l"
  have lead: "leader_inv ms l ?lead" using inv by (simp add: rep_inv_def)
  then have ok: "raft_ok ?lead" "state ?lead = StateLeader" "set (peers ?lead) = set ms - {l}" by (simp_all add: leader_inv_def)
  obtain hs t where hs: "r = ?lead\<lparr>heartbeatTick := t, msgs := msgs ?lead @ hs\<rparr>"
    "\<forall>m \<in> set hs. \<exists>p \<in> set (peers ?lead). heartbeat_msg ?lead p = Inr m"
    using Tick_leader [OF ok(1,2) tick] by blast
  have "mType m = MSG_APP" if m: "m \<in> set hs" for m
  proof -
    obtain p where p: "p \<in> set ms - {l}" "heartbeat_msg ?lead p = Inr m" using hs(2) m ok(3) by auto
    have "follower_inv ?lead p (rnodes c p)" "phase (flight c) ?lead p (rnodes c p)" using inv p(1) by (simp_all add: rep_inv_def)
    from heartbeat_ok [OF lead this] p show ?thesis by (auto simp: beat_ok_def)
  qed
  then show ?thesis using out by (auto simp: leader_appends_def outq_def hs(1))
qed

lemma leader_appends_step:
  assumes inv: "rep_inv ms l c" and step: "rep_step ms l c c'" and out: "leader_appends (rnodes c l)"
  shows "leader_appends (rnodes c' l)"
proof -
  let ?lead = "rnodes c l"
  have lead: "leader_inv ms l ?lead" using inv by (simp add: rep_inv_def)
  then have ok: "raft_ok ?lead" "state ?lead = StateLeader" "readyc ?lead = []"
    by (simp_all add: leader_inv_def)
  show ?thesis
    using step
  proof cases
    case (propose k v i r e)
    then show ?thesis using proposal_appends [OF ok(1,2) out] by simp
  next
    case (tick i r)
    then show ?thesis using out beats_append [OF inv out] by (cases "i = l") simp_all
  next
    case (exchange i r rd)
    show ?thesis
    proof (cases "i = l")
      case True
      then show ?thesis using exchange_node(1) [OF ok(1,3)] exchange(3,4) by (simp add: exchange(1) leader_appends_def)
    qed (use out in \<open>simp add: exchange(1)\<close>)
  next
    case (deliver m i r e)
    show ?thesis
    proof (cases "i = l")
      case True
      have "mTo m = l" using deliver(3) True by simp
      then obtain p where m: "m = ack_of ?lead p" by (rule leader_gets_ack [OF inv deliver(2)])
      have "Step ?lead (ack_of ?lead p) = Inr (r, e)" using deliver(5) True m by simp
      from leader_ack_step(1) [OF ok(1,2) this] have "outq r = outq ?lead" by (simp add: outq_def)
      then show ?thesis using out by (simp add: deliver(1) True leader_appends_def)
    qed (use out in \<open>simp add: deliver(1)\<close>)
  qed (use out in simp)
qed

text \<open>Every message that waits to be sent goes to another member.\<close>

lemma out_to_member:
  assumes inv: "rep_inv ms l c" and out: "leader_appends (rnodes c l)" and i: "i \<in> set ms" and m: "m \<in># outq (rnodes c i)"
  shows "mTo m \<in> set ms - {i}"
proof (cases "i = l")
  case True
  obtain p where "p \<in> set ms - {l}" "about p m \<or> mTo m = p \<and> beat_ok (rnodes c l) m (rnodes c p)"
    using inv m True unfolding rep_inv_def by (meson union_iff)
  then show ?thesis using out m True by (auto simp: leader_appends_def about_def)
next
  case False
  then have p: "i \<in> set ms - {l}" using i by simp
  then have f: "follower_inv (rnodes c l) i (rnodes c i)" "phase (flight c) (rnodes c l) i (rnodes c i)"
    and lead: "ID (rnodes c l) = l" "l \<in> set ms"
    using inv by (simp_all add: rep_inv_def leader_inv_def)
  have t: "mType m = MSG_APP_RESP" "mFrom m = i" using f(1) m by (simp_all add: follower_inv_def)
  then have "m \<in># pend (flight c) (rnodes c l) i (rnodes c i)" using m by (simp add: pend_def about_def)
  then have "m = ack_of (rnodes c l) i"
    using f(2) t(1) append_of_sel(1) unfolding phase_def Let_def by fastforce
  then show ?thesis using lead False by (simp add: append_of_sel)
qed

section \<open>Simulation by the cluster of state machines\<close>

definition kv_inv :: "(int \<Rightarrow> db) \<Rightarrow> int list \<Rightarrow> int \<Rightarrow> kv_cluster \<Rightarrow> bool" where
  "kv_inv dbs ms l C \<longleftrightarrow> 0 \<notin> set ms \<and> rep_reach ms l (machines ms C) \<and> leader_appends (rnodes (machines ms C) l)
     \<and> (\<forall>i \<in> set ms. sys_reach (dbs i) (reps C i) \<and> node_ok (rnode C i) \<and> members (rnode C i) = set ms - {i}
          \<and> (\<forall>m \<in> set (propc (rnode C i)). mTo m = i \<or> i = l \<and> (\<exists>k v r. m = proposal k v r)))"

definition others :: "int list \<Rightarrow> kv_cluster \<Rightarrow> int \<Rightarrow> message multiset" where
  "others ms C i = (\<Sum>j \<in> set ms - {i}. queued (rnode C j))"

lemma machines_flight: "i \<in> set ms \<Longrightarrow> flight (machines ms C) = net C + others ms C i + queued (rnode C i)"
  by (simp add: machines_def others_def sum.remove ac_simps)

lemma machines_set_rep:
  assumes "i \<in> set ms"
  shows "machines ms (set_rep C i s q)
    = put_rnode (machines ms C) i (restore (nraft (dnode (sdb s)))) (q + others ms C i + queued (dnode (sdb s)))"
proof -
  have "others ms (set_rep C i s q) i = others ms C i" by (simp add: others_def)
  then have "flight (machines ms (set_rep C i s q)) = q + others ms C i + queued (dnode (sdb s))"
    using machines_flight [OF assms, of "set_rep C i s q"] by simp
  then show ?thesis by (auto simp: machines_def put_rnode_def fun_eq_iff)
qed

lemma machines_rnodes [simp]: "rnodes (machines ms C) i = restore (nraft (rnode C i))"
  by (simp add: machines_def)

lemma put_rnode_same: "put_rnode c i (rnodes c i) (flight c) = c"
  by (simp add: put_rnode_def)

lemma flight_fits:
  assumes inv: "rep_inv ms l c" and m: "m \<in># flight c" "mTo m = i" and i: "i \<in> set ms"
  shows "msg_fits (rnodes c i) m"
proof (cases "i = l")
  case True
  then show ?thesis using inv by (simp add: rep_inv_def leader_inv_def msg_fits_def)
next
  case False
  let ?lead = "rnodes c l"
  have lead: "leader_inv ms l ?lead" using inv by (simp add: rep_inv_def)
  obtain p where p: "p \<in> set ms - {l}" "about p m \<or> mTo m = p \<and> beat_ok ?lead m (rnodes c p)"
    using inv m(1) unfolding rep_inv_def by (meson union_iff)
  show ?thesis
  proof (cases "mType m = MSG_APP \<and> about p m")
    case True
    then have ip: "i = p" using m(2) by (auto simp: about_def)
    have ph: "phase (flight c) ?lead p (rnodes c p)" using inv p(1) by (simp add: rep_inv_def)
    from pend_about [OF ph m(1) conjunct2 [OF True]] show ?thesis
    proof cases
      case (1 k)
      let ?n = "nextIndex (prog_of ?lead p) - 1"
      have n: "0 \<le> ?n" "?n \<le> int (length (entries (raftlog ?lead)))" using leader_next [OF lead p(1)] by simp_all
      have pos: "positions (entries (raftlog ?lead))" using lead by (simp add: leader_inv_def raft_ok_def log_wf_def)
      have len: "length (entries (raftlog (rnodes c p))) = nat ?n" using 1(5) n by simp
      then show ?thesis
        using pos n by (auto simp: msg_fits_def ip 1(2) append_of_entries Let_def positions_def)
    next
      case 2
      then show ?thesis using True by (simp add: append_of_sel)
    qed
  next
    case False
    then show ?thesis using p(2) by (auto simp: msg_fits_def about_def beat_ok_def)
  qed
qed

lemma Process_eq: "node_Process n m expired pick = Some (Inr (n', resp)) \<Longrightarrow> n' = n\<lparr>propc := propc n @ [m]\<rparr>"
  by (auto simp: node_Process_def stepSM_def split: if_splits)

lemma kv_inv_upd:
  assumes inv: "kv_inv dbs ms l C" and i: "i \<in> set ms" and s: "sys_step (reps C i) s" "members (dnode (sdb s)) = members (rnode C i)"
    and q: "\<forall>m \<in> set (propc (dnode (sdb s))). m \<in> set (propc (rnode C i)) \<or> mTo m = i \<or> i = l \<and> (\<exists>k v r. m = proposal k v r)"
    and sim: "machines ms (set_rep C i s nt) = machines ms C \<or> rep_step ms l (machines ms C) (machines ms (set_rep C i s nt))"
  shows "kv_inv dbs ms l (set_rep C i s nt)"
proof -
  let ?c = "machines ms C" and ?c' = "machines ms (set_rep C i s nt)"
  have reach: "rep_reach ms l ?c" and out: "leader_appends (rnodes ?c l)" using inv by (simp_all add: kv_inv_def)
  have "rep_reach ms l ?c' \<and> leader_appends (rnodes ?c' l)"
    using sim
  proof
    assume "machines ms (set_rep C i s nt) = machines ms C"
    then show ?thesis using reach out by metis
  next
    assume step: "rep_step ms l ?c ?c'"
    show ?thesis using rep_reach.step [OF reach step] leader_appends_step [OF rep_reach_inv [OF reach] step out] by blast
  qed
  moreover have "sys_reach (dbs i) s" using inv i s(1) by (auto simp: kv_inv_def intro: sys_reach.more)
  moreover have "\<forall>m \<in> set (propc (dnode (sdb s))). mTo m = i \<or> i = l \<and> (\<exists>k v r. m = proposal k v r)"
    using q inv i unfolding kv_inv_def by blast
  moreover have "node_ok (dnode (sdb s))" using handed_out_grows(2) [OF s(1)] inv i by (simp add: kv_inv_def)
  ultimately show ?thesis using inv s(2) i unfolding kv_inv_def by simp
qed

lemma queued_snoc: "mTo m \<noteq> 0 \<Longrightarrow> queued (n\<lparr>propc := propc n @ [m]\<rparr>) = add_mset m (queued n)"
  "mTo m = 0 \<Longrightarrow> queued (n\<lparr>propc := propc n @ [m]\<rparr>) = queued n"
  by (simp_all add: queued_def)

lemma machines_same:
  assumes "i \<in> set ms" and "restore (nraft (dnode (sdb s))) = restore (nraft (rnode C i))" and "q + queued (dnode (sdb s)) = net C + queued (rnode C i)"
  shows "machines ms (set_rep C i s q) = machines ms C"
proof -
  have "q + others ms C i + queued (dnode (sdb s)) = (q + queued (dnode (sdb s))) + others ms C i" by (simp add: ac_simps)
  also have "\<dots> = flight (machines ms C)" using machines_flight [OF assms(1), of C] assms(3) by (simp add: ac_simps)
  finally show ?thesis using put_rnode_same [of "machines ms C" i] machines_set_rep [OF assms(1)] assms(2) by simp
qed

text \<open>The message a run loop takes continues the log of its state machine.\<close>

lemma loop_fits:
  assumes inv: "kv_inv dbs ms l C" and i: "i \<in> set ms" and may: "may_take ms l C i ch"
  shows "iter_fits (rnode C i) ch"
proof -
  let ?n = "rnode C i" and ?c = "machines ms C"
  have rep: "rep_inv ms l ?c" and z: "0 \<notin> set ms" using inv rep_reach_inv by (auto simp: kv_inv_def)
  have q: "\<forall>m \<in> set (propc ?n). mTo m = i \<or> i = l \<and> (\<exists>k v r. m = proposal k v r)" using inv i by (simp add: kv_inv_def)
  have "msg_fits (nraft ?n) (hd (propc ?n))" if "propc ?n \<noteq> []"
  proof (cases "mTo (hd (propc ?n)) = i")
    case True
    then have "hd (propc ?n) \<in># queued ?n" using that z i by (auto simp: queued_def)
    then have "hd (propc ?n) \<in># flight ?c" using machines_flight [OF i, of C] by simp
    from flight_fits [OF rep this True i] show ?thesis by (simp only: machines_rnodes msg_fits_restore)
  next
    case False
    then have "i = l" using q hd_in_set [OF that] by blast
    then have "state (nraft ?n) = StateLeader" using rep by (simp add: rep_inv_def leader_inv_def)
    then show ?thesis by (simp add: msg_fits_def)
  qed
  then show ?thesis using may by (auto simp: iter_fits_def may_take_def)
qed

text \<open>Every message of a \<^verbatim>\<open>Ready\<close> is sent.\<close>

lemma ready_sends:
  assumes inv: "kv_inv dbs ms l C" and i: "i \<in> set ms"
    and rd: "mset (rdMessages rd) + mset (rdMessagesAfterAppend rd) = outq (rnodes (machines ms C) i)"
  shows "sent_by (rnode C i) rd = rdMessages rd @ rdMessagesAfterAppend rd"
proof -
  have inv': "rep_inv ms l (machines ms C)" "leader_appends (rnodes (machines ms C) l)" "0 \<notin> set ms" "members (rnode C i) = set ms - {i}"
    using inv i rep_reach_inv by (auto simp: kv_inv_def)
  have "mTo m \<in> set ms - {i}" if "m \<in> set (rdMessages rd @ rdMessagesAfterAppend rd)" for m
    using out_to_member [OF inv'(1,2) i] that rd by (metis mset_append set_mset_mset)
  then show ?thesis using inv'(3,4) unfolding sent_by_def by (intro filter_True) (metis DiffD1)
qed

text \<open>An iteration of the run loop is a step of the state machines, or does nothing to them.\<close>

lemma loop_sim:
  assumes inv: "kv_inv dbs ms l C" and i: "i \<in> set ms" and may: "may_take ms l C i ch" and it: "run_iter (rnode C i) ch = Some (Inr n)"
  defines "C' \<equiv> set_rep C i (with_node (reps C i) n) (net C + mset (drop (length (sent (rnode C i))) (sent n)))"
  shows "(machines ms C' = machines ms C \<or> rep_step ms l (machines ms C) (machines ms C'))
    \<and> members n = members (rnode C i) \<and> set (propc n) \<subseteq> set (propc (rnode C i)) \<and> iter_fits (rnode C i) ch"
proof -
  let ?n = "rnode C i" and ?c = "machines ms C"
  have rep: "rep_inv ms l ?c" and z: "0 \<notin> set ms"
    using inv rep_reach_inv by (auto simp: kv_inv_def)
  have q: "\<forall>m \<in> set (propc ?n). mTo m = i \<or> i = l \<and> (\<exists>k v r. m = proposal k v r)"
    using inv i by (simp_all add: kv_inv_def)
  have "node_ok ?n" using inv i by (simp add: kv_inv_def)
  then have ok: "raft_ok (nraft ?n)" "length (readyc (nraft ?n)) \<le> 1" by (auto simp: node_ok_def pending_ok_def)
  have ok': "raft_ok (rnodes ?c i)" "readyc (rnodes ?c i) = []"
    using rep i by (cases "i = l"; simp add: rep_inv_def leader_inv_def follower_inv_def)+
  note fits = loop_fits [OF inv i may]
  have abs: "machines ms C' = put_rnode ?c i (restore (nraft n)) (net C + mset (drop (length (sent ?n)) (sent n)) + others ms C i + queued n)"
    unfolding C'_def using machines_set_rep [OF i] by simp
  from ok it show ?thesis
  proof (cases rule: loop_cases)
    case (ready r rd)
    have "mset (rdMessages rd) + mset (rdMessagesAfterAppend rd) = outq (rnodes ?c i)"
      using exchange_node(1) [OF ok' _ ready(2)] ready(1) by simp
    then have "sent_by ?n rd = rdMessages rd @ rdMessagesAfterAppend rd" by (rule ready_sends [OF inv i])
    then have new: "drop (length (sent ?n)) (sent n) = rdMessages rd @ rdMessagesAfterAppend rd" using ready(6) by simp
    have "queued n = queued ?n" using ready(4) by (simp add: queued_def)
    then have "machines ms C' = put_rnode ?c i (Advance (r\<lparr>readyc := []\<rparr>)) (flight ?c + mset (rdMessages rd) + mset (rdMessagesAfterAppend rd))"
      unfolding abs using new ready(3) machines_flight [OF i, of C] by (simp add: ac_simps)
    then show ?thesis using rep_step.exchange [OF i, of ?c r rd l] ready fits by simp
  next
    case (step m e)
    have "rep_step ms l ?c (machines ms C')"
    proof (cases "mTo m = 0")
      case True
      then have "queued n = queued ?n" using step(2) by (simp add: queued_def)
      then have c': "machines ms C' = put_rnode ?c i (restore (nraft n)) (flight ?c)"
        unfolding abs using step(5) machines_flight [OF i, of C] by (simp add: ac_simps)
      have "mTo m \<noteq> i" using True z i by auto
      then obtain k v r where p: "i = l" "m = proposal k v r" using q step(2) by auto
      have "quiet ms ?c" using may step(1,2) True by (simp add: may_take_def)
      then show ?thesis unfolding c' using rep_step.propose [of ms ?c l k v r "restore (nraft n)" e] step(3) p by simp
    next
      case False
      then have to: "mTo m = i" using q step(2) by auto
      have qm: "queued ?n = add_mset m (queued n)" using step(2) False by (simp add: queued_def)
      then have fl: "flight ?c = add_mset m (net C + others ms C i + queued n)" using machines_flight [OF i, of C] by simp
      then have c': "machines ms C' = put_rnode ?c i (restore (nraft n)) (flight ?c - {#m#})"
        unfolding abs using step(5) by simp
      show ?thesis unfolding c' using rep_step.deliver [of m ?c i ms "restore (nraft n)" e l] fl to i step(3) by simp
    qed
    then show ?thesis using step(2,4) fits by auto
  next
    case tick
    have "queued n = queued ?n" using tick(3) by (simp add: queued_def)
    then have "machines ms C' = put_rnode ?c i (restore (nraft n)) (flight ?c)"
      unfolding abs using tick(5) machines_flight [OF i, of C] by (simp add: ac_simps)
    then show ?thesis using rep_step.tick [of i ms l ?c "restore (nraft n)"] i tick may fits by (simp add: may_take_def)
  next
    case idle
    have "queued n = queued ?n" using idle(2) by (simp add: queued_def)
    then have "machines ms C' = machines ms C"
      unfolding C'_def using idle by (intro machines_same [OF i]) simp_all
    then show ?thesis using idle fits by simp
  qed
qed

text \<open>Every step of the system is a step of the state machines or invisible to them.\<close>

lemma kv_step_sim:
  assumes inv: "kv_inv dbs ms l C" and step: "kv_step ms l C C'"
  shows "kv_inv dbs ms l C' \<and> (rep_step ms l)\<^sup>*\<^sup>* (machines ms C) (machines ms C')"
proof -
  have l: "l \<in> set ms" and z: "0 \<notin> set ms" using inv rep_reach_inv by (auto simp: kv_inv_def rep_inv_def)
  have same: ?thesis if "kv_inv dbs ms l C'" "machines ms C' = machines ms C" using that by simp
  show ?thesis
    using step
  proof cases
    case (client_write key val expired pick ch d)
    obtain c where c: "core (sdb (reps C l)) = Some (Inr c)" using client_write(2) by (auto simp: db_Put_def split: option.splits sum.splits)
    have d: "dnode d = (rnode C l)\<lparr>propc := propc (rnode C l) @ [proposal key val (next_id (sdb (reps C l)))]\<rparr>"
      using client_write(2) c by (auto simp: db_Put_def Let_def split_def next_id_def dest!: Process_eq split: option.splits sum.splits)
    let ?s = "(reps C l)\<lparr>sdb := d, calls := (next_id (sdb (reps C l)), ch, length (hist (reps C l))) # calls (reps C l)\<rparr>"
    have m: "machines ms (set_rep C l ?s (net C)) = machines ms C"
      using d queued_snoc(2) [OF proposal_fields(3)] by (intro machines_same [OF l]) auto
    have "kv_inv dbs ms l C'"
      unfolding client_write(1)
      by (rule kv_inv_upd [OF inv l sys_step.client_put [OF client_write(2)]]) (use d m in auto)
    then show ?thesis using same m client_write(1) by simp
  next
    case (inside i s)
    then have s: "sys_step (reps C i) s" "nraft (dnode (sdb s)) = nraft (rnode C i)" "propc (dnode (sdb s)) = propc (rnode C i)"
      "members (dnode (sdb s)) = members (rnode C i)" by (simp_all add: inner_def)
    have m: "machines ms (set_rep C i s (net C)) = machines ms C"
      using s(2,3) by (intro machines_same [OF inside(2)]) (simp_all add: queued_def)
    have "kv_inv dbs ms l C'" unfolding inside(1) by (rule kv_inv_upd [OF inv inside(2) s(1,4)]) (use s(3) m in auto)
    then show ?thesis using same m inside(1) by simp
  next
    case (receive m i expired pick n resp)
    have n: "n = (rnode C i)\<lparr>propc := propc (rnode C i) @ [m]\<rparr>" by (rule Process_eq [OF receive(5)])
    have "mTo m \<noteq> 0" using receive(3,4) z by auto
    then have m: "machines ms (set_rep C i (with_node (reps C i) n) (net C - {#m#})) = machines ms C"
      using receive(2) n queued_snoc(1) by (intro machines_same [OF receive(4)]) simp_all
    have "kv_inv dbs ms l C'"
      unfolding receive(1)
      by (rule kv_inv_upd [OF inv receive(4) sys_step.message [OF receive(5)]]) (use n m receive(3) in auto)
    then show ?thesis using same m receive(1) by simp
  next
    case (lose m)
    have "m \<in># flight (machines ms C)" "machines ms C' = (machines ms C)\<lparr>flight := flight (machines ms C) - {#m#}\<rparr>"
      using lose(1,2) by (simp_all add: machines_def)
    then have r: "rep_step ms l (machines ms C) (machines ms C')" using rep_step.lose lose(3) by simp
    have "rep_reach ms l (machines ms C')" using inv r by (auto simp: kv_inv_def intro: rep_reach.step)
    then have "kv_inv dbs ms l C'" using inv unfolding kv_inv_def lose(1) by simp
    then show ?thesis using r by blast
  next
    case (loop i ch n)
    note L = loop_sim [OF inv loop(2-4), folded loop(1)]
    have "kv_inv dbs ms l C'"
      unfolding loop(1)
      by (rule kv_inv_upd [OF inv loop(2) sys_step.raft_loop]) (use L loop(1,4) in auto)
    then show ?thesis using L by auto
  qed
qed

lemma sys_reach_ok: "sys_reach d s \<Longrightarrow> node_ok (dnode d) \<Longrightarrow> node_ok (dnode (sdb s))"
  by (induction rule: sys_reach.induct) (auto simp: sys_start_def dest: handed_out_grows(2))

lemma opened_ok: "opened ms dbs \<Longrightarrow> i \<in> set ms \<Longrightarrow> node_ok (dnode (dbs i))"
  unfolding opened_def by (metis Open_db_new)

lemma kv_start_inv:
  assumes "kv_start dbs ms l C"
  shows "kv_inv dbs ms l C"
proof -
  have start: "rep_start ms l (machines ms C)" using assms by (simp add: kv_start_def)
  then have "outq (rnodes (machines ms C) l) = {#}" unfolding rep_start_def by blast
  then have "leader_appends (rnodes (machines ms C) l)" by (simp add: leader_appends_def)
  moreover have "node_ok (rnode C i)" if "i \<in> set ms" for i
    using assms that sys_reach_ok opened_ok unfolding kv_start_def by blast
  ultimately show ?thesis using assms rep_reach.start [OF start] unfolding kv_start_def kv_inv_def by simp
qed

lemma kv_reach_opened: "kv_reach dbs ms l C \<Longrightarrow> opened ms dbs"
  by (induction rule: kv_reach.induct) (auto simp: kv_start_def)

lemma kv_reach_inv: "kv_reach dbs ms l C \<Longrightarrow> kv_inv dbs ms l C"
  by (induction rule: kv_reach.induct) (auto intro: kv_start_inv dest: kv_step_sim)

lemma kv_run_sim:
  "(kv_step ms l)\<^sup>*\<^sup>* C C' \<Longrightarrow> kv_inv dbs ms l C \<Longrightarrow> kv_inv dbs ms l C' \<and> (rep_step ms l)\<^sup>*\<^sup>* (machines ms C) (machines ms C')"
proof (induction rule: rtranclp_induct)
  case (step D E)
  then show ?case using kv_step_sim by (meson rtranclp_trans)
qed simp

section \<open>One store\<close>

definition decided :: "int list \<Rightarrow> int \<Rightarrow> kv_cluster \<Rightarrow> log list" where
  "decided ms l C = decided_entries l (machines ms C)"

lemma fits_tree_prefix: "prefix xs ys \<Longrightarrow> fits_tree ys \<Longrightarrow> fits_tree xs"
  by (cases xs) (auto simp: prefix_def fits_tree_def)

lemma handed_out_decided:
  assumes "kv_inv dbs ms l C" and "(rep_step ms l)\<^sup>*\<^sup>* (machines ms C) (machines ms C')" and "i \<in> set ms"
  shows "prefix (handed_out (reps C i)) (decided ms l C')"
proof -
  have r: "rep_reach ms l (machines ms C)" using assms(1) by (simp add: kv_inv_def)
  have "handed_out (reps C i) = applied_at (machines ms C) i"
    by (simp add: handed_out_def applied_at_def applied_def rlog_def)
  moreover have "prefix (applied_at (machines ms C) i) (decided_entries l (machines ms C))"
    by (rule applied_at_prefix [OF rep_reach_inv [OF r] assms(3)])
  moreover have "prefix (decided_entries l (machines ms C)) (decided ms l C')"
    using replicated.run_extends [OF assms(2) r] by (simp add: decided_def)
  ultimately show ?thesis using prefix_order.trans by metis
qed

lemma replica_inv:
  assumes "kv_reach dbs ms l C" and "(kv_step ms l)\<^sup>*\<^sup>* C C'" and "fits_tree (decided ms l C')" and "i \<in> set ms"
  shows "sys_inv (handed_out (reps C i)) (reps C i)" and "prefix (handed_out (reps C i)) (decided ms l C')"
proof -
  have inv: "kv_inv dbs ms l C" by (rule kv_reach_inv [OF assms(1)])
  then have s: "sys_reach (dbs i) (reps C i)" using assms(4) by (simp add: kv_inv_def)
  show p: "prefix (handed_out (reps C i)) (decided ms l C')"
    using handed_out_decided [OF inv _ assms(4)] kv_run_sim [OF assms(2) inv] by blast
  obtain load dial listen nanos port pt rt where "Open_db load (\<lambda>_. []) dial listen nanos port pt rt = Some (Inr (dbs i))"
    using kv_reach_opened [OF assms(1)] assms(4) unfolding opened_def by blast
  from sys_reach_inv [OF this s fits_tree_prefix [OF p assms(3)]]
  show "sys_inv (handed_out (reps C i)) (reps C i)" by simp
qed

end
