(* ===== verification/Cluster_Writes.thy ===== *)
theory Cluster_Writes
  imports Db_Cluster
begin

text \<open>
  Where the entries of the log come from. A run of the cluster is followed together with the writes of its
  clients, each with the request identifier it was given; every entry that the cluster has replicated
  carries the key and the value of one of them.
\<close>

section \<open>Runs with the writes of the clients\<close>

definition write_of :: "log \<Rightarrow> nat \<times> bytes \<times> bytes" where
  "write_of e = (request_of e, kv_of e)"

text \<open>The last list starts as the entries that are in the log when the leader has been elected.\<close>

inductive kv_trace :: "(int \<Rightarrow> db) \<Rightarrow> int list \<Rightarrow> int \<Rightarrow> kv_cluster \<Rightarrow> (nat \<times> bytes \<times> bytes) list \<Rightarrow> bool" for dbs ms l where
  start: "kv_start dbs ms l C \<Longrightarrow> kv_trace dbs ms l C (map write_of (rlog (machines ms C) l))"
| put: "\<lbrakk>kv_trace dbs ms l C ws; db_Put (sdb (reps C l)) key val expired pick = Some (Inr ch, d)\<rbrakk> \<Longrightarrow>
     kv_trace dbs ms l (set_rep C l ((reps C l)\<lparr>sdb := d,
       calls := (next_id (sdb (reps C l)), ch, length (hist (reps C l))) # calls (reps C l)\<rparr>) (net C))
     ((next_id (sdb (reps C l)), key, val) # ws)"
| other: "\<lbrakk>kv_trace dbs ms l C ws; kv_step ms l C C'; calls (reps C' l) = calls (reps C l)\<rbrakk> \<Longrightarrow> kv_trace dbs ms l C' ws"

lemma kv_trace_reach: "kv_trace dbs ms l C ws \<Longrightarrow> kv_reach dbs ms l C"
proof (induction rule: kv_trace.induct)
  case (put C ws key val expired pick ch d)
  from kv_reach.step [OF put.IH kv_step.client_write [OF put.hyps(2)]] show ?case .
qed (auto intro: kv_reach.intros)

text \<open>Every run has such a list: nothing but a write of a client adds a call.\<close>

lemma db_Put_node:
  assumes "db_Put d key val expired pick = Some (Inr ch, d')"
  shows "dnode d' = (dnode d)\<lparr>propc := propc (dnode d) @ [proposal key val (next_id d)]\<rparr>"
proof -
  obtain c where "core d = Some (Inr c)" using assms by (auto simp: db_Put_def split: option.splits sum.splits)
  then show ?thesis
    using assms by (auto simp: db_Put_def Let_def split_def next_id_def dest!: Process_eq split: option.splits sum.splits)
qed

lemma inner_calls: "inner s s' \<Longrightarrow> calls s' = calls s"
  unfolding inner_def by (elim conjE, erule sys_stepE) (auto dest: db_Put_node)

lemma kv_reach_trace:
  assumes "kv_reach dbs ms l C"
  shows "\<exists>ws. kv_trace dbs ms l C ws"
  using assms
proof (induction rule: kv_reach.induct)
  case (step C C')
  then obtain ws where ws: "kv_trace dbs ms l C ws" by blast
  from step.hyps(2) have "(\<exists>ws'. kv_trace dbs ms l C' ws') \<or> calls (reps C' l) = calls (reps C l)"
  proof cases
    case (client_write key val expired pick ch d)
    then show ?thesis using kv_trace.put [OF ws client_write(2)] by auto
  qed (auto dest: inner_calls)
  then show ?case using kv_trace.other [OF ws step.hyps(2)] by blast
qed (blast intro: kv_trace.start)

section \<open>The origin of an entry\<close>

lemma proposal_entry:
  assumes ok: "raft_ok r" "state r = StateLeader" and step: "Step r (proposal k v i) = Inr (r', e)"
  obtains e' where "write_of e' = (i, k, v)" and "entries (raftlog r') = entries (raftlog r) @ [e']"
proof -
  have "mEntries (proposal k v i) \<noteq> None" by (simp add: proposal_def)
  then obtain ae where ae: "mEntries (proposal k v i) = Some ae" by blast
  then have es: "Entries ae = [\<lparr>Term = 0, Id = 0, Data = Some \<lparr>Op = ''PUT'', Key = k, Val = v, RequestId = i\<rparr>\<rparr>]"
    by (auto simp: proposal_def)
  have "entries (raftlog r') = entries (raftlog r) @ number_entries (currentTerm r) (int (length (entries (raftlog r))) + 1) (Entries ae)"
    using Step_proposes(1) [OF ok proposal_fields(1) ae] step es by auto
  then show ?thesis
    by (intro that) (auto simp: es write_of_def request_of_def kv_of_def cmd_key_def cmd_val_def)
qed

text \<open>What an iteration of its run loop can do to the log of the leader.\<close>

lemma leader_loop_log:
  assumes inv: "kv_inv dbs ms l C" and it: "run_iter (rnode C l) ch = Some (Inr n)"
  shows "entries (raftlog (nraft n)) = entries (raftlog (nraft (rnode C l))) \<and> set (propc n) \<subseteq> set (propc (rnode C l))
    \<or> (\<exists>k v i e. proposal k v i \<in> set (propc (rnode C l)) \<and> write_of e = (i, k, v) \<and> set (propc n) \<subseteq> set (propc (rnode C l))
         \<and> entries (raftlog (nraft n)) = entries (raftlog (nraft (rnode C l))) @ [e])"
proof -
  let ?n = "rnode C l" and ?c = "machines ms C"
  have rep: "rep_inv ms l ?c" using inv rep_reach_inv by (auto simp: kv_inv_def)
  then have l: "l \<in> set ms" and lead: "leader_inv ms l (rnodes ?c l)" by (simp_all add: rep_inv_def)
  then have ok': "raft_ok (restore (nraft ?n))" "state (restore (nraft ?n)) = StateLeader" "readyc (restore (nraft ?n)) = []"
    by (simp_all add: leader_inv_def)
  have q: "\<forall>m \<in> set (propc ?n). mTo m = l \<or> (\<exists>k v r. m = proposal k v r)" and z: "0 \<notin> set ms"
    using inv l by (auto simp: kv_inv_def)
  have "node_ok ?n" using inv l by (simp add: kv_inv_def)
  then have ok: "raft_ok (nraft ?n)" "length (readyc (nraft ?n)) \<le> 1" by (auto simp: node_ok_def pending_ok_def)
  from ok it show ?thesis
  proof (cases rule: loop_cases)
    case (ready r rd)
    have "entries (raftlog (restore (nraft n))) = entries (raftlog (restore (nraft ?n)))"
      using exchange_node(2) [OF ok'(1,3) ready(1,2)] ready(3) by simp
    then show ?thesis using ready(4) by simp
  next
    case (step m e)
    then have m: "m \<in> set (propc ?n)" "set (propc n) \<subseteq> set (propc ?n)" by auto
    show ?thesis
    proof (cases "mTo m = l")
      case True
      then have "m \<in># queued ?n" using m z l by (auto simp: queued_def)
      then have fl: "m \<in># flight ?c" using machines_flight [OF l, of C] by simp
      obtain p where p: "m = ack_of (rnodes ?c l) p" by (rule leader_gets_ack [OF rep fl True])
      have "entries (raftlog (restore (nraft n))) = entries (raftlog (restore (nraft ?n)))"
        using leader_ack_step(1) [OF ok'(1,2), of p] step(3) by (simp add: p)
      then show ?thesis using m(2) by simp
    next
      case False
      then obtain k v i where p: "m = proposal k v i" using q m(1) by blast
      obtain e' where "write_of e' = (i, k, v)"
        "entries (raftlog (restore (nraft n))) = entries (raftlog (restore (nraft ?n))) @ [e']"
        by (rule proposal_entry [OF ok'(1,2) step(3) [unfolded p]])
      then show ?thesis using m p by auto
    qed
  next
    case tick
    obtain hs t where r: "restore (nraft n) = (restore (nraft ?n))\<lparr>heartbeatTick := t, msgs := msgs (restore (nraft ?n)) @ hs\<rparr>"
      using Tick_leader [OF ok'(1,2) tick(2)] by blast
    have "entries (raftlog (restore (nraft n))) = entries (raftlog (restore (nraft ?n)))" unfolding r by simp
    then show ?thesis using tick(3) by simp
  next
    case idle
    have "raftlog (restore (nraft n)) = raftlog (restore (nraft ?n))" by (simp only: idle(1))
    then show ?thesis using idle(2) by simp
  qed
qed

text \<open>Every entry of the leader, and every proposal that waits for it, is a write of a client.\<close>

definition from_clients :: "int \<Rightarrow> kv_cluster \<Rightarrow> (nat \<times> bytes \<times> bytes) list \<Rightarrow> bool" where
  "from_clients l C ws \<longleftrightarrow> (\<forall>e \<in> set (entries (raftlog (nraft (rnode C l)))). write_of e \<in> set ws)
     \<and> (\<forall>k v i. proposal k v i \<in> set (propc (rnode C l)) \<longrightarrow> (i, k, v) \<in> set ws)"

lemma proposal_inj: "proposal k v i = proposal k' v' i' \<Longrightarrow> k = k' \<and> v = v' \<and> i = i'"
  by (drule arg_cong [where f = mEntries]) (simp add: proposal_def)

lemma from_clients_step:
  assumes inv: "kv_inv dbs ms l C" and step: "kv_step ms l C C'" and orig: "from_clients l C ws" and cs: "calls (reps C' l) = calls (reps C l)"
  shows "from_clients l C' ws"
  using step
proof cases
  case (client_write key val expired pick ch d)
  then show ?thesis using cs by simp
next
  case (inside i s)
  then show ?thesis using orig by (cases "i = l") (simp_all add: from_clients_def inner_def)
next
  case (receive m i expired pick n resp)
  have "m \<noteq> proposal k v j" if "i = l" for k v j using receive(3,4) inv by (auto simp: kv_inv_def)
  then show ?thesis using orig Process_eq [OF receive(5)] by (auto simp: from_clients_def receive(1))
next
  case (lose m)
  then show ?thesis using orig by (simp add: from_clients_def)
next
  case (loop i ch n)
  show ?thesis
  proof (cases "i = l")
    case True
    then show ?thesis
      using orig leader_loop_log [OF inv, of ch n] loop(1,4) unfolding from_clients_def by auto
  qed (use orig loop(1) in \<open>simp add: from_clients_def\<close>)
qed

lemma trace_from_clients: "kv_trace dbs ms l C ws \<Longrightarrow> from_clients l C ws"
proof (induction rule: kv_trace.induct)
  case (start C)
  have "propc (rnode C l) = []" using start by (auto simp: kv_start_def rep_start_def)
  then show ?case by (simp add: from_clients_def rlog_def)
next
  case (put C ws key val expired pick ch d)
  then show ?case by (auto simp: from_clients_def db_Put_node [OF put.hyps(2)] dest: proposal_inj)
next
  case (other C ws C')
  then show ?case using from_clients_step kv_reach_inv kv_trace_reach by blast
qed

lemma decided_written:
  assumes "kv_trace dbs ms l C ws" and "e \<in> set (decided ms l C)"
  shows "write_of e \<in> set ws"
proof -
  have "e \<in> set (entries (raftlog (nraft (rnode C l))))"
    using assms(2) by (simp add: decided_def decided_entries_def rlog_def) (meson in_set_takeD)
  then show ?thesis using trace_from_clients [OF assms(1)] by (auto simp: from_clients_def)
qed

end
