(* ===== verification/Cluster_Store.thy ===== *)
theory Cluster_Store
  imports Cluster_Writes
begin

text \<open>
  The cluster of databases as one key-value store: reads and acknowledged writes, and a run of three
  members in which the leader is elected and a write is replicated, applied and acknowledged.
\<close>

section \<open>A run of three members\<close>

text \<open>The states of the leader, node 1, and of its follower, node 2, on the way.\<close>

definition lead_sm :: "log list \<Rightarrow> int \<Rightarrow> int \<Rightarrow> int \<Rightarrow> int \<Rightarrow> message list \<Rightarrow> raft" where
  "lead_sm es ci la st mi out = \<lparr>ID = 1, currentTerm = 1, votedFor = [1 \<mapsto> 1], state = StateLeader, randomizedTimeout = 10,
     electionTick = 0, heartbeatTick = 0, electionTimeout = 10, heartbeatTimeout = 1, clusterSize = 3, peers = [2, 3],
     stepf = Some StateLeader, tickf = Some StateLeader, votes = None, msgs = [], msgsAfterAppend = out, readyc = [],
     raftlog = \<lparr>entries = es, commitIndex = ci, lastApplied = la, stableIndex = st\<rparr>,
     progress = [(2, \<lparr>matchIndex = mi, nextIndex = mi + 1\<rparr>), (3, \<lparr>matchIndex = 0, nextIndex = 1\<rparr>)]\<rparr>"

definition foll_sm :: "log list \<Rightarrow> int \<Rightarrow> message list \<Rightarrow> raft" where
  "foll_sm es st out = \<lparr>ID = 2, currentTerm = 1, votedFor = [1 \<mapsto> 1], state = StateFollower, randomizedTimeout = 10,
     electionTick = 0, heartbeatTick = 0, electionTimeout = 10, heartbeatTimeout = 1, clusterSize = 3, peers = [1, 3],
     stepf = Some StateFollower, tickf = Some StateFollower, votes = None, msgs = [], msgsAfterAppend = out, readyc = [],
     raftlog = \<lparr>entries = es, commitIndex = 0, lastApplied = 0, stableIndex = st\<rparr>, progress = []\<rparr>"

lemma restored: "restore (lead_sm es ci la st mi out) = lead_sm es ci la st mi out" "restore (foll_sm es st out) = foll_sm es st out"
  "restore (NewRaft i ps) = NewRaft i ps"
  by (simp_all add: restore_Nil lead_sm_def foll_sm_def NewRaft_fields)

definition append_to :: "nat \<Rightarrow> int \<Rightarrow> message" where
  "append_to q p = no_message\<lparr>mType := MSG_APP, mTo := p, mFrom := 1, mEntries := Some \<lparr>aTerm = 1, LeaderId = 1, PrevLogIdx = 0,
     PrevLogTerm = 0, Entries = [put_entry q], LeaderCommitIdx = 0\<rparr>\<rparr>"

definition vote_for :: "nact list" where
  "vote_for = [NProcess (no_message\<lparr>mType := MSG_VOTE, mTo := 2, mFrom := 1, mVote := Some \<lparr>vTerm = Some 1, CandidateId = 1,
     LastLogIndex = 0, LastLogTerm = 0\<rparr>\<rparr>), NLoop ChProp, NLoop ChReady]"

lemma lead_elected:
  assumes "nraft n0 = NewRaft 1 [2, 3]" "propc n0 = []" "applyc n0 = []" "tickc n0 = 0" "members n0 = {2, 3}"
  obtains n where "node_run n0 lead_run = Some n" and "nraft n = lead_sm [] 0 0 0 0 []" and "propc n = []" and "applyc n = []"
    and "members n = {2, 3}"
proof -
  have "\<exists>n. node_run n0 lead_run = Some n \<and> nraft n = lead_sm [] 0 0 0 0 [] \<and> propc n = [] \<and> applyc n = [] \<and> members n = {2, 3}"
    by (simp add: lead_run_def go_eval iter_fits_def msg_fits_def assms lead_sm_def
        upto_rec1 numeral_eq_Suc replicate_empty cong: eval_congs)
  then show ?thesis using that by blast
qed

lemma follower_voted:
  assumes "nraft n0 = NewRaft 2 [1, 3]" "propc n0 = []" "applyc n0 = []" "tickc n0 = 0" "members n0 = {1, 3}"
  obtains n where "node_run n0 vote_for = Some n" and "nraft n = foll_sm [] 0 []" and "propc n = []" and "applyc n = []"
    and "members n = {1, 3}"
proof -
  have "\<exists>n. node_run n0 vote_for = Some n \<and> nraft n = foll_sm [] 0 [] \<and> propc n = [] \<and> applyc n = [] \<and> members n = {1, 3}"
    by (simp add: vote_for_def go_eval iter_fits_def msg_fits_def assms foll_sm_def
        upto_rec1 numeral_eq_Suc replicate_empty cong: eval_congs)
  then show ?thesis using that by blast
qed

text \<open>The iterations of the two run loops.\<close>

lemma lead_proposes:
  assumes "nraft n = lead_sm [] 0 0 0 0 []" and "propc n = [proposal ''k'' ''v'' q]"
  shows "run_iter n ChProp = Some (Inr (n\<lparr>propc := [], nraft := lead_sm [put_entry q] 0 0 0 0 [append_to q 2, append_to q 3]\<rparr>))"
  by (simp add: assms lead_sm_def append_to_def put_entry_def proposal_def go_eval upto_rec1 numeral_eq_Suc cong: eval_congs)

lemma lead_sends:
  assumes "nraft n = lead_sm [put_entry q] 0 0 0 0 [append_to q 2, append_to q 3]" and "members n = {2, 3}"
  shows "run_iter n ChReady = Some (Inr (n\<lparr>nraft := lead_sm [put_entry q] 0 0 1 0 [], nwal := lm_Append (nwal n) (put_entry q),
    sent := sent n @ [append_to q 2, append_to q 3]\<rparr>))"
  by (simp add: assms lead_sm_def append_to_def put_entry_def go_eval upto_rec1 numeral_eq_Suc cong: eval_congs)

lemma follower_appends:
  assumes "nraft n = foll_sm [] 0 []" and "propc n = [append_to q 2]"
  shows "run_iter n ChProp = Some (Inr (n\<lparr>propc := [], nraft := foll_sm [put_entry q] 0 [ack 2]\<rparr>))"
  by (simp add: assms foll_sm_def append_to_def put_entry_def ack_def go_eval upto_rec1 numeral_eq_Suc cong: eval_congs)

lemma follower_acks:
  assumes "nraft n = foll_sm [put_entry q] 0 [ack 2]" and "members n = {1, 3}"
  shows "run_iter n ChReady = Some (Inr (n\<lparr>nraft := foll_sm [put_entry q] 1 [], nwal := lm_Append (nwal n) (put_entry q),
    sent := sent n @ [ack 2]\<rparr>))"
  by (simp add: assms foll_sm_def put_entry_def ack_def go_eval upto_rec1 numeral_eq_Suc cong: eval_congs)

lemma lead_counts:
  assumes "nraft n = lead_sm [put_entry q] 0 0 1 0 []" and "propc n = [ack 2]"
  shows "run_iter n ChProp = Some (Inr (n\<lparr>propc := [], nraft := lead_sm [put_entry q] 1 0 1 1 []\<rparr>))"
  by (simp add: assms lead_sm_def put_entry_def ack_def go_eval upto_rec1 numeral_eq_Suc cong: eval_congs)

lemma lead_hands_out:
  assumes "nraft n = lead_sm [put_entry q] 1 0 1 1 []" and "applyc n = []"
  shows "run_iter n ChReady = Some (Inr (n\<lparr>nraft := lead_sm [put_entry q] 1 1 1 1 [],
    applyc := [\<lparr>taEntries = [put_entry q], taCommitIndex = 1\<rparr>]\<rparr>))"
  by (simp add: assms lead_sm_def put_entry_def go_eval upto_rec1 numeral_eq_Suc cong: eval_congs)

definition member_config :: "int \<Rightarrow> cluster_config" where
  "member_config i = three_nodes\<lparr>ThisNodeID := i\<rparr>"

lemma open_member:
  assumes "i \<in> {1, 2, 3}" and "filter (\<lambda>j. j \<noteq> i) [1, 2, 3] = ps"
  obtains d where "Open_db (\<lambda>_. Inr (member_config i)) (\<lambda>_. []) up up 0 port 0 0 = Some (Inr d)"
    and "nraft (dnode d) = NewRaft i ps" and "members (dnode d) = set ps"
    and "propc (dnode d) = []" and "applyc (dnode d) = []" and "tickc (dnode d) = 0"
proof -
  obtain lm where lm: "NewLM [] = Inr lm" by (simp add: NewLM_def Let_def)
  have addr: "find_address (cfgNodes (member_config i)) i \<noteq> []" using assms by (auto simp: member_config_def three_nodes_def)
  have "\<exists>n. NewRaftNode (Inr (member_config i)) [] up up = Inr n"
    using assms lm by (auto simp: start_defs member_config_def three_nodes_def up_def node_start_def Let_def)
  then obtain n where n: "NewRaftNode (Inr (member_config i)) [] up up = Inr n" by blast
  from n obtain config :: cluster_config and lm' where c: "Inr (member_config i) = (Inr config :: cluster_config res)"
    "nraft n = NewRaft (ThisNodeID config) (map niID (filter (\<lambda>x. niID x \<noteq> ThisNodeID config) (cfgNodes config)))"
    "members n = {j \<in> niID ` set (cfgNodes config). j \<noteq> ThisNodeID config}" "propc n = []" "applyc n = []" "tickc n = 0"
    by (rule bootstrap_Inr) (rule that)
  obtain b where b: "NewBTreeWithPath [] [] = Inr b" "meta b = []" by (rule fresh_tree)
  have "readMeta b = Inr (0, 0)" using b(2) by (simp add: readMeta_def read_i64_def read_uint_def read_full_def)
  then have "ReplayWAL b lm = Some (Inr b)" for lm by (simp add: ReplayWAL_def)
  then have "\<exists>d. Open_db (\<lambda>_. Inr (member_config i)) (\<lambda>_. []) up up 0 port 0 0 = Some (Inr d) \<and> dnode d = n"
    using n b(1) by (simp add: Open_db_def)
  then obtain d where d: "Open_db (\<lambda>_. Inr (member_config i)) (\<lambda>_. []) up up 0 port 0 0 = Some (Inr d)" "dnode d = n" by blast
  have config: "config = member_config i" using c(1) by simp
  have "map niID (filter (\<lambda>x. niID x \<noteq> i) (cfgNodes (member_config i))) = filter (\<lambda>j. j \<noteq> i) [1, 2, 3]"
    "{j \<in> niID ` set (cfgNodes (member_config i)). j \<noteq> i} = set (filter (\<lambda>j. j \<noteq> i) [1, 2, 3])" "ThisNodeID (member_config i) = i"
    by (auto simp: member_config_def three_nodes_def)
  then have n': "nraft n = NewRaft i ps" "members n = set ps" using c(2,3) unfolding config assms(2) by metis+
  show ?thesis by (rule that [OF d(1)]) (simp_all only: d(2) n' c(4-6))
qed

text \<open>The cluster once its leader is elected.\<close>

lemma elected_cluster:
  obtains dbs C where "opened [1, 2, 3] dbs" and "kv_reach dbs [1, 2, 3] 1 C" and "net C = {#}"
    and "nraft (rnode C 1) = lead_sm [] 0 0 0 0 []" and "propc (rnode C 1) = []" and "applyc (rnode C 1) = []" and "members (rnode C 1) = {2, 3}"
    and "nraft (rnode C 2) = foll_sm [] 0 []" and "propc (rnode C 2) = []" and "members (rnode C 2) = {1, 3}"
    and "nraft (rnode C 3) = NewRaft 3 [1, 2]" and "propc (rnode C 3) = []"
    and "calls (reps C 1) = []" and "hist (reps C 1) = []" and "batches (reps C 1) = []"
proof -
  have mem: "1 \<in> {1, 2, 3 :: int}" "2 \<in> {1, 2, 3 :: int}" "3 \<in> {1, 2, 3 :: int}" by simp_all
  have ps: "filter (\<lambda>j. j \<noteq> 1) [1, 2, 3 :: int] = [2, 3]" "filter (\<lambda>j. j \<noteq> 2) [1, 2, 3 :: int] = [1, 3]"
    "filter (\<lambda>j. j \<noteq> 3) [1, 2, 3 :: int] = [1, 2]" by simp_all
  obtain d1 where d1: "Open_db (\<lambda>_. Inr (member_config 1)) (\<lambda>_. []) up up 0 5001 0 0 = Some (Inr d1)"
    "nraft (dnode d1) = NewRaft 1 [2, 3]" "members (dnode d1) = set [2, 3]" "propc (dnode d1) = []" "applyc (dnode d1) = []" "tickc (dnode d1) = 0"
    by (rule open_member [OF mem(1) ps(1)])
  obtain d2 where d2: "Open_db (\<lambda>_. Inr (member_config 2)) (\<lambda>_. []) up up 0 5002 0 0 = Some (Inr d2)"
    "nraft (dnode d2) = NewRaft 2 [1, 3]" "members (dnode d2) = set [1, 3]" "propc (dnode d2) = []" "applyc (dnode d2) = []" "tickc (dnode d2) = 0"
    by (rule open_member [OF mem(2) ps(2)])
  obtain d3 where d3: "Open_db (\<lambda>_. Inr (member_config 3)) (\<lambda>_. []) up up 0 5003 0 0 = Some (Inr d3)"
    "nraft (dnode d3) = NewRaft 3 [1, 2]" "members (dnode d3) = set [1, 2]" "propc (dnode d3) = []" "applyc (dnode d3) = []" "tickc (dnode d3) = 0"
    by (rule open_member [OF mem(3) ps(3)])
  obtain n1 where n1: "node_run (dnode d1) lead_run = Some n1" "nraft n1 = lead_sm [] 0 0 0 0 []" "propc n1 = []" "applyc n1 = []" "members n1 = {2, 3}"
    by (rule lead_elected [OF d1(2,4,5,6) d1(3) [simplified]])
  obtain n2 where n2: "node_run (dnode d2) vote_for = Some n2" "nraft n2 = foll_sm [] 0 []" "propc n2 = []" "applyc n2 = []" "members n2 = {1, 3}"
    by (rule follower_voted [OF d2(2,4,5,6) d2(3) [simplified]])
  define s1 where "s1 = with_node (sys_start d1) n1"
  define s2 where "s2 = with_node (sys_start d2) n2"
  have s1: "sys_reach d1 s1" "dnode (sdb s1) = n1" "calls s1 = []" "hist s1 = []" "batches s1 = []"
    using node_run_sys [OF sys_reach.start, of d1] n1(1) by (simp_all add: s1_def sys_start_def)
  have s2: "sys_reach d2 s2" "dnode (sdb s2) = n2"
    using node_run_sys [OF sys_reach.start, of d2] n2(1) by (simp_all add: s2_def sys_start_def)
  have s3: "sys_reach d3 (sys_start d3)" "sdb (sys_start d3) = d3" by (rule sys_reach.start) (simp add: sys_start_def)
  define C where "C = \<lparr>reps = (\<lambda>i. if i = 1 then s1 else if i = 2 then s2 else sys_start d3), net = {#}\<rparr>"
  define dbs where "dbs = (\<lambda>i :: int. if i = 1 then d1 else if i = 2 then d2 else d3)"
  have nodes: "nraft (rnode C 1) = lead_sm [] 0 0 0 0 []" "nraft (rnode C 2) = foll_sm [] 0 []" "nraft (rnode C 3) = NewRaft 3 [1, 2]"
    by (simp_all add: C_def s1 s2 s3 n1 n2 d3)
  have ok: "raft_ok (lead_sm [] 0 0 0 0 [])" "raft_ok (foll_sm [] 0 [])"
    by (auto simp: lead_sm_def foll_sm_def raft_ok_def role_ok_def votes_ok_def log_wf_def positions_def prog_ok_def prog_of_def lastIndex_def)
  have "msgs (NewRaft i ps) = []" "msgsAfterAppend (NewRaft i ps) = []" for i ps
    by (simp_all add: NewRaft_def becomeFollower_def Let_def)
  then have "rep_start [1, 2, 3] 1 (machines [1, 2, 3] C)"
    using ok NewRaft_ok [of 3 "[1, 2]"]
    by (simp add: rep_start_def nodes restored)
      (simp add: lead_sm_def foll_sm_def NewRaft_fields outq_def newRaftLog_def lastIndex_def prog_of_def machines_def queued_def C_def s1 s2 s3 n1 n2 d3)
  moreover have "opened [1, 2, 3] dbs" using d1(1) d2(1) d3(1) by (simp add: opened_def dbs_def) metis
  ultimately have "kv_start dbs [1, 2, 3] 1 C" "opened [1, 2, 3] dbs"
    by (auto simp: kv_start_def C_def dbs_def s1 s2 s3 n1 n2 d3)
  then show ?thesis
    using nodes by (intro that [of dbs C]) (simp_all add: kv_reach.start C_def s1 s2 s3 n1 n2 d3)
qed

text \<open>What the run looks like from the leader: its state machine and batches, the network, and the ghost state.\<close>

definition leader_at :: "kv_cluster \<Rightarrow> raft \<Rightarrow> to_apply list \<Rightarrow> message multiset \<Rightarrow> bool" where
  "leader_at C r tas q \<longleftrightarrow> nraft (rnode C 1) = r \<and> applyc (rnode C 1) = tas \<and> net C = q \<and> propc (rnode C 1) = []
     \<and> members (rnode C 1) = {2, 3} \<and> hist (reps C 1) = [] \<and> batches (reps C 1) = []"

definition follower_at :: "kv_cluster \<Rightarrow> raft \<Rightarrow> bool" where
  "follower_at C r \<longleftrightarrow> nraft (rnode C 2) = r \<and> propc (rnode C 2) = [] \<and> members (rnode C 2) = {1, 3}"

lemma cluster_loop:
  "kv_reach dbs ms l C \<Longrightarrow> i \<in> set ms \<Longrightarrow> may_take ms l C i ch \<Longrightarrow> run_iter (rnode C i) ch = Some (Inr n) \<Longrightarrow>
   kv_reach dbs ms l (set_rep C i (with_node (reps C i) n) (net C + mset (drop (length (sent (rnode C i))) (sent n))))"
  by (rule kv_reach.step [OF _ kv_step.loop])

lemma cluster_receive:
  assumes "kv_reach dbs ms l C" and "m \<in># net C" and "mTo m \<in> set ms" and "propc (rnode C (mTo m)) = []"
  shows "kv_reach dbs ms l (set_rep C (mTo m) (with_node (reps C (mTo m)) ((rnode C (mTo m))\<lparr>propc := [m]\<rparr>)) (net C - {#m#}))"
proof -
  have "node_Process (rnode C (mTo m)) m False True = Some (Inr ((rnode C (mTo m))\<lparr>propc := [m]\<rparr>, no_message))"
    using assms(4) by (simp add: node_Process_def stepSM_def)
  from kv_reach.step [OF assms(1) kv_step.receive [OF assms(2) refl assms(3) this]] show ?thesis .
qed

lemma run_messages: "mTo (append_to q p) = p" "mTo (ack p) = 1" "mType (append_to q p) = MSG_APP" "append_to q p \<noteq> ack p'"
  by (simp_all add: append_to_def ack_def no_message_def)

lemmas sm_defs = lead_sm_def foll_sm_def has_ready_def lastIndex_def may_take_def

text \<open>A client writes at the leader, which replicates the entry.\<close>

lemma run_proposed:
  assumes C: "kv_reach dbs [1, 2, 3] 1 C" "leader_at C (lead_sm [] 0 0 0 0 []) [] {#}" "follower_at C (foll_sm [] 0 [])"
    and rest: "nraft (rnode C 3) = NewRaft 3 [1, 2]" "propc (rnode C 3) = []" "calls (reps C 1) = []"
  obtains C' q ch where "kv_reach dbs [1, 2, 3] 1 C'" and "calls (reps C' 1) = [(q, ch, 0)]" and "follower_at C' (foll_sm [] 0 [])"
    and "leader_at C' (lead_sm [put_entry q] 0 0 1 0 []) [] {#append_to q 2, append_to q 3#}"
proof -
  let ?ms = "[1, 2, 3 :: int]" and ?s = "reps C 1" and ?q = "next_id (sdb (reps C 1))"
  have L: "nraft (rnode C 1) = lead_sm [] 0 0 0 0 []" "applyc (rnode C 1) = []" "net C = {#}" "propc (rnode C 1) = []"
    "members (rnode C 1) = {2, 3}" "hist ?s = []" "batches ?s = []" using C(2) by (simp_all add: leader_at_def)
  have F: "nraft (rnode C 2) = foll_sm [] 0 []" "propc (rnode C 2) = []" "members (rnode C 2) = {1, 3}" using C(3) by (simp_all add: follower_at_def)
  have D: "decided ?ms 1 C = []" by (simp add: decided_def decided_entries_def rcommit_def rlog_def L lead_sm_def)
  obtain c where c: "core (sdb ?s) = Some (Inr c)"
    using replica_inv(1) [OF C(1) rtranclp.rtrancl_refl, of 1] by (auto simp: D fits_tree_def maxInternalNodeCells_def sys_inv_def)
  obtain ch d where put: "db_Put (sdb ?s) ''k'' ''v'' False True = Some (Inr ch, d)" "dnode d = (rnode C 1)\<lparr>propc := [proposal ''k'' ''v'' ?q]\<rparr>"
    using c L(4) by (auto simp: db_Put_def Let_def split_def next_id_def node_Process_def stepSM_def)
  define s1 where "s1 = ?s\<lparr>sdb := d, calls := [(?q, ch, 0)]\<rparr>"
  define C1 where "C1 = set_rep C 1 s1 {#}"
  have C1: "kv_reach dbs ?ms 1 C1"
    using kv_reach.step [OF C(1) kv_step.client_write [OF put(1)]] rest(3) L(3,6) by (simp add: C1_def s1_def)
  have r1: "rnode C1 1 = (rnode C 1)\<lparr>propc := [proposal ''k'' ''v'' ?q]\<rparr>" "net C1 = {#}" by (simp_all add: C1_def s1_def put(2))
  have fl: "flight (machines ?ms C1) = {#}"
    by (simp add: machines_def queued_def C1_def s1_def put(2) F rest)
  have "quiet ?ms (machines ?ms C1)"
    unfolding quiet_def fl by (simp add: C1_def s1_def put(2) L F rest restored outq_def) (simp add: lead_sm_def foll_sm_def NewRaft_def becomeFollower_def Let_def)
  then have "may_take ?ms 1 C1 1 ChProp" by (simp add: may_take_def r1 L) (simp add: sm_defs)
  from cluster_loop [OF C1 _ this lead_proposes [where q = ?q]]
  have C2: "kv_reach dbs ?ms 1 (set_rep C1 1 (with_node (reps C1 1)
    ((rnode C 1)\<lparr>propc := [], nraft := lead_sm [put_entry ?q] 0 0 0 0 [append_to ?q 2, append_to ?q 3]\<rparr>)) {#})"
    by (simp add: r1 L)
  define C2 where "C2 = set_rep C1 1 (with_node (reps C1 1)
    ((rnode C 1)\<lparr>propc := [], nraft := lead_sm [put_entry ?q] 0 0 0 0 [append_to ?q 2, append_to ?q 3]\<rparr>)) {#}"
  have n2: "nraft (rnode C2 1) = lead_sm [put_entry ?q] 0 0 0 0 [append_to ?q 2, append_to ?q 3]" "members (rnode C2 1) = {2, 3}"
    "net C2 = {#}" by (simp_all add: C2_def L)
  have "may_take ?ms 1 C2 1 ChReady" by (simp add: may_take_def n2) (simp add: lead_sm_def)
  from cluster_loop [OF C2 [folded C2_def] _ this lead_sends [OF n2(1,2)]]
  show ?thesis
    by (rule that [where q = ?q and ch = ch])
      (simp_all add: follower_at_def leader_at_def n2 C2_def C1_def s1_def put(2) L F run_messages)
qed

text \<open>The follower appends the entry and answers.\<close>

lemma run_acked:
  assumes C: "kv_reach dbs [1, 2, 3] 1 C" "leader_at C r [] {#append_to q 2, append_to q 3#}" "follower_at C (foll_sm [] 0 [])"
  obtains C' where "kv_reach dbs [1, 2, 3] 1 C'" and "leader_at C' r [] {#append_to q 3, ack 2#}" and "reps C' 1 = reps C 1"
proof -
  let ?ms = "[1, 2, 3 :: int]"
  have F: "nraft (rnode C 2) = foll_sm [] 0 []" "propc (rnode C 2) = []" "members (rnode C 2) = {1, 3}" using C(3) by (simp_all add: follower_at_def)
  have N: "net C = {#append_to q 2, append_to q 3#}" using C(2) by (simp add: leader_at_def)
  define C1 where "C1 = set_rep C 2 (with_node (reps C 2) ((rnode C 2)\<lparr>propc := [append_to q 2]\<rparr>)) {#append_to q 3#}"
  have C1: "kv_reach dbs ?ms 1 C1"
    using cluster_receive [OF C(1), of "append_to q 2"] by (simp add: N F run_messages C1_def)
  have n1: "nraft (rnode C1 2) = foll_sm [] 0 []" "propc (rnode C1 2) = [append_to q 2]" "net C1 = {#append_to q 3#}" by (simp_all add: C1_def F)
  have "may_take ?ms 1 C1 2 ChProp" by (simp add: may_take_def n1 run_messages) (simp add: sm_defs)
  note l1 = cluster_loop [OF C1 _ this follower_appends [OF n1(1,2)]]
  define C2 where "C2 = set_rep C1 2 (with_node (reps C1 2) ((rnode C1 2)\<lparr>propc := [], nraft := foll_sm [put_entry q] 0 [ack 2]\<rparr>)) {#append_to q 3#}"
  have C2: "kv_reach dbs ?ms 1 C2" using l1 by (simp add: C2_def n1)
  have n2: "nraft (rnode C2 2) = foll_sm [put_entry q] 0 [ack 2]" "members (rnode C2 2) = {1, 3}" "net C2 = {#append_to q 3#}"
    by (simp_all add: C2_def C1_def F)
  have "may_take ?ms 1 C2 2 ChReady" by (simp add: may_take_def n2) (simp add: foll_sm_def)
  from cluster_loop [OF C2 _ this follower_acks [OF n2(1,2)]]
  show ?thesis
    by (rule that) (use C(2) in \<open>simp_all add: leader_at_def n2 C2_def C1_def\<close>)
qed

text \<open>The leader counts the answer, commits and hands the entry out.\<close>

lemma run_committed:
  assumes C: "kv_reach dbs [1, 2, 3] 1 C" "leader_at C (lead_sm [put_entry q] 0 0 1 0 []) [] {#append_to q 3, ack 2#}"
  obtains C' where "kv_reach dbs [1, 2, 3] 1 C'" and "calls (reps C' 1) = calls (reps C 1)"
    and "leader_at C' (lead_sm [put_entry q] 1 1 1 1 []) [\<lparr>taEntries = [put_entry q], taCommitIndex = 1\<rparr>] {#append_to q 3#}"
proof -
  let ?ms = "[1, 2, 3 :: int]"
  have L: "nraft (rnode C 1) = lead_sm [put_entry q] 0 0 1 0 []" "applyc (rnode C 1) = []" "net C = {#append_to q 3, ack 2#}"
    "propc (rnode C 1) = []" using C(2) by (simp_all add: leader_at_def)
  define C1 where "C1 = set_rep C 1 (with_node (reps C 1) ((rnode C 1)\<lparr>propc := [ack 2]\<rparr>)) {#append_to q 3#}"
  have C1: "kv_reach dbs ?ms 1 C1"
    using cluster_receive [OF C(1), of "ack 2"] by (simp add: L run_messages C1_def)
  have n1: "nraft (rnode C1 1) = lead_sm [put_entry q] 0 0 1 0 []" "propc (rnode C1 1) = [ack 2]" "net C1 = {#append_to q 3#}" by (simp_all add: C1_def L)
  have "may_take ?ms 1 C1 1 ChProp" by (simp add: may_take_def n1 run_messages) (simp add: sm_defs put_entry_def)
  note l1 = cluster_loop [OF C1 _ this lead_counts [OF n1(1,2)]]
  define C2 where "C2 = set_rep C1 1 (with_node (reps C1 1) ((rnode C1 1)\<lparr>propc := [], nraft := lead_sm [put_entry q] 1 0 1 1 []\<rparr>)) {#append_to q 3#}"
  have C2: "kv_reach dbs ?ms 1 C2" using l1 by (simp add: C2_def n1)
  have n2: "nraft (rnode C2 1) = lead_sm [put_entry q] 1 0 1 1 []" "applyc (rnode C2 1) = []" "net C2 = {#append_to q 3#}"
    by (simp_all add: C2_def C1_def L)
  have "may_take ?ms 1 C2 1 ChReady" by (simp add: may_take_def n2) (simp add: lead_sm_def)
  from cluster_loop [OF C2 _ this lead_hands_out [OF n2(1,2)]]
  show ?thesis
    by (rule that) (use C(2) in \<open>simp_all add: leader_at_def n2 C2_def C1_def\<close>)
qed

text \<open>The apply loop and the worker of the leader put the entry into its tree.\<close>

lemma run_applied:
  assumes C: "kv_reach dbs [1, 2, 3] 1 C"
    "leader_at C (lead_sm [put_entry q] 1 1 1 1 []) [\<lparr>taEntries = [put_entry q], taCommitIndex = 1\<rparr>] N"
  obtains C' where "kv_reach dbs [1, 2, 3] 1 C'" and "calls (reps C' 1) = calls (reps C 1)" and "hist (reps C' 1) = [put_entry q]"
    and "decided [1, 2, 3] 1 C' = [put_entry q]"
proof -
  let ?ms = "[1, 2, 3 :: int]" and ?s = "reps C 1" and ?ta = "\<lparr>taEntries = [put_entry q], taCommitIndex = 1\<rparr>"
  have L: "nraft (rnode C 1) = lead_sm [put_entry q] 1 1 1 1 []" "applyc (rnode C 1) = [?ta]" "hist ?s = []" "batches ?s = []"
    using C(2) by (simp_all add: leader_at_def)
  define d1 where "d1 = (sdb ?s)\<lparr>dnode := (rnode C 1)\<lparr>applyc := []\<rparr>, scheduler_q := AddTask (scheduler_q (sdb ?s)) (NewJob ''applier'' (job_of ?ta))\<rparr>"
  define s1 where "s1 = ?s\<lparr>sdb := d1, batches := [?ta]\<rparr>"
  have "node_Apply (rnode C 1) = Some (?ta, (rnode C 1)\<lparr>applyc := []\<rparr>)" by (simp add: node_Apply_def L)
  then have "sys_step ?s s1" using sys_step.apply_loop [of ?s d1] L(4) by (simp add: s1_def d1_def applyLoop_def)
  then have "inner ?s s1" by (simp add: inner_def s1_def d1_def)
  from kv_reach.step [OF C(1) kv_step.inside [OF _ this]] have r1: "kv_reach dbs ?ms 1 (set_rep C 1 s1 (net C))" by simp
  have "queue (scheduler_q d1) \<noteq> []" by (simp add: d1_def AddTask_def)
  then obtain d2 where d2: "db_worker d1 = Some d2" by (auto simp: db_worker_def take_task_def split_def)
  then have n2: "dnode d2 = dnode d1" by (auto simp: db_worker_def split: option.splits)
  define s2 where "s2 = s1\<lparr>sdb := d2, batches := [], hist := [put_entry q]\<rparr>"
  have "sys_step s1 s2" using sys_step.worker [of s1 d2 ?ta "[]"] d2 L(3) by (simp add: s1_def s2_def)
  then have "inner s1 s2" by (simp add: inner_def s2_def s1_def n2)
  then have r2: "kv_reach dbs ?ms 1 (set_rep (set_rep C 1 s1 (net C)) 1 s2 (net C))"
    using kv_reach.step [OF r1 kv_step.inside [of 1 ?ms _ s2]] by simp
  show ?thesis
    by (rule that [OF r2]) (simp_all add: s2_def s1_def decided_def decided_entries_def rcommit_def rlog_def n2 d1_def L lead_sm_def)
qed

lemma written_cluster:
  obtains dbs C q ch where "opened [1, 2, 3] dbs" and "kv_reach dbs [1, 2, 3] 1 C" and "hist (reps C 1) = [put_entry q]"
    and "decided [1, 2, 3] 1 C = [put_entry q]" and "calls (reps C 1) = [(q, ch, 0)]" and "fits_tree (decided [1, 2, 3] 1 C)"
proof -
  obtain dbs C where C: "opened [1, 2, 3] dbs" "kv_reach dbs [1, 2, 3] 1 C" "net C = {#}"
    "nraft (rnode C 1) = lead_sm [] 0 0 0 0 []" "propc (rnode C 1) = []" "applyc (rnode C 1) = []" "members (rnode C 1) = {2, 3}"
    "nraft (rnode C 2) = foll_sm [] 0 []" "propc (rnode C 2) = []" "members (rnode C 2) = {1, 3}"
    "nraft (rnode C 3) = NewRaft 3 [1, 2]" "propc (rnode C 3) = []"
    "calls (reps C 1) = []" "hist (reps C 1) = []" "batches (reps C 1) = []" by (rule elected_cluster)
  have at: "leader_at C (lead_sm [] 0 0 0 0 []) [] {#}" "follower_at C (foll_sm [] 0 [])" using C by (simp_all add: leader_at_def follower_at_def)
  obtain C1 q ch where C1: "kv_reach dbs [1, 2, 3] 1 C1" "calls (reps C1 1) = [(q, ch, 0)]" "follower_at C1 (foll_sm [] 0 [])"
    "leader_at C1 (lead_sm [put_entry q] 0 0 1 0 []) [] {#append_to q 2, append_to q 3#}"
    by (rule run_proposed [OF C(2) at C(11-13)])
  obtain C2 where C2: "kv_reach dbs [1, 2, 3] 1 C2" "leader_at C2 (lead_sm [put_entry q] 0 0 1 0 []) [] {#append_to q 3, ack 2#}"
    "reps C2 1 = reps C1 1" by (rule run_acked [OF C1(1,4,3)])
  obtain C3 where C3: "kv_reach dbs [1, 2, 3] 1 C3" "calls (reps C3 1) = calls (reps C2 1)"
    "leader_at C3 (lead_sm [put_entry q] 1 1 1 1 []) [\<lparr>taEntries = [put_entry q], taCommitIndex = 1\<rparr>] {#append_to q 3#}"
    by (rule run_committed [OF C2(1,2)])
  obtain C4 where C4: "kv_reach dbs [1, 2, 3] 1 C4" "calls (reps C4 1) = calls (reps C3 1)" "hist (reps C4 1) = [put_entry q]"
    "decided [1, 2, 3] 1 C4 = [put_entry q]" by (rule run_applied [OF C3(1,3)])
  show ?thesis
    by (rule that [OF C(1) C4(1,3,4)]) (simp_all add: C4 C3(2) C2(3) C1(2) fits_tree_def put_entry_def maxInternalNodeCells_def)
qed

section \<open>Properties\<close>



text \<open>
  C3: under the conditions of the previous property (members opened on empty files, equal logs at the
  start, a leader that stays, one proposal at a time, no lost acknowledgement, at most one delivery of a
  message, a decided log that fits the tree) an acknowledged write is not lost. When a call of \<^verbatim>\<open>Put\<close> on
  the leader returns without an error before its timeout, an entry with its request identifier, which
  carries the key and the value of a write with that identifier, is in the decided log at that time and at
  every later time of the run, and a majority of the members hold it in their logs. Without these
  conditions a new leader may override the entry.
\<close>

theorem cluster_ack_durable:
  assumes "kv_trace dbs ms l C ws" and "(kv_step ms l)\<^sup>*\<^sup>* C C'" and "fits_tree (decided ms l C')"
    and "(i, ch, n) \<in> set (calls (reps C l))" and "core (sdb (reps C l)) = Some (Inr c)" and "put_select c ch False pick = Some (Inr ())"
  shows "\<exists>e \<in> set (decided ms l C'). request_of e = i \<and> write_of e \<in> set ws \<and> majority ms {k \<in> set ms. e \<in> set (rlog (machines ms C') k)}"
proof -
  have inv: "kv_inv dbs ms l C" by (rule kv_reach_inv [OF kv_trace_reach [OF assms(1)]])
  have l: "l \<in> set ms" using inv rep_reach_inv by (auto simp: kv_inv_def rep_inv_def)
  note R = replica_inv [OF kv_trace_reach [OF assms(1)] assms(2,3) l]
  have ok: "core_ok 0 c" "calls_ok (reps C l) c" using R(1) assms(5) by (auto simp: sys_inv_def tree_state_def)
  have "ch \<in> closed (wheap (dwaiter c))" using assms(6) by (simp add: put_select_def split: if_splits)
  moreover have "chans (dwaiter c) i = Some ch \<Longrightarrow> ch \<notin> closed (wheap (dwaiter c))"
    using ok(1) write_waits.waits_open by (auto simp: core_ok_def)
  moreover have "call_ok (hist (reps C l)) (dwaiter c) (i, ch, n)" using ok(2) assms(4) by (simp add: calls_ok_def)
  ultimately have "i \<in> request_of ` set (hist (reps C l))"
    by (auto simp: call_ok_def split: if_splits dest: in_set_dropD)
  then obtain e where e: "e \<in> set (hist (reps C l))" "request_of e = i" by blast
  have "set (hist (reps C l)) \<subseteq> set (handed_out (reps C l))" using R(1) by (auto simp: sys_inv_def)
  then have h: "e \<in> set (handed_out (reps C l))" using e(1) by blast
  then have D: "e \<in> set (decided ms l C')" using R(2) set_mono_prefix by blast
  have "e \<in> set (decided ms l C)" using h handed_out_decided [OF inv rtranclp.rtrancl_refl l] set_mono_prefix by blast
  then have w: "write_of e \<in> set ws" by (rule decided_written [OF assms(1)])
  have inv': "rep_inv ms l (machines ms C')" using kv_run_sim [OF assms(2) inv] rep_reach_inv by (auto simp: kv_inv_def)
  let ?c = "machines ms C'"
  have "majority ms {k \<in> set ms. e \<in> set (rlog ?c k)}"
  proof (rule majority_mono)
    show "majority ms {k \<in> set ms. rcommit ?c l \<le> int (length (rlog ?c k))}" using inv' by (simp add: rep_inv_def)
    have "e \<in> set (rlog ?c k)" if k: "k \<in> set ms" "rcommit ?c l \<le> int (length (rlog ?c k))" for k
    proof -
      have "nat (rcommit ?c l) \<le> length (rlog ?c k)" using k(2) by linarith
      from take_prefix_eq [OF rep_log_prefix(1) [OF inv' k(1)] this]
      show ?thesis using D by (metis decided_def decided_entries_def in_set_takeD)
    qed
    then show "{k \<in> set ms. rcommit ?c l \<le> int (length (rlog ?c k))} \<subseteq> {k \<in> set ms. e \<in> set (rlog ?c k)}" by blast
  qed simp
  then show ?thesis using D e(2) w by blast
qed

theorem cluster_ack_durable_witness:
  "\<exists>dbs C ws q ch c. kv_trace dbs [1, 2, 3] 1 C ws \<and> calls (reps C 1) = [(q, ch, 0)]
     \<and> core (sdb (reps C 1)) = Some (Inr c) \<and> put_select c ch False False = Some (Inr ()) \<and> majority [1, 2, 3] {k \<in> set [1, 2, 3]. put_entry q \<in> set (rlog (machines [1, 2, 3] C) k)}"
proof -
  obtain dbs C q ch where C: "opened [1, 2, 3] dbs" "kv_reach dbs [1, 2, 3] 1 C" "hist (reps C 1) = [put_entry q]"
    "decided [1, 2, 3] 1 C = [put_entry q]" "calls (reps C 1) = [(q, ch, 0)]" "fits_tree (decided [1, 2, 3] 1 C)" by (rule written_cluster)
  obtain ws where ws: "kv_trace dbs [1, 2, 3] 1 C ws" using kv_reach_trace [OF C(2)] by blast
  have "sys_inv (handed_out (reps C 1)) (reps C 1)" using replica_inv(1) [OF C(2) rtranclp.rtrancl_refl C(6), of 1] by simp
  then obtain c where c: "core (sdb (reps C 1)) = Some (Inr c)" "calls_ok (reps C 1) c" by (auto simp: sys_inv_def)
  have "ch \<in> closed (wheap (dwaiter c))" using c(2) C(3,5) by (simp add: calls_ok_def call_ok_def request_of_def put_entry_def)
  then have ack: "put_select c ch False False = Some (Inr ())" by (simp add: put_select_def)
  have "(q, ch, 0) \<in> set (calls (reps C 1))" by (simp add: C(5))
  from cluster_ack_durable [OF ws rtranclp.rtrancl_refl C(6) this c(1) ack]
  have "majority [1, 2, 3] {k \<in> set [1, 2, 3]. put_entry q \<in> set (rlog (machines [1, 2, 3] C) k)}" by (simp add: C(4))
  then show ?thesis using ws C(5) c(1) ack by blast
qed

end
