(* ===== verification/Http_Api.thy ===== *)
theory Http_Api
  imports Harmony_Db
begin

text \<open>
  The HTTP interface, \<^verbatim>\<open>api/server.go\<close>, and the start of the process, \<^verbatim>\<open>cmd/server.go\<close>. A request carries
  its method and the outcome of decoding its body, \<open>None\<close> when \<^verbatim>\<open>json.Decoder\<close> fails; an answer is the
  status code, the content type and the JSON document, or the text of \<^verbatim>\<open>http.Error\<close>. The database is
  used through its two calls, which are arguments of the handlers and change a state of any type.
\<close>

section \<open>Requests and answers\<close>

record put_request =
  pKey :: string
  pValue :: string

record get_request =
  gKey :: string

record response =
  rSuccess :: bool
  rMessage :: string
  rValue :: string
  rError :: string

datatype payload = Json response | Text string

record answer =
  status :: nat
  contentType :: string
  payload :: payload

record 'b request =
  rMethod :: string
  rBody :: "'b option"

definition no_response :: response where
  "no_response = \<lparr>rSuccess = False, rMessage = [], rValue = [], rError = []\<rparr>"

definition http_Error :: "string \<Rightarrow> nat \<Rightarrow> answer" where
  "http_Error msg code = \<lparr>status = code, contentType = ''text/plain; charset=utf-8'', payload = Text (msg @ [CHR 0x0A])\<rparr>"

definition json_answer :: "nat \<Rightarrow> response \<Rightarrow> answer" where
  "json_answer code r = \<lparr>status = code, contentType = ''application/json'', payload = Json r\<rparr>"

text \<open>The members of the encoded document: those marked \<^verbatim>\<open>omitempty\<close> are left out when empty.\<close>

definition json_members :: "response \<Rightarrow> string list" where
  "json_members r = ''success'' # (if rMessage r = [] then [] else [''message'']) @ (if rValue r = [] then [] else [''value''])
     @ (if rError r = [] then [] else [''error''])"

section \<open>Handlers\<close>

definition handleHealth :: "unit request \<Rightarrow> answer" where
  "handleHealth r =
     (if rMethod r \<noteq> ''GET'' then http_Error ''Method not allowed'' 405
      else json_answer 200 (no_response\<lparr>rSuccess := True, rMessage := ''healthy''\<rparr>))"

definition handlePut :: "('s \<Rightarrow> bytes \<Rightarrow> bytes \<Rightarrow> string option \<times> 's) \<Rightarrow> 's \<Rightarrow> put_request request \<Rightarrow> answer \<times> 's" where
  "handlePut dbPut s r =
     (if rMethod r \<noteq> ''POST'' then (http_Error ''Method not allowed'' 405, s)
      else (case rBody r of
              None \<Rightarrow> (json_answer 400 (no_response\<lparr>rError := ''Invalid JSON body''\<rparr>), s)
            | Some req \<Rightarrow>
                if pKey req = [] then (json_answer 400 (no_response\<lparr>rError := ''Key cannot be empty''\<rparr>), s)
                else (case dbPut s (pKey req) (pValue req) of
                        (Some err, s1) \<Rightarrow> (json_answer 500 (no_response\<lparr>rError := err\<rparr>), s1)
                      | (None, s1) \<Rightarrow>
                          (json_answer 200 (no_response\<lparr>rSuccess := True,
                             rMessage := ''Successfully stored key: '' @ pKey req\<rparr>), s1))))"

definition handleGet :: "('s \<Rightarrow> bytes \<Rightarrow> (string + bytes) \<times> 's) \<Rightarrow> 's \<Rightarrow> get_request request \<Rightarrow> answer \<times> 's" where
  "handleGet dbGet s r =
     (if rMethod r \<noteq> ''POST'' then (http_Error ''Method not allowed'' 405, s)
      else (case rBody r of
              None \<Rightarrow> (json_answer 400 (no_response\<lparr>rError := ''Invalid JSON body''\<rparr>), s)
            | Some req \<Rightarrow>
                if gKey req = [] then (json_answer 400 (no_response\<lparr>rError := ''Key cannot be empty''\<rparr>), s)
                else (case dbGet s (gKey req) of
                        (Inl err, s1) \<Rightarrow> (json_answer 500 (no_response\<lparr>rError := ''Get failed: '' @ err\<rparr>), s1)
                      | (Inr val, s1) \<Rightarrow> (json_answer 200 (no_response\<lparr>rSuccess := True, rValue := val\<rparr>), s1))))"

section \<open>Starting the process\<close>

text \<open>\<^verbatim>\<open>strconv.Atoi\<close>: an optional sign and decimal digits, in the range of a 64-bit integer.\<close>

fun atoi_digits :: "nat \<Rightarrow> string \<Rightarrow> nat option" where
  "atoi_digits acc [] = Some acc"
| "atoi_digits acc (c # cs) = (let d = of_char c in
     if 48 \<le> d \<and> d \<le> (57 :: nat) then atoi_digits (10 * acc + (d - 48)) cs else None)"

definition atoi :: "string \<Rightarrow> int option" where
  "atoi s =
     (let (neg, ds) = (case s of c # cs \<Rightarrow> if c = CHR ''-'' then (True, cs) else if c = CHR ''+'' then (False, cs) else (False, s)
                       | [] \<Rightarrow> (False, []))
      in if ds = [] then None
         else (case atoi_digits 0 ds of
                 None \<Rightarrow> None
               | Some n \<Rightarrow> let i = (if neg then - int n else int n) in if in_i64 i then Some i else None))"

definition getPortFromEnv :: "string \<Rightarrow> int" where
  "getPortFromEnv env =
     (let portStr = (if env = [] then ''8080'' else env)
      in (case atoi portStr of None \<Rightarrow> 8080 | Some p \<Rightarrow> p))"

definition getRaftPortFromEnv :: "string \<Rightarrow> int" where
  "getRaftPortFromEnv env =
     (let portStr = (if env = [] then ''9091'' else env)
      in (case atoi portStr of None \<Rightarrow> 9091 | Some p \<Rightarrow> p))"

text \<open>The server holds the database and its port; \<open>open_db\<close> is \<^verbatim>\<open>harmonydb.Open\<close> on a Raft port.\<close>

record http_server =
  srvDb :: db
  srvPort :: int

definition NewHTTPServerWithRaftPort :: "(int \<Rightarrow> db res option) \<Rightarrow> int \<Rightarrow> int \<Rightarrow> http_server res option" where
  "NewHTTPServerWithRaftPort open_db httpPort raftPort =
     (case open_db raftPort of
        None \<Rightarrow> None
      | Some (Inl e) \<Rightarrow> Some (Inl (PanicMsg ''open db''))
      | Some (Inr d) \<Rightarrow> Some (Inr \<lparr>srvDb = d, srvPort = httpPort\<rparr>))"

definition NewHTTPServer :: "(int \<Rightarrow> db res option) \<Rightarrow> int \<Rightarrow> http_server res option" where
  "NewHTTPServer open_db port = NewHTTPServerWithRaftPort open_db port (port + 1010)"

definition server_main :: "(int \<Rightarrow> db res option) \<Rightarrow> string \<Rightarrow> string \<Rightarrow> http_server res option" where
  "server_main open_db portEnv raftPortEnv =
     NewHTTPServerWithRaftPort open_db (getPortFromEnv portEnv) (getRaftPortFromEnv raftPortEnv)"

section \<open>Properties\<close>

text \<open>An answer is well formed: it reports success exactly with status 200, and failures say why.\<close>

definition answer_wf :: "answer \<Rightarrow> bool" where
  "answer_wf a \<longleftrightarrow> (case payload a of
       Text t \<Rightarrow> status a = 405 \<and> t \<noteq> []
     | Json r \<Rightarrow> status a \<in> {200, 400, 500} \<and> (rSuccess r \<longleftrightarrow> status a = 200) \<and> (rSuccess r \<or> rError r \<noteq> []))"

lemmas handler_defs = handlePut_def handleGet_def handleHealth_def http_Error_def json_answer_def no_response_def answer_wf_def

text \<open>
  C36: the handlers answer every request, in a well-formed way, and touch the database only for a valid
  one. Whatever the request and whatever calls stand for the database, \<^verbatim>\<open>handlePut\<close> and \<^verbatim>\<open>handleGet\<close>
  call it once for a \<^verbatim>\<open>POST\<close> with a decodable body and a non-empty key and leave it alone otherwise;
  they report success exactly when that call was made and succeeded; and provided the database's
  errors have a text, every answer is well formed.
\<close>

theorem http_handlers_correct:
  assumes "\<forall>s k v e. fst (dbPut s k v) = Some e \<longrightarrow> e \<noteq> []"
  shows "answer_wf (fst (handlePut dbPut s r)) \<and> answer_wf (fst (handleGet dbGet s g)) \<and> answer_wf (handleHealth h)
    \<and> snd (handlePut dbPut s r) = (if rMethod r = ''POST'' \<and> (\<exists>q. rBody r = Some q \<and> pKey q \<noteq> [])
         then snd (dbPut s (pKey (the (rBody r))) (pValue (the (rBody r)))) else s)
    \<and> snd (handleGet dbGet s g) = (if rMethod g = ''POST'' \<and> (\<exists>q. rBody g = Some q \<and> gKey q \<noteq> [])
         then snd (dbGet s (gKey (the (rBody g)))) else s)
    \<and> (status (fst (handlePut dbPut s r)) = 200 \<longleftrightarrow> rMethod r = ''POST''
         \<and> (\<exists>q. rBody r = Some q \<and> pKey q \<noteq> [] \<and> fst (dbPut s (pKey q) (pValue q)) = None))
    \<and> (status (fst (handleGet dbGet s g)) = 200 \<longleftrightarrow> rMethod g = ''POST''
         \<and> (\<exists>q v. rBody g = Some q \<and> gKey q \<noteq> [] \<and> fst (dbGet s (gKey q)) = Inr v))"
proof -
  have e: "e \<noteq> []" if "dbPut s k v = (Some e, s1)" for k v e s1 using assms that by (metis fst_conv)
  have "answer_wf (fst (handlePut dbPut s r))"
    using e by (auto simp: handler_defs split: option.splits prod.splits)
  moreover have "answer_wf (fst (handleGet dbGet s g))"
    by (auto simp: handler_defs split: option.splits prod.splits sum.splits)
  moreover have "answer_wf (handleHealth h)" by (simp add: handler_defs)
  ultimately show ?thesis
    by (auto simp: handler_defs split: option.splits prod.splits sum.splits if_splits)
qed

text \<open>A database that stores one pair and fails on the key \<^verbatim>\<open>x\<close>.\<close>

definition cell_put :: "(bytes \<times> bytes) option \<Rightarrow> bytes \<Rightarrow> bytes \<Rightarrow> string option \<times> (bytes \<times> bytes) option" where
  "cell_put s k v = (if k = ''x'' then (Some ''put timeout'', s) else (None, Some (k, v)))"

definition cell_get :: "(bytes \<times> bytes) option \<Rightarrow> bytes \<Rightarrow> (string + bytes) \<times> (bytes \<times> bytes) option" where
  "cell_get s k = (case s of Some (k1, v) \<Rightarrow> if k = k1 then (Inr v, s) else (Inl ''key not found'', s)
     | None \<Rightarrow> (Inl ''key not found'', s))"

theorem http_handlers_correct_witness:
  "status (fst (handlePut cell_put None \<lparr>rMethod = ''POST'', rBody = Some \<lparr>pKey = ''k'', pValue = ''v''\<rparr>\<rparr>)) = 200
     \<and> snd (handlePut cell_put None \<lparr>rMethod = ''POST'', rBody = Some \<lparr>pKey = ''k'', pValue = ''v''\<rparr>\<rparr>) = Some (''k'', ''v'')
     \<and> status (fst (handleGet cell_get None \<lparr>rMethod = ''GET'', rBody = Some \<lparr>gKey = ''k''\<rparr>\<rparr>)) \<noteq> 200"
proof -
  let ?r = "\<lparr>rMethod = ''POST'', rBody = Some \<lparr>pKey = ''k'', pValue = ''v''\<rparr>\<rparr>"
  let ?g = "\<lparr>rMethod = ''GET'', rBody = Some \<lparr>gKey = ''k''\<rparr>\<rparr>"
  have err: "\<forall>s k v e. fst (cell_put s k v) = Some e \<longrightarrow> e \<noteq> []" by (auto simp: cell_put_def)
  have put: "cell_put None ''k'' ''v'' = (None, Some (''k'', ''v''))" by (simp add: cell_put_def)
  note H = http_handlers_correct [OF err, where s = None and r = ?r and g = ?g and dbGet = cell_get and h = "\<lparr>rMethod = ''GET'', rBody = None\<rparr>"]
  have "snd (handlePut cell_put None ?r) = Some (''k'', ''v'')" using H put by simp
  moreover have "status (fst (handlePut cell_put None ?r)) = 200" using H put by simp
  moreover have "status (fst (handleGet cell_get None ?g)) \<noteq> 200" using H by simp
  ultimately show ?thesis by simp
qed

text \<open>
  With the environment of the image, and with no environment at all, the process looks for a
  configuration that the repository does not have.
\<close>

theorem default_config_path:
  "config_path (getRaftPortFromEnv []) = ''./repl/cluster-node4091.yaml''
     \<and> config_path (getRaftPortFromEnv ''9090'') = ''./repl/cluster-node4090.yaml''
     \<and> config_path 5001 = ''./repl/cluster-node1.yaml''"
  by (simp add: config_path_def getRaftPortFromEnv_def atoi_def in_i64_def itoa_def char_of_def bit_0)

end
