(* ===== verification/Http_Server.thy ===== *)
theory Http_Server
  imports Http_Api Db_System
begin

text \<open>
  The HTTP server of \<^verbatim>\<open>api/server.go\<close> around its handlers: construction on an open database, the routes that
  \<^verbatim>\<open>Start\<close> registers, the life of the server, and the handlers on the database itself, which ties the
  answer of a read to the Raft log.
\<close>

section \<open>The server\<close>

record http_config =
  Addr :: string
  ReadTimeout :: int
  WriteTimeout :: int

record live_server =
  lsDb :: db
  lsPort :: int
  lsServer :: "http_config option"

definition NewHTTPServerWithDB :: "db \<Rightarrow> int \<Rightarrow> live_server" where
  "NewHTTPServerWithDB d port = \<lparr>lsDb = d, lsPort = port, lsServer = None\<rparr>"

text \<open>
  The routes of the multiplexer: patterns without a trailing slash match a path exactly, anything else
  is answered with 404. Times are nanoseconds.
\<close>

datatype route = Health | PutKey | GetKey | NotFound

definition mux :: "string \<Rightarrow> route" where
  "mux path = (if path = ''/health'' then Health else if path = ''/put'' then PutKey
     else if path = ''/get'' then GetKey else NotFound)"

text \<open>\<open>listenAndServe\<close> is the error, if any, with which \<^verbatim>\<open>ListenAndServe\<close> ends.\<close>

definition server_Start :: "(http_config \<Rightarrow> string option) \<Rightarrow> live_server \<Rightarrow> string option \<times> live_server" where
  "server_Start listenAndServe h =
     (let conf = \<lparr>Addr = CHR '':'' # itoa (lsPort h), ReadTimeout = 10 * 10 ^ 9, WriteTimeout = 10 * 10 ^ 9\<rparr>
      in (listenAndServe conf, h\<lparr>lsServer := Some conf\<rparr>))"

text \<open>\<open>shutdown\<close> is the result of \<^verbatim>\<open>Shutdown\<close> with its timeout of five seconds.\<close>

definition server_Stop :: "(http_config \<Rightarrow> int \<Rightarrow> string option) \<Rightarrow> live_server \<Rightarrow> string option" where
  "server_Stop shutdown h = (case lsServer h of Some conf \<Rightarrow> shutdown conf (5 * 10 ^ 9) | None \<Rightarrow> None)"

text \<open>The exit status of the process, once the server that \<^verbatim>\<open>main\<close> created has ended.\<close>

definition main_exit :: "(http_config \<Rightarrow> string option) \<Rightarrow> live_server \<Rightarrow> int" where
  "main_exit listenAndServe server = (case fst (server_Start listenAndServe server) of Some err \<Rightarrow> 1 | None \<Rightarrow> 0)"

section \<open>Handlers on the database\<close>

text \<open>
  A call of \<^verbatim>\<open>Get\<close> without a timeout, from its wait to its answer: \<open>None\<close> when it would wait, a fault when
  it panics or the process has, otherwise the error text or the value, and the database after the call.
\<close>

definition db_Get :: "db \<Rightarrow> bytes \<Rightarrow> ((string + bytes) \<times> db) res option" where
  "db_Get d key =
     (case core d of
        None \<Rightarrow> None
      | Some (Inl f) \<Rightarrow> Some (Inl f)
      | Some (Inr c) \<Rightarrow>
          let (ch, c1) = get_wait c; d1 = d\<lparr>core := Some (Inr c1)\<rparr>
          in (case get_select c1 ch key False True of
                None \<Rightarrow> None
              | Some (Inr (c2, v)) \<Rightarrow> Some (Inr (Inr v, d1\<lparr>core := Some (Inr c2)\<rparr>))
              | Some (Inl f) \<Rightarrow> Some (if is_panic f then Inl f else Inr (Inl (error_text f), d1))))"

datatype any_body = PutBody put_request | GetBody get_request

definition serve_http :: "('s \<Rightarrow> bytes \<Rightarrow> bytes \<Rightarrow> string option \<times> 's) \<Rightarrow> ('s \<Rightarrow> bytes \<Rightarrow> (string + bytes) \<times> 's)
    \<Rightarrow> 's \<Rightarrow> string \<Rightarrow> string \<Rightarrow> any_body option \<Rightarrow> answer \<times> 's" where
  "serve_http dbPut dbGet s path method body =
     (case mux path of
        Health \<Rightarrow> (handleHealth \<lparr>rMethod = method, rBody = Some ()\<rparr>, s)
      | PutKey \<Rightarrow> handlePut dbPut s \<lparr>rMethod = method, rBody = (case body of Some (PutBody q) \<Rightarrow> Some q | _ \<Rightarrow> None)\<rparr>
      | GetKey \<Rightarrow> handleGet dbGet s \<lparr>rMethod = method, rBody = (case body of Some (GetBody q) \<Rightarrow> Some q | _ \<Rightarrow> None)\<rparr>
      | NotFound \<Rightarrow> (http_Error ''404 page not found'' 404, s))"

section \<open>Properties\<close>

text \<open>
  C14: reads over HTTP follow the log. On a node in a state it reaches from a first start on empty files by
  messages that continue its log, while the entries handed out for application fit the tree (commands
  only, fewer than 290, no key below the first one's), a \<^verbatim>\<open>POST\<close> to \<^verbatim>\<open>/get\<close> with a non-empty key answers at
  once, without a panic: with status 200 and the value of the last executed entry for the key, or with
  status 500 and the text \<^verbatim>\<open>Get failed: get: key not found\<close> when no executed entry has the key. The handler
  is given any function that returns what \<^verbatim>\<open>Get\<close> returns.
\<close>

theorem http_get_follows_log:
  assumes "Open_db load (\<lambda>_. []) dial listen nanos port pt rt = Some (Inr d)" and "sys_reach d s" and "fits_tree (handed_out s)"
    and "key \<noteq> []" and "\<forall>k x. db_Get (sdb s) k = Some (Inr x) \<longrightarrow> dbGet (sdb s) k = x"
  shows "(\<exists>x. db_Get (sdb s) key = Some (Inr x))
    \<and> serve_http dbPut dbGet (sdb s) ''/get'' ''POST'' (Some (GetBody \<lparr>gKey = key\<rparr>))
    = (case map_of (rev (map kv_of (hist s))) key of
         Some v \<Rightarrow> json_answer 200 (no_response\<lparr>rSuccess := True, rValue := v\<rparr>)
       | None \<Rightarrow> json_answer 500 (no_response\<lparr>rError := ''Get failed: get: key not found''\<rparr>), sdb s)"
proof -
  have "sys_inv (handed_out s) s" by (rule sys_reach_inv [OF assms(1-3)]) simp
  then obtain c where c: "core (sdb s) = Some (Inr c)" "core_ok 0 c" "contents (kv c) = map_of (rev (map kv_of (hist s)))"
    by (auto simp: sys_inv_def tree_state_def)
  have same: "(sdb s)\<lparr>core := Some (Inr c)\<rparr> = sdb s" using c(1) by (cases "sdb s") simp
  have get: "db_Get (sdb s) key = Some (Inr (case map_of (rev (map kv_of (hist s))) key of
      None \<Rightarrow> Inl ''get: key not found'' | Some v \<Rightarrow> Inr v, sdb s))"
    using get_wait_ok [OF c(2)] get_select_ok [OF c(2), of key True] c(1,3) same
    by (simp add: db_Get_def Let_def is_panic_def error_text_def split: option.split)
  then have "dbGet (sdb s) key = (case map_of (rev (map kv_of (hist s))) key of
      None \<Rightarrow> Inl ''get: key not found'' | Some v \<Rightarrow> Inr v, sdb s)" using assms(5) by simp
  then show ?thesis using get assms(4) by (simp add: serve_http_def mux_def handleGet_def split: option.split)
qed

theorem http_get_follows_log_witness:
  "\<exists>d s dbGet. Open_db (\<lambda>_. Inr three_nodes) (\<lambda>_. []) up up 0 5001 0 0 = Some (Inr d) \<and> sys_reach d s
     \<and> serve_http (\<lambda>s k v. (None, s)) dbGet (sdb s) ''/get'' ''POST'' (Some (GetBody \<lparr>gKey = ''k''\<rparr>))
       = (json_answer 200 (no_response\<lparr>rSuccess := True, rValue := ''v''\<rparr>), sdb s)"
proof -
  obtain d s where d: "Open_db (\<lambda>_. Inr three_nodes) (\<lambda>_. []) up up 0 5001 0 0 = Some (Inr d)" "sys_reach d s"
    "hist s = [put_entry (next_id d)]" "fits_tree (handed_out s)" by (rule written_run)
  define dbGet where "dbGet = (\<lambda>d k. case db_Get d k of Some (Inr x) \<Rightarrow> x | _ \<Rightarrow> (Inl [], d))"
  have g: "\<forall>k x. db_Get (sdb s) k = Some (Inr x) \<longrightarrow> dbGet (sdb s) k = x" by (simp add: dbGet_def)
  have "map_of (rev (map kv_of (hist s))) ''k'' = Some ''v''" by (simp add: d(3) kv_of_def put_entry_def cmd_key_def cmd_val_def)
  then show ?thesis using http_get_follows_log [where dbGet = dbGet and key = "''k''", OF d(1,2,4) _ g] d(1,2) by auto
qed

text \<open>Requests are routed by the exact path, and only the three registered paths reach a handler.\<close>

theorem http_routes:
  "fst (serve_http dbPut dbGet s path method body) = http_Error ''404 page not found'' 404
     \<longleftrightarrow> path \<notin> {''/health'', ''/put'', ''/get''}"
  by (auto simp: serve_http_def mux_def handler_defs split: option.splits prod.splits sum.splits any_body.splits if_splits)

text \<open>A server that was never started has nothing to shut down; starting it fixes its address.\<close>

lemma server_life:
  "server_Stop sd (NewHTTPServerWithDB d p) = None"
  "server_Stop sd (snd (server_Start las h))
     = sd \<lparr>Addr = CHR '':'' # itoa (lsPort h), ReadTimeout = 10000000000, WriteTimeout = 10000000000\<rparr> 5000000000"
  by (simp_all add: server_Stop_def NewHTTPServerWithDB_def server_Start_def Let_def)

end
