(* ===== verification/Debug_Logger.thy ===== *)
theory Debug_Logger
  imports Http_Api "HOL-Library.Sublist"
begin

text \<open>
  The debug logging of \<^verbatim>\<open>logger.go\<close>: which entries the environment variables let through, and where
  they go. The variables, the call stack and the directory listing are arguments. The cores of zap are
  arguments too: a function that adds them to a checked entry, and a state that a written entry changes. Case folding and trimming are those of ASCII text.
\<close>

section \<open>Strings\<close>

definition lower_char :: "char \<Rightarrow> char" where
  "lower_char c = (if 65 \<le> (of_char c :: nat) \<and> (of_char c :: nat) \<le> 90 then char_of ((of_char c :: nat) + 32) else c)"

definition ToLower :: "string \<Rightarrow> string" where
  "ToLower s = map lower_char s"

definition is_space :: "char \<Rightarrow> bool" where
  "is_space c \<longleftrightarrow> (of_char c :: nat) \<in> {9, 10, 11, 12, 13, 32}"

definition TrimSpace :: "string \<Rightarrow> string" where
  "TrimSpace s = rev (dropWhile is_space (rev (dropWhile is_space s)))"

text \<open>\<^verbatim>\<open>strings.Split\<close> for a separator of one character: never empty.\<close>

fun Split :: "char \<Rightarrow> string \<Rightarrow> string list" where
  "Split sep [] = [[]]"
| "Split sep (c # cs) = (if c = sep then [] # Split sep cs
     else (case Split sep cs of p # ps \<Rightarrow> (c # p) # ps | [] \<Rightarrow> [[c]]))"

definition HasSuffix :: "string \<Rightarrow> string \<Rightarrow> bool" where
  "HasSuffix s suf \<longleftrightarrow> Sublist.suffix suf s"

definition TrimSuffix :: "string \<Rightarrow> string \<Rightarrow> string" where
  "TrimSuffix s suf = (if HasSuffix s suf then take (length s - length suf) s else s)"

definition Contains :: "string \<Rightarrow> string \<Rightarrow> bool" where
  "Contains s sub \<longleftrightarrow> Sublist.sublist sub s"

section \<open>Configuration\<close>

record debug_config =
  Enabled :: bool
  Components :: "string set"
  PerformanceMonitoring :: bool

definition detectDebugMode :: "string \<Rightarrow> string \<Rightarrow> string \<Rightarrow> debug_config" where
  "detectDebugMode debug components perf =
     (let c = \<lparr>Enabled = False, Components = {}, PerformanceMonitoring = False\<rparr>;
          c1 = (if debug \<noteq> [] then c\<lparr>Enabled := ToLower debug = ''true''\<rparr> else c);
          c2 = (if components \<noteq> [] then c1\<lparr>Components := set (map TrimSpace (Split (CHR '','') components))\<rparr> else c1)
      in if perf \<noteq> [] then c2\<lparr>PerformanceMonitoring := ToLower perf = ''true''\<rparr> else c2)"

text \<open>The global configuration is nil until the logger is initialized.\<close>

definition isDebugEnabledForComponent :: "debug_config option \<Rightarrow> string \<Rightarrow> bool" where
  "isDebugEnabledForComponent debugConfig component =
     (case debugConfig of
        None \<Rightarrow> False
      | Some c \<Rightarrow> if Enabled c \<and> Components c = {} then True else component \<in> Components c)"

definition ValidateComponent :: "string \<Rightarrow> string" where
  "ValidateComponent component =
     (if component \<in> {''btree'', ''raft'', ''api'', ''db'', ''storage'', ''server''} then component else ''unknown'')"

section \<open>Levels and fields\<close>

text \<open>The levels of zap, ordered by severity.\<close>

datatype level = DebugLevel | InfoLevel | WarnLevel | ErrorLevel | DPanicLevel | PanicLevel | FatalLevel

fun severity :: "level \<Rightarrow> int" where
  "severity DebugLevel = -1"
| "severity InfoLevel = 0"
| "severity WarnLevel = 1"
| "severity ErrorLevel = 2"
| "severity DPanicLevel = 3"
| "severity PanicLevel = 4"
| "severity FatalLevel = 5"

lemma severity_inj: "severity a = severity b \<Longrightarrow> a = b"
  by (cases a; cases b) auto

instantiation level :: linorder
begin

definition less_eq_level :: "level \<Rightarrow> level \<Rightarrow> bool" where
  "less_eq_level a b \<longleftrightarrow> severity a \<le> severity b"

definition less_level :: "level \<Rightarrow> level \<Rightarrow> bool" where
  "less_level a b \<longleftrightarrow> severity a < severity b"

instance by standard (auto simp: less_eq_level_def less_level_def dest: severity_inj)

end

datatype field_type = StringType | Int64Type | ErrorType | SkipType

record field =
  fKey :: string
  fType :: field_type
  fString :: string
  fInteger :: int

definition zap_String :: "string \<Rightarrow> string \<Rightarrow> field" where
  "zap_String k v = \<lparr>fKey = k, fType = StringType, fString = v, fInteger = 0\<rparr>"

definition zap_Int64 :: "string \<Rightarrow> int \<Rightarrow> field" where
  "zap_Int64 k v = \<lparr>fKey = k, fType = Int64Type, fString = [], fInteger = v\<rparr>"

text \<open>The field of an error holds its text; a nil error gives a field that is skipped.\<close>

definition zap_Error :: "string option \<Rightarrow> field" where
  "zap_Error err = (case err of
     None \<Rightarrow> \<lparr>fKey = [], fType = SkipType, fString = [], fInteger = 0\<rparr>
   | Some e \<Rightarrow> \<lparr>fKey = ''error'', fType = ErrorType, fString = e, fInteger = 0\<rparr>)"

definition CorrelationID :: "string \<Rightarrow> field" where "CorrelationID id1 = zap_String ''correlation_id'' id1"

definition NodeID :: "string \<Rightarrow> field" where "NodeID id1 = zap_String ''node_id'' id1"

definition Duration :: "string \<Rightarrow> field" where "Duration duration = zap_String ''duration_ms'' duration"

definition PageID :: "string \<Rightarrow> field" where "PageID id1 = zap_String ''page_id'' id1"

definition Term_field :: "int \<Rightarrow> field" where "Term_field t = zap_Int64 ''term'' t"

definition PeerID :: "string \<Rightarrow> field" where "PeerID id1 = zap_String ''peer_id'' id1"

section \<open>The filter\<close>

text \<open>
  \<open>'c\<close> stands for the wrapped core. Its checks extend a checked entry, its writes change a state, and
  \<^verbatim>\<open>With\<close> gives a core that carries further fields.
\<close>

record 'c filter_core =
  wrapped :: 'c
  fDebugConfig :: "debug_config option"

definition NewDebugFilterCore :: "'c \<Rightarrow> debug_config option \<Rightarrow> 'c filter_core" where
  "NewDebugFilterCore k config = \<lparr>wrapped = k, fDebugConfig = config\<rparr>"

definition isDebugEntryEnabled :: "'c filter_core \<Rightarrow> bool" where
  "isDebugEntryEnabled fc =
     (case fDebugConfig fc of
        None \<Rightarrow> False
      | Some c \<Rightarrow> if Enabled c \<and> Components c = {} then True else Enabled c)"

definition filter_Check :: "('c \<Rightarrow> level \<Rightarrow> 'e \<Rightarrow> 'e) \<Rightarrow> 'c filter_core \<Rightarrow> level \<Rightarrow> 'e \<Rightarrow> 'e" where
  "filter_Check coreCheck fc lv checked =
     (if lv = DebugLevel \<and> \<not> isDebugEntryEnabled fc then checked else coreCheck (wrapped fc) lv checked)"

fun extractComponentFromFields :: "field list \<Rightarrow> string" where
  "extractComponentFromFields [] = []"
| "extractComponentFromFields (f # fs) =
     (if fKey f = ''component'' \<and> fType f = StringType then fString f else extractComponentFromFields fs)"

definition filter_Write ::
  "('c \<Rightarrow> level \<Rightarrow> field list \<Rightarrow> 's \<Rightarrow> string option \<times> 's) \<Rightarrow> debug_config option \<Rightarrow> 'c filter_core \<Rightarrow> level \<Rightarrow> field list
   \<Rightarrow> 's \<Rightarrow> string option \<times> 's" where
  "filter_Write coreWrite debugConfig fc lv flds s =
     (let component = extractComponentFromFields flds
      in if lv = DebugLevel \<and> component \<noteq> [] \<and> \<not> isDebugEnabledForComponent debugConfig component then (None, s)
         else coreWrite (wrapped fc) lv flds s)"

definition filter_Sync :: "('c \<Rightarrow> 's \<Rightarrow> string option \<times> 's) \<Rightarrow> 'c filter_core \<Rightarrow> 's \<Rightarrow> string option \<times> 's" where
  "filter_Sync coreSync fc s = coreSync (wrapped fc) s"

definition filter_With :: "('c \<Rightarrow> field list \<Rightarrow> 'c) \<Rightarrow> 'c filter_core \<Rightarrow> field list \<Rightarrow> 'c filter_core" where
  "filter_With coreWith fc flds = \<lparr>wrapped = coreWith (wrapped fc) flds, fDebugConfig = fDebugConfig fc\<rparr>"

section \<open>Loggers\<close>

text \<open>
  A logger is a core with the options of \<^verbatim>\<open>zap.New\<close>. Its core is a core of zap, the filter around one, or
  the core of the no-op logger; the operations are those of the interface \<^verbatim>\<open>zapcore.Core\<close>.
\<close>

datatype 'c zcore = Plain 'c | Filtered "'c filter_core" | Nop

record 'c zlogger =
  zcore :: "'c zcore"
  addCaller :: bool
  addStacktrace :: "level option"

fun core_Check :: "('c \<Rightarrow> level \<Rightarrow> 'e \<Rightarrow> 'e) \<Rightarrow> 'c zcore \<Rightarrow> level \<Rightarrow> 'e \<Rightarrow> 'e" where
  "core_Check chk (Plain k) lv x = chk k lv x"
| "core_Check chk (Filtered fc) lv x = filter_Check chk fc lv x"
| "core_Check chk Nop lv x = x"

fun core_Write :: "('c \<Rightarrow> level \<Rightarrow> field list \<Rightarrow> 's \<Rightarrow> string option \<times> 's) \<Rightarrow> debug_config option \<Rightarrow> 'c zcore \<Rightarrow> level
    \<Rightarrow> field list \<Rightarrow> 's \<Rightarrow> string option \<times> 's" where
  "core_Write wr debugConfig (Plain k) lv flds s = wr k lv flds s"
| "core_Write wr debugConfig (Filtered fc) lv flds s = filter_Write wr debugConfig fc lv flds s"
| "core_Write wr debugConfig Nop lv flds s = (None, s)"

fun core_With :: "('c \<Rightarrow> field list \<Rightarrow> 'c) \<Rightarrow> 'c zcore \<Rightarrow> field list \<Rightarrow> 'c zcore" where
  "core_With wth (Plain k) flds = Plain (wth k flds)"
| "core_With wth (Filtered fc) flds = Filtered (filter_With wth fc flds)"
| "core_With wth Nop flds = Nop"

fun core_Sync :: "('c \<Rightarrow> 's \<Rightarrow> string option \<times> 's) \<Rightarrow> 'c zcore \<Rightarrow> 's \<Rightarrow> string option \<times> 's" where
  "core_Sync snc (Plain k) s = snc k s"
| "core_Sync snc (Filtered fc) s = filter_Sync snc fc s"
| "core_Sync snc Nop s = (None, s)"

definition logger_With :: "('c \<Rightarrow> field list \<Rightarrow> 'c) \<Rightarrow> 'c zlogger \<Rightarrow> field list \<Rightarrow> 'c zlogger" where
  "logger_With wth l flds = (if flds = [] then l else l\<lparr>zcore := core_With wth (zcore l) flds\<rparr>)"

text \<open>The two global variables of the package.\<close>

record 'c log_globals =
  Logger :: "'c zlogger option"
  debugConfig :: "debug_config option"

definition GetLogger :: "'c log_globals \<Rightarrow> 'c zlogger \<times> 'c log_globals" where
  "GetLogger g =
     (case Logger g of
        Some l \<Rightarrow> (l, g)
      | None \<Rightarrow> let l = \<lparr>zcore = Nop, addCaller = False, addStacktrace = None\<rparr> in (l, g\<lparr>Logger := Some l\<rparr>))"

definition Sync :: "('c \<Rightarrow> 's \<Rightarrow> string option \<times> 's) \<Rightarrow> 'c log_globals \<Rightarrow> 's \<Rightarrow> 's" where
  "Sync coreSync g s = (case Logger g of Some l \<Rightarrow> snd (core_Sync coreSync (zcore l) s) | None \<Rightarrow> s)"

definition GetStructuredLogger :: "('c \<Rightarrow> field list \<Rightarrow> 'c) \<Rightarrow> 'c log_globals \<Rightarrow> string \<Rightarrow> 'c zlogger \<times> 'c log_globals" where
  "GetStructuredLogger coreWith g component =
     (let (logger, g1) = GetLogger g; validatedComponent = ValidateComponent component
      in (logger_With coreWith logger [zap_String ''component'' validatedComponent], g1))"

definition CreateOperationLogger ::
  "('c \<Rightarrow> field list \<Rightarrow> 'c) \<Rightarrow> 'c log_globals \<Rightarrow> string \<Rightarrow> string \<Rightarrow> field list \<Rightarrow> 'c zlogger \<times> 'c log_globals" where
  "CreateOperationLogger coreWith g component operation additionalFields =
     (let validatedComponent = ValidateComponent component;
          flds = [zap_String ''component'' validatedComponent, zap_String ''operation'' operation] @ additionalFields;
          (logger, g1) = GetLogger g
      in (logger_With coreWith logger flds, g1))"

definition HTTPRequestLogger ::
  "('c \<Rightarrow> field list \<Rightarrow> 'c) \<Rightarrow> 'c log_globals \<Rightarrow> string \<Rightarrow> string \<Rightarrow> string \<Rightarrow> string \<Rightarrow> 'c zlogger \<times> 'c log_globals" where
  "HTTPRequestLogger coreWith g component operation remoteAddr userAgent =
     CreateOperationLogger coreWith g component operation
       [zap_String ''remote_addr'' remoteAddr, zap_String ''user_agent'' userAgent]"

text \<open>\<open>logger_Error\<close> is the method \<^verbatim>\<open>Error\<close> of a zap logger.\<close>

definition LogErrorWithContext ::
  "('l \<Rightarrow> string \<Rightarrow> field list \<Rightarrow> 's \<Rightarrow> 's) \<Rightarrow> 'l \<Rightarrow> string \<Rightarrow> string option \<Rightarrow> field list \<Rightarrow> 's \<Rightarrow> 's" where
  "LogErrorWithContext logger_Error logger msg err flds s =
     (let allFields = flds @ [zap_Error err] in logger_Error logger msg allFields s)"

section \<open>Files\<close>

text \<open>A frame of the call stack: the name of its function, if known, and its file.\<close>

record frame =
  frFunc :: "string option"
  frFile :: string

definition test_name :: "string \<Rightarrow> string" where
  "test_name file1 = last (Split (CHR ''/'') (TrimSuffix file1 ''_test.go'')) @ ''_test''"

fun detect_loop :: "frame list \<Rightarrow> bool \<times> string" where
  "detect_loop [] = (False, [])"
| "detect_loop (f # fs) =
     (if (case frFunc f of None \<Rightarrow> False | Some n \<Rightarrow> Contains n ''.Test'' \<or> Contains n ''.Benchmark'')
      then (True, if HasSuffix (frFile f) ''_test.go'' then test_name (frFile f) else ''test'')
      else if HasSuffix (frFile f) ''_test.go'' then (True, test_name (frFile f))
      else detect_loop fs)"

definition detectTestContext :: "frame list \<Rightarrow> bool \<times> string" where
  "detectTestContext callers = detect_loop (take 10 callers)"

definition GetTestLogPath :: "frame list \<Rightarrow> string" where
  "GetTestLogPath callers =
     (let (isTest, testName) = detectTestContext callers
      in if isTest \<and> testName \<noteq> [] then ''./'' @ testName @ ''.log'' else [])"

section \<open>Creating loggers\<close>

definition log_level :: "debug_config \<Rightarrow> level" where
  "log_level c = (if Enabled c then DebugLevel else InfoLevel)"

definition log_path :: "bool \<Rightarrow> bool \<Rightarrow> frame list \<Rightarrow> int \<Rightarrow> string" where
  "log_path homebrew test callers port =
     (let logDir = (if test then ''.'' else if homebrew then ''/opt/homebrew/var/log'' else ''/var/log/harmonydb'');
          (isTest, testName) = detectTestContext callers
      in if isTest \<and> testName \<noteq> [] then logDir @ ''/'' @ testName @ ''.log''
         else logDir @ ''/harmony_'' @ itoa port @ ''.log'')"

text \<open>The configuration of the encoders; the functions of zap that encode single values are named.\<close>

datatype value_encoder = LowercaseLevelEncoder | ISO8601TimeEncoder | SecondsDurationEncoder | ShortCallerEncoder

record encoder_config =
  TimeKey :: string
  LevelKey :: string
  NameKey :: string
  CallerKey :: string
  FunctionKey :: string
  MessageKey :: string
  StacktraceKey :: string
  LineEnding :: string
  EncodeLevel :: value_encoder
  EncodeTime :: value_encoder
  EncodeDuration :: value_encoder
  EncodeCaller :: value_encoder

definition encoderConfig :: encoder_config where
  "encoderConfig = \<lparr>TimeKey = ''timestamp'', LevelKey = ''level'', NameKey = ''logger'', CallerKey = ''caller'',
     FunctionKey = [], MessageKey = ''message'', StacktraceKey = ''stacktrace'', LineEnding = [CHR 0x0A],
     EncodeLevel = LowercaseLevelEncoder, EncodeTime = ISO8601TimeEncoder, EncodeDuration = SecondsDurationEncoder,
     EncodeCaller = ShortCallerEncoder\<rparr>"

datatype encoder = ConsoleEncoder encoder_config | JSONEncoder encoder_config

datatype 'f sink = StdoutSink | FileSink 'f

datatype open_mode = AppendMode | TruncMode

text \<open>
  The package zap and the operating system are the arguments \<open>newCore\<close>, \<open>newTee\<close> and \<open>openFile\<close>, the last for a
  mode and a path. The three environment variables come as a triple.
\<close>

type_synonym debug_env = "string \<times> string \<times> string"

definition env_config :: "debug_env \<Rightarrow> debug_config" where
  "env_config env = (case env of (debug, components, perf) \<Rightarrow> detectDebugMode debug components perf)"

definition zap_New :: "'c zcore \<Rightarrow> 'c zlogger" where
  "zap_New k = \<lparr>zcore = k, addCaller = True, addStacktrace = Some ErrorLevel\<rparr>"

definition InitLogger ::
  "(encoder \<Rightarrow> 'f sink \<Rightarrow> level \<Rightarrow> 'c) \<Rightarrow> ('c list \<Rightarrow> 'c) \<Rightarrow> (open_mode \<Rightarrow> string \<Rightarrow> string + 'f) \<Rightarrow> debug_env \<Rightarrow> bool \<Rightarrow> frame list
   \<Rightarrow> int \<Rightarrow> bool \<Rightarrow> 'c log_globals \<Rightarrow> string option \<times> 'c log_globals" where
  "InitLogger newCore newTee openFile env homebrew callers port test g =
     (let c = env_config env; g1 = g\<lparr>debugConfig := Some c\<rparr>; logLevel = log_level c;
          logPath = log_path homebrew test callers port
      in (case openFile AppendMode logPath of
            Inl e \<Rightarrow> (Some e, g1)
          | Inr logFile \<Rightarrow>
              let consoleEncoder = ConsoleEncoder encoderConfig; fileEncoder = JSONEncoder encoderConfig;
                  teeCore = newTee [newCore consoleEncoder StdoutSink logLevel, newCore fileEncoder (FileSink logFile) logLevel];
                  k = (if Enabled c then Filtered (NewDebugFilterCore teeCore (debugConfig g1)) else Plain teeCore)
              in (None, g1\<lparr>Logger := Some (zap_New k)\<rparr>)))"

text \<open>
  The logger of one node of a test. Its configuration is a local variable of the same name, which the
  filter carries; the global one, which \<^verbatim>\<open>Write\<close> consults, is not set.
\<close>

definition CreateNodeSpecificLogger ::
  "(encoder \<Rightarrow> 'f sink \<Rightarrow> level \<Rightarrow> 'c) \<Rightarrow> ('c \<Rightarrow> field list \<Rightarrow> 'c) \<Rightarrow> (open_mode \<Rightarrow> string \<Rightarrow> string + 'f) \<Rightarrow> debug_env \<Rightarrow> int
   \<Rightarrow> string \<Rightarrow> string + 'c zlogger" where
  "CreateNodeSpecificLogger newCore coreWith openFile env nodeID testName =
     (let c = env_config env; logLevel = log_level c;
          logPath = ''./'' @ testName @ ''_node_'' @ itoa nodeID @ ''.log''
      in (case openFile TruncMode logPath of
            Inl e \<Rightarrow> Inl e
          | Inr logFile \<Rightarrow>
              let fileCore = newCore (ConsoleEncoder encoderConfig) (FileSink logFile) logLevel;
                  k = (if Enabled c then Filtered (NewDebugFilterCore fileCore (Some c)) else Plain fileCore);
                  nodeLogger = zap_New k
              in Inr (logger_With coreWith nodeLogger [zap_Int64 ''node_id'' nodeID])))"

text \<open>
  The cleanup removes the test logs of a directory that are older than a day; an entry carries its
  name and its modification time in nanoseconds, if that is known.
\<close>

definition CleanupTestLogs :: "int \<Rightarrow> (string \<times> int option) list \<Rightarrow> (string \<times> int option) list" where
  "CleanupTestLogs now entries1 =
     filter (\<lambda>(name, modTime). \<not> (HasSuffix name ''_test.log'' \<and>
       (case modTime of None \<Rightarrow> False | Some t \<Rightarrow> t + 24 * 60 * 60 * 1000 * 1000 * 1000 < now))) entries1"

section \<open>Properties\<close>

lemma Split_not_Nil: "Split sep s \<noteq> []"
  by (induction s) (auto split: list.splits)

text \<open>The pieces, joined by the separator again, are the string.\<close>

fun join :: "char \<Rightarrow> string list \<Rightarrow> string" where
  "join sep [] = []"
| "join sep [p] = p"
| "join sep (p # q # ps) = p @ sep # join sep (q # ps)"

lemma join_Split: "join sep (Split sep s) = s"
proof (induction s)
  case (Cons c s)
  obtain p ps where ps: "Split sep s = p # ps" using Split_not_Nil [of sep s] by (cases "Split sep s") auto
  then show ?case using Cons by (cases ps) auto
qed simp

lemma Split_pieces: "p \<in> set (Split sep s) \<Longrightarrow> sep \<notin> set p"
proof (induction s arbitrary: p)
  case (Cons c s)
  then show ?case using Split_not_Nil [of sep s] by (cases "Split sep s") (auto split: if_splits)
qed simp

lemma detectDebugMode_fields:
  "Enabled (detectDebugMode debug components perf) \<longleftrightarrow> ToLower debug = ''true''"
  "Components (detectDebugMode debug components perf)
     = (if components = [] then {} else TrimSpace ` set (Split (CHR '','') components))"
  by (simp_all add: detectDebugMode_def Let_def ToLower_def)

lemmas filter_defs = filter_Check_def filter_Write_def filter_With_def isDebugEntryEnabled_def isDebugEnabledForComponent_def
  NewDebugFilterCore_def


text \<open>Cores that are lists of outputs, each with its level, and count what is written to them.\<close>

type_synonym 'f outputs = "(encoder \<times> 'f sink \<times> level) list"

definition output_parts :: "'f outputs \<Rightarrow> level \<Rightarrow> 'f outputs list" where
  "output_parts k lv = map (\<lambda>x. [x]) (filter (\<lambda>(e, s, l). l \<le> lv) k)"

definition add_outputs :: "'f outputs \<Rightarrow> level \<Rightarrow> 'f outputs zcore list \<Rightarrow> 'f outputs zcore list" where
  "add_outputs k lv ce = ce @ map Plain (output_parts k lv)"

definition count_write :: "'f outputs \<Rightarrow> level \<Rightarrow> field list \<Rightarrow> nat \<Rightarrow> string option \<times> nat" where
  "count_write k lv flds s = (None, s + length k)"

definition one_output :: "encoder \<Rightarrow> 'f sink \<Rightarrow> level \<Rightarrow> 'f outputs" where
  "one_output e s l = [(e, s, l)]"

definition no_globals :: "'c log_globals" where
  "no_globals = \<lparr>Logger = None, debugConfig = None\<rparr>"

definition count_log :: "unit outputs zlogger \<Rightarrow> level \<Rightarrow> field list \<Rightarrow> nat \<Rightarrow> nat" where
  "count_log l lv fs s = foldl (\<lambda>s k. snd (core_Write count_write None k lv fs s)) s (core_Check add_outputs (zcore l) lv [])"


text \<open>A failed initialization replaces the configuration but keeps the logger; without a logger nothing is logged.\<close>

lemma InitLogger_error:
  "openFile AppendMode (log_path homebrew test callers port) = Inl e \<Longrightarrow>
     InitLogger newCore newTee openFile env homebrew callers port test g = (Some e, g\<lparr>debugConfig := Some (env_config env)\<rparr>)"
  by (simp add: InitLogger_def Let_def)

lemma no_logger:
  "Logger g = None \<Longrightarrow> zcore (fst (GetStructuredLogger coreWith g cname)) = Nop"
  "Logger g = None \<Longrightarrow> zcore (fst (CreateOperationLogger coreWith g cname op flds)) = Nop"
  "Logger g = None \<Longrightarrow> Sync coreSync g s = s"
  by (simp_all add: GetStructuredLogger_def CreateOperationLogger_def GetLogger_def logger_With_def Let_def Sync_def)

end
