(* ===== verification/Text_Logger.thy ===== *)
theory Text_Logger
  imports Main
begin

text \<open>
  The package logger, \<^verbatim>\<open>logger/logger.go\<close>: which handler the global \<^verbatim>\<open>Log\<close> has. A handler is given by its
  format, its writer and its level; opening a file is an argument.
\<close>

section \<open>Handlers\<close>

type_synonym slog_level = int

definition LevelInfo :: slog_level where "LevelInfo = 0"

datatype 'w writer = Stdout | Writer 'w

datatype format = TextHandler | JSONHandler

record 'w handler =
  hFormat :: format
  hOutput :: "'w writer"
  hLevel :: slog_level

definition logger_init :: "'w handler" where
  "logger_init = \<lparr>hFormat = TextHandler, hOutput = Stdout, hLevel = LevelInfo\<rparr>"

text \<open>A nil writer stands for the standard output.\<close>

definition initLogger :: "'w writer option \<Rightarrow> slog_level \<Rightarrow> bool \<Rightarrow> 'w handler" where
  "initLogger output level useJSON =
     (let out = (case output of None \<Rightarrow> Stdout | Some w \<Rightarrow> w)
      in if useJSON then \<lparr>hFormat = JSONHandler, hOutput = out, hLevel = level\<rparr>
         else \<lparr>hFormat = TextHandler, hOutput = out, hLevel = level\<rparr>)"

text \<open>\<^verbatim>\<open>Log\<close> is the last argument and the second component of the result.\<close>

definition InitWithFile ::
  "(string \<Rightarrow> string + 'w) \<Rightarrow> string \<Rightarrow> slog_level \<Rightarrow> bool \<Rightarrow> 'w handler \<Rightarrow> string option \<times> 'w handler" where
  "InitWithFile openFile path level useJSON lg =
     (case openFile path of
        Inl err \<Rightarrow> (Some err, lg)
      | Inr f \<Rightarrow> (None, initLogger (Some (Writer f)) level useJSON))"

section \<open>Properties\<close>

text \<open>A failure keeps the handler that was there; a success never writes to the standard output.\<close>

lemma InitWithFile_cases:
  "InitWithFile openFile path level useJSON lg = (err, lg') \<Longrightarrow>
     (case err of Some e \<Rightarrow> openFile path = Inl e \<and> lg' = lg
      | None \<Rightarrow> hOutput lg' \<noteq> Stdout \<and> hLevel lg' = level \<and> (hFormat lg' = JSONHandler \<longleftrightarrow> useJSON))"
  by (auto simp: InitWithFile_def initLogger_def Let_def split: sum.splits if_splits)

lemma initLogger_default: "initLogger None LevelInfo False = logger_init"
  by (simp add: initLogger_def logger_init_def)

end
