(* ===== verification/Raft_Support.thy ===== *)
theory Raft_Support
  imports Harmony_Db "HOL-Library.Sublist"
begin

text \<open>
  What surrounds a node in package \<^verbatim>\<open>repl\<close> and in the tests: the interface \<^verbatim>\<open>RaftNode\<close> through which the database
  uses a node, its stand-in \<^verbatim>\<open>MockRaftNode\<close> (\<^verbatim>\<open>mock_raft.go\<close>), the nodes and configuration files that the tests
  create (\<^verbatim>\<open>repl/raft_mock.go\<close>, \<^verbatim>\<open>repl/test_helpers.go\<close>), and the random timeouts of \<^verbatim>\<open>repl/utils.go\<close>.
\<close>

section \<open>Random timeouts\<close>

text \<open>
  The duration after which the timer fires, none for the nil channel. \<open>r\<close> is the random number; the sum of
  64-bit durations wraps around.
\<close>

definition randomTimeout :: "int \<Rightarrow> int \<Rightarrow> int option" where
  "randomTimeout r minVal =
     (if minVal = 0 then None else let extra = go_rem r minVal in Some (i64 (minVal + extra)))"

section \<open>The stand-in for a node\<close>

record mock_node =
  mockID :: int
  mApplyc :: "to_apply list"
  processFunc :: "(message \<Rightarrow> message res) option"
  tickCount :: int

definition NewMockRaftNode :: "int \<Rightarrow> mock_node" where
  "NewMockRaftNode i = \<lparr>mockID = i, mApplyc = [], processFunc = None, tickCount = 0\<rparr>"

definition mock_Tick :: "mock_node \<Rightarrow> mock_node" where
  "mock_Tick m = m\<lparr>tickCount := i64 (tickCount m + 1)\<rparr>"

definition mock_Process :: "mock_node \<Rightarrow> message \<Rightarrow> message res" where
  "mock_Process m msg = (case processFunc m of Some f \<Rightarrow> f msg | None \<Rightarrow> Inr no_message)"

text \<open>A receive from the channel that \<^verbatim>\<open>Apply\<close> returns.\<close>

definition mock_Apply :: "mock_node \<Rightarrow> (to_apply \<times> mock_node) option" where
  "mock_Apply m = (case mApplyc m of [] \<Rightarrow> None | ta # rest \<Rightarrow> Some (ta, m\<lparr>mApplyc := rest\<rparr>))"

definition mock_GetWAL :: "mock_node \<Rightarrow> logManager option" where
  "mock_GetWAL m = None"

definition SetProcessFunc :: "mock_node \<Rightarrow> (message \<Rightarrow> message res) option \<Rightarrow> mock_node" where
  "SetProcessFunc m f = m\<lparr>processFunc := f\<rparr>"

text \<open>The send waits while the channel is full.\<close>

definition SimulateApply :: "mock_node \<Rightarrow> log list \<Rightarrow> int \<Rightarrow> mock_node option" where
  "SimulateApply m es commitIdx =
     (if length (mApplyc m) < 256 then Some (m\<lparr>mApplyc := mApplyc m @ [\<lparr>taEntries = es, taCommitIndex = commitIdx\<rparr>]\<rparr>) else None)"

definition GetTickCount :: "mock_node \<Rightarrow> int" where
  "GetTickCount m = tickCount m"

section \<open>Nodes for tests\<close>

definition createTestNode :: "int \<Rightarrow> int list \<Rightarrow> logManager \<Rightarrow> raft_node" where
  "createTestNode i peerIDs mockWAL =
     (let r = \<lparr>ID = i, currentTerm = 0, votedFor = Map.empty, state = StateFollower, randomizedTimeout = 0,
               electionTick = 0, heartbeatTick = 0, electionTimeout = 3, heartbeatTimeout = 1,
               clusterSize = int (length peerIDs) + 1, peers = remdups peerIDs, stepf = None, tickf = None,
               votes = Some [], msgs = [], msgsAfterAppend = [], readyc = [], raftlog = newRaftLog, progress = []\<rparr>
      in \<lparr>nID = i, nAddress = [], members = set peerIDs, nraft = becomeFollower r 0, propc = [], applyc = [], tickc = 0,
          nwal = mockWAL, sent = []\<rparr>)"

definition createVoteGrantMessage :: "int \<Rightarrow> int \<Rightarrow> int \<Rightarrow> message" where
  "createVoteGrantMessage from to term = no_message\<lparr>mType := MSG_VOTE_RESP, mFrom := from, mTo := to,
     mVoteResp := Some \<lparr>rTerm = term, VoteGranted = True\<rparr>\<rparr>"

text \<open>
  The configuration files of the tests, as the text that is written; the name of the temporary file is an
  argument, and \<open>fs\<close> are the files by path.
\<close>

definition createTempConfig :: "string \<Rightarrow> string \<Rightarrow> (string \<rightharpoonup> string) \<Rightarrow> string \<times> (string \<rightharpoonup> string)" where
  "createTempConfig name content fs = (name, fs(name \<mapsto> content))"

abbreviation nl :: string where "nl \<equiv> [CHR 0x0A]"

definition createSingleNodeConfig :: "string \<Rightarrow> int \<Rightarrow> int \<Rightarrow> (string \<rightharpoonup> string) \<Rightarrow> string \<times> (string \<rightharpoonup> string)" where
  "createSingleNodeConfig name nodeID port fs =
     (let configYAML = ''cluster:'' @ nl @ ''  nodes:'' @ nl @ ''    - id: '' @ itoa nodeID @ nl
        @ ''      address: '' @ [CHR 0x22] @ ''localhost:'' @ itoa port @ [CHR 0x22] @ nl
        @ ''this_node_id: '' @ itoa nodeID @ nl
      in createTempConfig name configYAML fs)"

definition node_lines :: "node_info \<Rightarrow> string" where
  "node_lines x = ''    - id: '' @ itoa (niID x) @ nl @ ''      address: '' @ [CHR 0x22] @ niAddress x @ [CHR 0x22] @ nl"

definition createMultiNodeConfig :: "string \<Rightarrow> int \<Rightarrow> node_info list \<Rightarrow> (string \<rightharpoonup> string) \<Rightarrow> string \<times> (string \<rightharpoonup> string)" where
  "createMultiNodeConfig name thisNodeID ns fs =
     (let configYAML = fold (\<lambda>x text. text @ node_lines x) ns (''cluster:'' @ nl @ ''  nodes:'' @ nl)
        @ ''this_node_id: '' @ itoa thisNodeID @ nl
      in createTempConfig name configYAML fs)"

text \<open>
  A test node is started by its constructor and once more by the helper. \<open>bound\<close> are the addresses on which the
  process listens, and \<open>listen\<close> gives the error of \<^verbatim>\<open>net.Listen\<close> for them. A failed requirement ends the test.
\<close>

definition setupTestNode ::
  "cluster_config res \<Rightarrow> bytes \<Rightarrow> (string \<Rightarrow> string option) \<Rightarrow> (string set \<Rightarrow> string \<Rightarrow> string option) \<Rightarrow> string set
   \<Rightarrow> (raft_node \<times> string set) res" where
  "setupTestNode load walData dial listen bound =
     bindr (NewRaftNode load walData dial (listen bound)) (\<lambda>n.
       let bound1 = insert (nAddress n) bound
       in bindr (node_start (listen bound1) n) (\<lambda>n. Inr (n, insert (nAddress n) bound1)))"

text \<open>\<open>load\<close> parses the text of a configuration and \<open>wals\<close> are the contents of the logs.\<close>

fun setupTestCluster ::
  "(string \<Rightarrow> cluster_config res) \<Rightarrow> (int \<Rightarrow> bytes) \<Rightarrow> (string \<Rightarrow> string option) \<Rightarrow> (string set \<Rightarrow> string \<Rightarrow> string option)
   \<Rightarrow> (int \<Rightarrow> string) \<Rightarrow> node_info list \<Rightarrow> node_info list \<Rightarrow> string set \<Rightarrow> (string \<rightharpoonup> string) \<Rightarrow> (raft_node list \<times> string set) res" where
  "setupTestCluster load wals dial listen tempName ns [] bound fs = Inr ([], bound)"
| "setupTestCluster load wals dial listen tempName ns (x # xs) bound fs =
     (let (configPath, fs1) = createMultiNodeConfig (tempName (niID x)) (niID x) ns fs
      in bindr (setupTestNode (case fs1 configPath of None \<Rightarrow> Inl (GoErr ''failed to read config file'') | Some text \<Rightarrow> load text)
                  (wals (niID x)) dial listen bound) (\<lambda>(n, bound1).
           bindr (setupTestCluster load wals dial listen tempName ns xs bound1 fs1) (\<lambda>(cluster, bound2).
             Inr (n # cluster, bound2))))"

section \<open>The interface of a node\<close>

text \<open>
  The database takes batches from the channel that \<^verbatim>\<open>Apply\<close> returns and otherwise only proposes and ticks. What it
  relies on: moves of the node append to the channel, and a receive takes the oldest batch. Then, in any
  interleaving, the batches received followed by those that wait are the batches that were handed out,
  in order: none is lost, repeated or overtaken.
\<close>

locale raft_iface =
  fixes moves :: "'n \<Rightarrow> 'n \<Rightarrow> bool" and recv :: "'n \<Rightarrow> ('b \<times> 'n) option" and waiting :: "'n \<Rightarrow> 'b list"
  assumes moves_append: "moves n n' \<Longrightarrow> prefix (waiting n) (waiting n')"
    and recv_None: "recv n = None \<longleftrightarrow> waiting n = []"
    and recv_Some: "recv n = Some (b, n') \<Longrightarrow> waiting n = b # waiting n'"
begin

inductive uses_node :: "'n \<Rightarrow> 'b list \<Rightarrow> 'n \<Rightarrow> 'b list \<Rightarrow> bool" for n where
  start: "uses_node n [] n []"
| move: "uses_node n got n1 new \<Longrightarrow> moves n1 n2 \<Longrightarrow> waiting n2 = waiting n1 @ added \<Longrightarrow> uses_node n got n2 (new @ added)"
| take: "uses_node n got n1 new \<Longrightarrow> recv n1 = Some (b, n2) \<Longrightarrow> uses_node n (got @ [b]) n2 new"

lemma nothing_lost: "uses_node n got n' new \<Longrightarrow> got @ waiting n' = waiting n @ new"
  by (induction rule: uses_node.induct) (auto dest: recv_Some)

lemma move_possible: "uses_node n got n1 new \<Longrightarrow> moves n1 n2 \<Longrightarrow> \<exists>added. uses_node n got n2 (new @ added)"
  using moves_append uses_node.move by (metis prefix_def)

end

definition node_moves :: "raft_node \<Rightarrow> raft_node \<Rightarrow> bool" where
  "node_moves n n' \<longleftrightarrow> (\<exists>m expired pick resp. node_Process n m expired pick = Some (Inr (n', resp))) \<or> n' = node_Tick n
     \<or> (\<exists>ch. run_iter n ch = Some (Inr n'))"

lemma run_case_applyc: "run_case n ch = Some (Inr n') \<Longrightarrow> prefix (applyc n) (applyc n')"
  by (auto simp: run_case_def bindr_Inr_iff dest: handle_ready_fields(4) split: choice.splits list.splits if_splits)

lemma run_iter_applyc: "run_iter n ch = Some (Inr n') \<Longrightarrow> prefix (applyc n) (applyc n')"
  by (auto simp: run_iter_def run_eval_def dest!: run_case_applyc split: option.splits sum.splits if_splits)

interpretation node: raft_iface node_moves node_Apply applyc
proof
  fix n n' :: raft_node and b
  show "node_moves n n' \<Longrightarrow> prefix (applyc n) (applyc n')"
    by (auto simp: node_moves_def node_Process_def stepSM_def node_Tick_def run_iter_applyc split: if_splits)
  show "node_Apply n = None \<longleftrightarrow> applyc n = []" by (simp add: node_Apply_def split: list.split)
  show "node_Apply n = Some (b, n') \<Longrightarrow> applyc n = b # applyc n'" by (auto simp: node_Apply_def split: list.splits)
qed

definition mock_moves :: "mock_node \<Rightarrow> mock_node \<Rightarrow> bool" where
  "mock_moves m m' \<longleftrightarrow> m' = mock_Tick m \<or> (\<exists>f. m' = SetProcessFunc m f) \<or> (\<exists>es c. SimulateApply m es c = Some m')"

interpretation mock: raft_iface mock_moves mock_Apply mApplyc
proof
  fix m m' :: mock_node and b
  show "mock_moves m m' \<Longrightarrow> prefix (mApplyc m) (mApplyc m')"
    by (auto simp: mock_moves_def mock_Tick_def SetProcessFunc_def SimulateApply_def split: if_splits)
  show "mock_Apply m = None \<longleftrightarrow> mApplyc m = []" by (simp add: mock_Apply_def split: list.split)
  show "mock_Apply m = Some (b, m') \<Longrightarrow> mApplyc m = b # mApplyc m'" by (auto simp: mock_Apply_def split: list.splits)
qed

section \<open>Properties\<close>

text \<open>The timer of a positive duration fires within twice that duration, as long as that fits 64 bits.\<close>

theorem randomTimeout_bounds:
  assumes "0 < minVal" and "minVal \<le> 2 ^ 62" and "0 \<le> r"
  shows "\<exists>d. randomTimeout r minVal = Some d \<and> minVal \<le> d \<and> d < 2 * minVal"
proof -
  have e: "0 \<le> go_rem r minVal" "go_rem r minVal < minVal" using assms by (auto simp: go_rem_def sgn_if)
  then have "i64 (minVal + go_rem r minVal) = minVal + go_rem r minVal"
    using assms(1,2) by (intro i64_id) (simp add: in_i64_def)
  with e show ?thesis using assms(1) by (simp add: randomTimeout_def Let_def)
qed

lemma randomTimeout_nil: "randomTimeout r 0 = None"
  by (simp add: randomTimeout_def)

text \<open>The hand-made state machine of a test node meets the invariant of the ones that \<^verbatim>\<open>NewRaft\<close> makes.\<close>

lemma createTestNode_ok: "logs w = [] \<Longrightarrow> node_ok (createTestNode i ps w)"
  by (simp add: node_ok_def pending_ok_def createTestNode_def Let_def becomeFollower_def raft_ok_def role_ok_def votes_ok_def
      prog_ok_def prog_of_def log_wf_new go_rem_def) (simp add: newRaftLog_def lastIndex_def)

text \<open>
  On a system that refuses a second listener on an address, the helper never returns a node, and no cluster
  with a node can be set up.
\<close>

theorem setupTestNode_fails:
  assumes "\<And>B a. a \<in> B \<Longrightarrow> listen B a \<noteq> None"
  shows "\<exists>e. setupTestNode load walData dial listen bound = Inl e"
proof (cases "NewRaftNode load walData dial (listen bound)")
  case (Inr n)
  obtain e where "listen (insert (nAddress n) bound) (nAddress n) = Some e" using assms [of "nAddress n"] by blast
  then show ?thesis using Inr by (simp add: setupTestNode_def node_start_def Let_def)
qed (simp add: setupTestNode_def)

lemma setupTestCluster_fails:
  assumes "\<And>B a. a \<in> B \<Longrightarrow> listen B a \<noteq> None"
  shows "\<exists>e. setupTestCluster load wals dial listen tempName ns (x # xs) bound fs = Inl e"
proof -
  obtain p fs1 where p: "createMultiNodeConfig (tempName (niID x)) (niID x) ns fs = (p, fs1)" by (rule prod.exhaust)
  let ?load = "case fs1 p of None \<Rightarrow> Inl (GoErr ''failed to read config file'') | Some text \<Rightarrow> load text"
  from setupTestNode_fails [where listen = listen, OF assms]
  obtain e where "setupTestNode ?load (wals (niID x)) dial listen bound = Inl e" by (rule exE)
  then show ?thesis unfolding setupTestCluster.simps p Let_def prod.case by simp
qed

end
