(* ===== verification/Spec2Isabelle.thy ===== *)
theory Spec2Isabelle
  imports Tree_Overflow Raft_Anomalies Raft_Limits Cluster_Store Http_Server Debug_Logger Text_Logger Raft_Support
begin

text \<open>
  HarmonyDB is a replicated key-value store in Go. A client talks to a node over HTTP; the node
  proposes a write to a Raft state machine, persists log entries in a write-ahead log, exchanges
  messages with its peers, and hands committed entries to a scheduler whose jobs put them into a B+
  tree of 4096-byte pages and wake the waiting clients. This development models these parts as
  executable HOL functions and proves what each promises, and where it fails to.

  \<^bold>\<open>Base.\<close> \<open>Go_Base\<close> is what the sources use of Go: results of calls (\<open>'a res\<close>, a fault or a value; a
  panic is a fault too), integers reduced to their width, slices with spare capacity, byte strings and
  their order, little-endian encodings, the reader behind \<^verbatim>\<open>binary.Read\<close>, random access to a file. An
  operation that may not return is wrapped in \<open>option\<close>, \<open>None\<close> being no return. A fault carries the
  constant part of an error's message; the prefixes that \<^verbatim>\<open>fmt.Errorf\<close> adds on the way up are kept
  where a caller replaces the error and in \<^verbatim>\<open>Get\<close>, whose message reaches the client.

  \<^bold>\<open>Storage engine.\<close>
    \<^item> \<open>Tree_Node\<close>, \<open>Leaf_Ops\<close>: \<^verbatim>\<open>node.go\<close>, one node: cells, offset array, binary search, insertion, split.
      The search agrees with a linear scan; insertion and split are updates of a sorted map.
    \<^item> \<open>Node_Codec\<close>: \<^verbatim>\<open>node.go\<close>, the page format. Round trips of leaf and internal pages, the exact size
      condition of an encoding, when it panics, and what becomes of leaves that were not filled in order.
    \<^item> \<open>File_Store\<close>: \<^verbatim>\<open>storage.go\<close>, page cache, page file, header, flush. Pages are addresses into a heap of
      nodes, since the source shares them through pointers.
    \<^item> \<open>BPlus_Tree\<close>: \<^verbatim>\<open>btree.go\<close>, opening, page access, metadata, recursive \<^verbatim>\<open>get\<close> and \<^verbatim>\<open>put\<close>.
      \<open>BPlus_Correct\<close> and \<open>Tree_Map\<close> prove that a well-formed tree is a map. The map, \<open>contents\<close>, is the
      list of the live cells of all leaves; it uses neither the search in a leaf nor the routing of the
      code, which are proved to agree with it. The locale \<open>map_store\<close> states the contract and the facts
      about sequences of insertions, the tree interprets it. The invariant covers trees of height at most
      two (a root with up to 290 leaves), which is all the source can build: an insertion that needs more
      panics. \<open>Tree_Overflow\<close> gives the capacity of a new tree: fewer than 290 insertions succeed, more than
      2320 different keys never fit. Keys below the first one inserted are outside the contract, and a
      run shows how they get lost.

  \<^bold>\<open>Raft.\<close>
    \<^item> \<open>Raft_Log\<close>, \<open>Raft_Sm\<close>: \<^verbatim>\<open>repl/log.go\<close> and \<^verbatim>\<open>repl/sm.go\<close>, the messages of \<^verbatim>\<open>repl/raft.proto\<close>, the log
      and the state machine with its roles, ticks, elections, replication, commit rule, \<^verbatim>\<open>Ready\<close> and
      \<^verbatim>\<open>Advance\<close>. Step and tick functions stored in the struct are the role they belong to.
    \<^item> \<open>Raft_Inv\<close>, \<open>Raft_Props\<close>: the invariant of one node, that steps keep it and do not panic, that
      committed entries are handed out once and in order, the commit rule, replication and timeouts.
    \<^item> \<open>Raft_Election\<close>, \<open>Raft_Cluster\<close>: a cluster over a network that loses, repeats and reorders messages,
      as a step relation; at most one leader per term, from the locale \<open>quorum_system\<close> interpreted by
      majorities. Terms stay below the end of \<^verbatim>\<open>int64\<close> and nodes keep their state (the source does not
      restore it after a crash).
    \<^item> \<open>Raft_Replication\<close>, \<open>Raft_Agreement\<close>: log replication as a step relation on a cluster of state machines
      under a stable leader that takes one proposal at a time; appends and heartbeats may be delayed,
      reordered or lost, acknowledgements delayed, and each message is delivered at most once. Logs
      agree up to the commit indices, what the leader has committed is on a majority, and a round of
      messages commits a proposal. The locale \<open>decided_log\<close> is the view of a client: one sequence that
      only grows and of which every node has a prefix; the cluster interprets it.
      All members hold the same log at the start.
    \<^item> \<open>Raft_Limits\<close>: where the state machine departs from Raft, for every node and log: an append delivered
      twice is appended twice, a lagging follower is not brought up to date, elections succeed without a
      comparison of logs, and a restarted node has nothing of its write-ahead log in the state machine.
    \<^item> \<open>Raft_Anomalies\<close>: single runs of three nodes that show what follows for a cluster: replicas diverge
      with proposals in flight together, late acknowledgements, a change of leader, and a restart.
    \<^item> \<open>Raft_Node\<close>: \<^verbatim>\<open>repl/raft.go\<close> and \<^verbatim>\<open>repl/bootstrap.go\<close>, channels and run loop. On a node started on an empty
      write-ahead log, while the appends it steps continue its log, the write-ahead log is the stable part
      of the Raft log and messages leave after it is written; the loop can block for ever on its own \<^verbatim>\<open>Ready\<close> channel. \<open>Raft_Pending\<close> shows that a \<^verbatim>\<open>Ready\<close> which
      waits in the channel while the loop takes other cases is as good as one not collected yet.
    \<^item> \<open>Raft_Support\<close>: the stand-in node and the helpers of the tests (\<^verbatim>\<open>mock_raft.go\<close>, \<^verbatim>\<open>repl/raft_mock.go\<close>,
      \<^verbatim>\<open>repl/test_helpers.go\<close>) and the timer of \<^verbatim>\<open>repl/utils.go\<close>. The locale \<open>raft_iface\<close> is the interface
      \<^verbatim>\<open>RaftNode\<close> as the apply loop uses it; the node and its stand-in interpret it.

  \<^bold>\<open>Durability.\<close>
    \<^item> \<open>Wal_Log\<close>: \<^verbatim>\<open>wal/wal.go\<close>, record format, recovery, queries, truncation, closing; the
      decoding loop ends on every file. The locale \<open>log_storage\<close> is the
      part of the \<^verbatim>\<open>Storage\<close> interface that recovery relies on.
    \<^item> \<open>Wal_Replay\<close>: \<^verbatim>\<open>replay.go\<close> and the metadata file; the replay puts the committed, unapplied entries.

  \<^bold>\<open>Serving clients.\<close>
    \<^item> \<open>Id_Generator\<close>: \<^verbatim>\<open>generator.go\<close> on 64-bit words; identifiers do not repeat within \<open>2 ^ 48\<close> requests.
    \<^item> \<open>Waiters\<close>: \<^verbatim>\<open>wait.go\<close> and \<^verbatim>\<open>wait_time.go\<close>; both tables interpret the locale \<open>wake_table\<close>: a waiter
      is woken by what it waits for and by nothing else.
    \<^item> \<open>Fifo_Scheduler\<close>: \<^verbatim>\<open>scheduler/scheduler.go\<close>; the locale \<open>fifo_queue\<close> gives the order of execution.
    \<^item> \<open>Harmony_Db\<close>: \<^verbatim>\<open>db.go\<close>, the composition: a \<^verbatim>\<open>Put\<close> is acknowledged when its entry is applied and is
      then read by \<^verbatim>\<open>Get\<close>; a restart loses it.
    \<^item> \<open>Http_Api\<close>, \<open>Http_Server\<close>: \<^verbatim>\<open>api/server.go\<close> and \<^verbatim>\<open>cmd/server.go\<close>: handlers, choice of ports, routes, start
      and shutdown, and what a read over HTTP answers on a node as in \<open>Db_System\<close>.
    \<^item> \<open>Debug_Logger\<close>, \<open>Text_Logger\<close>: \<^verbatim>\<open>logger.go\<close> (debug mode, component filter, loggers of nodes and tests)
      and \<^verbatim>\<open>logger/logger.go\<close>, with the zap core as a parameter. The selection of components has no effect,
      since the filter's \<^verbatim>\<open>Check\<close> leaves the writing to the core it wraps.

  \<^bold>\<open>The whole system.\<close>
    \<^item> \<open>Db_System\<close>: one database node, its clients, network, clock, run loop, apply loop and worker in any
      interleaving, from a first start on empty files, while the appends stepped continue the log and the
      log handed out fits the tree (commands only, fewer than 290, first key smallest: \<open>fits_tree\<close>). The node
      refines its log: what has been executed is a prefix of what Raft handed out, reads answer from it, \<^verbatim>\<open>Put\<close> returns exactly when its entry has
      been executed, and the node can always catch up.
    \<^item> \<open>Db_Cluster\<close>: a cluster of such nodes. A step is a write of a client, an inner step of a node, the
      receipt or loss of a message, or an iteration of a run loop with any case of its select. Under the
      conditions of \<open>Raft_Replication\<close>, stated for the code in \<open>may_take\<close> and the rules of \<open>kv_step\<close>, every
      step is one of the cluster of state machines or none, with the messages that wait in the channels
      of a node counted as under way. \<open>Cluster_Writes\<close> follows a run together with the writes of its clients:
      every replicated entry carries one of them.
    \<^item> \<open>Cluster_Store\<close>: hence the databases implement one key-value store, of which each replica shows a
      prefix, and an acknowledged write is in the decided log and on a majority as long as these conditions
      hold and the decided log fits the tree. A run of three
      members from their start over an election to a write that is replicated, applied and acknowledged
      shows that the conditions can hold.

  \<^bold>\<open>Bounds.\<close> The recursion of the tree is a partial function; the properties prove that it returns.
  Loops over slices and maps are structural recursions, the binary search and the decoding of the
  log terminate by measures, and no definition uses fuel. Log indices are integers without
  wrap-around; file offsets stay below \<open>2 ^ 63\<close> in the tree's invariant. Reading the log at index 0 is the nil
  panic, where the source would hand on a nil pointer; no well-formed node reads there.

  \<^bold>\<open>Not modelled.\<close> Mutexes and goroutine switches inside an operation: operations are atomic, except that
  blocking calls are cut where they wait. Errors of the operating system and of \<^verbatim>\<open>fsync\<close>. Parsing of
  YAML and JSON, gRPC and the listening sockets, which are parameters or outcomes in the requests.
  The packages zap and slog below the calls of the loggers, and \<^verbatim>\<open>DurationFromTime\<close>, which formats a
  floating-point number for a log line. Generated code: the protocol buffers, whose messages are records
  of \<open>Raft_Log\<close>, and the mocks of MockGen, which forward their arguments to a controller.
\<close>

end
